(* ===== verification/Smtx_Prelude.thy ===== *)
theory Smtx_Prelude
  imports Main "HOL-Library.Word"
begin

unbundle bit_operations_syntax

section \<open>Prelude: outcomes, byte-addressed memory and byte lanes of machine words\<close>

text \<open>
  Shared vocabulary of the development.

  \<^item> Outcomes: \<open>'a res\<close> is a normal result \<open>Inr x\<close> or a \<open>fault\<close>. A failed \<open>assert\<close>, a busy-wait
    loop that no other process will end, a call of \<open>exit\<close> and an access outside an array are
    values, so that every abnormal branch of the C++ code is a branch of the model.
  \<^item> Memory: the address space of a process is a function from 64-bit addresses to bytes;
    \<open>load_le k\<close> and \<open>store_le k\<close> are the little-endian accesses of \<open>k\<close> bytes the x86-64 code makes
    through \<open>uint16_t*\<close>, \<open>uint32_t*\<close> and \<open>uint64_t*\<close> pointers.
  \<^item> Lanes: \<open>lane w i\<close> is byte \<open>i\<close> of a word. The runtime works on 8 metadata bytes at a time with
    one 64-bit operation; \<open>rmw_lanewise\<close> turns such a read-modify-write into \<open>map_bytes\<close>, the same
    change made byte by byte.
\<close>

subsection \<open>Outcomes\<close>

datatype fault =
    AssertFailed        \<comment> \<open>\<open>assert\<close> of a false condition\<close>
  | Spin                \<comment> \<open>a busy-wait loop whose condition never changes in the current state\<close>
  | ProcExit nat        \<comment> \<open>\<open>exit\<close> or \<open>_exit\<close> with a status\<close>
  | OutOfRange          \<comment> \<open>an access outside an allocated array (undefined behaviour in C++)\<close>

type_synonym 'a res = "fault + 'a"

definition rbind :: "'a res \<Rightarrow> ('a \<Rightarrow> 'b res) \<Rightarrow> 'b res" where
  "rbind r f = (case r of Inl e \<Rightarrow> Inl e | Inr x \<Rightarrow> f x)"

lemma rbind_simps [simp]:
  "rbind (Inl e) f = Inl e"
  "rbind (Inr x) f = f x"
  by (simp_all add: rbind_def)

lemma rbind_eq_Inr: "rbind r f = Inr y \<longleftrightarrow> (\<exists>x. r = Inr x \<and> f x = Inr y)"
  by (cases r) auto

text \<open>A \<open>for\<close> loop whose body may fail: it stops at the first fault.\<close>

fun rfold :: "('x \<Rightarrow> 's \<Rightarrow> 's res) \<Rightarrow> 'x list \<Rightarrow> 's \<Rightarrow> 's res" where
  "rfold f [] s = Inr s"
| "rfold f (x # xs) s = rbind (f x s) (rfold f xs)"

lemma rfold_append: "rfold f (xs @ ys) s = rbind (rfold f xs s) (rfold f ys)"
  by (induction xs arbitrary: s) (auto simp: rbind_def split: sum.splits)

lemma rfold_invariant:
  assumes "\<And>x s s'. x \<in> set xs \<Longrightarrow> P s \<Longrightarrow> f x s = Inr s' \<Longrightarrow> P s'"
    and "P s" and "rfold f xs s = Inr s'"
  shows "P s'"
  using assms
proof (induction xs arbitrary: s)
  case Nil
  then show ?case by simp
next
  case (Cons x xs)
  from Cons.prems(3) obtain t where t: "f x s = Inr t" "rfold f xs t = Inr s'"
    by (auto simp: rbind_eq_Inr)
  from Cons.prems(1)[of x s t] Cons.prems(2) t(1) have "P t" by simp
  moreover have "P u'" if "y \<in> set xs" "P u" "f y u = Inr u'" for y u u'
    using Cons.prems(1)[of y u u'] that by simp
  ultimately show ?case using Cons.IH[of t] t(2) by blast
qed

text \<open>The same loop when no body fails is a \<open>fold\<close>.\<close>

lemma rfold_total: "(\<And>x s. x \<in> set xs \<Longrightarrow> f x s = Inr (g x s)) \<Longrightarrow> rfold f xs s = Inr (fold g xs s)"
  by (induction xs arbitrary: s) auto

subsection \<open>Memory\<close>

type_synonym byte = "8 word"
type_synonym addr = "64 word"
type_synonym mem = "addr \<Rightarrow> byte"

named_theorems lane_simps \<open>byte lanes of bitwise operations\<close>

definition lane :: "'a::len word \<Rightarrow> nat \<Rightarrow> byte" where
  "lane w i = ucast (drop_bit (8 * i) w)"

primrec load_le :: "nat \<Rightarrow> mem \<Rightarrow> addr \<Rightarrow> 'a::len word" where
  "load_le 0 m a = 0"
| "load_le (Suc k) m a = ucast (m a) OR push_bit 8 (load_le k m (a + 1))"

primrec store_le :: "nat \<Rightarrow> mem \<Rightarrow> addr \<Rightarrow> 'a::len word \<Rightarrow> mem" where
  "store_le 0 m a w = m"
| "store_le (Suc k) m a w = store_le k (m(a := ucast w)) (a + 1) (drop_bit 8 w)"

definition map_bytes :: "nat \<Rightarrow> (byte \<Rightarrow> byte) \<Rightarrow> mem \<Rightarrow> addr \<Rightarrow> mem" where
  "map_bytes k f m a = (\<lambda>x. if unat (x - a) < k then f (m x) else m x)"

lemma bit_lane [lane_simps]: "bit (lane w i) j \<longleftrightarrow> j < 8 \<and> bit (w :: 'a::len word) (8 * i + j)"
  by (auto simp: lane_def bit_simps)

lemma lane_or [lane_simps]: "lane (x OR y) i = lane x i OR lane y i"
  by (rule bit_word_eqI) (simp add: bit_lane bit_simps)

lemma lane_and [lane_simps]: "lane (x AND y) i = lane x i AND lane y i"
  by (rule bit_word_eqI) (simp add: bit_lane bit_simps)

lemma lane_xor [lane_simps]: "lane (x XOR y) i = lane x i XOR lane y i"
  by (rule bit_word_eqI) (simp add: bit_lane bit_simps)

lemma lane_drop [lane_simps]: "lane (drop_bit 8 w) i = lane w (Suc i)"
  by (rule bit_word_eqI) (simp add: bit_lane bit_simps ac_simps)

lemma lane_0 [simp]: "lane w 0 = ucast w"
  by (simp add: lane_def)

lemma unat_minus_one_step:
  fixes x a :: addr
  assumes "x \<noteq> a"
  shows "unat (x - a) = Suc (unat (x - (a + 1)))"
proof -
  have "x - a \<noteq> 0" using assms by simp
  then have "unat (x - a - 1) = unat (x - a) - 1" by (rule unat_minus_one)
  moreover have "unat (x - a) \<noteq> 0" using assms by (simp add: unat_eq_zero)
  ultimately show ?thesis by (simp add: algebra_simps)
qed

lemma store_le_apply:
  "k < 2 ^ 64 \<Longrightarrow>
   store_le k m a w x = (if unat (x - a) < k then lane w (unat (x - a)) else m x)"
proof (induction k arbitrary: m a w)
  case 0
  then show ?case by simp
next
  case (Suc k)
  show ?case
  proof (cases "x = a")
    case True
    have "unat (- 1 :: addr) = 2 ^ 64 - 1"
      by (simp add: unsigned_minus_1_eq_mask mask_eq_exp_minus_1)
    with Suc show ?thesis using True by simp
  next
    case False
    then show ?thesis using Suc by (simp add: unat_minus_one_step lane_drop)
  qed
qed

lemma bit_load_le:
  "bit (load_le k m a :: 'a::len word) n \<longleftrightarrow>
     n < LENGTH('a) \<and> n < 8 * k \<and> bit (m (a + of_nat (n div 8))) (n mod 8)"
proof (induction k arbitrary: a n)
  case 0
  then show ?case by simp
next
  case (Suc k)
  show ?case
  proof (cases "n < 8")
    case True
    then show ?thesis by (auto simp: bit_simps)
  next
    case False
    then have d: "n div 8 = Suc ((n - 8) div 8)" "n mod 8 = (n - 8) mod 8"
      by (auto simp: le_div_geq le_mod_geq)
    have "\<not> bit (m a) n" using False by (simp add: impossible_bit)
    then show ?thesis using False Suc[of "a + 1" "n - 8"]
      by (auto simp: bit_simps d ac_simps)
  qed
qed

lemma lane_load_le:
  assumes "i < k" "8 * k \<le> LENGTH('a::len)"
  shows "lane (load_le k m a :: 'a word) i = m (a + of_nat i)"
  by (rule bit_word_eqI) (use assms in \<open>auto simp: bit_lane bit_load_le\<close>)

lemma lane_eqI:
  fixes v w :: "'a::len word"
  assumes "LENGTH('a) = 8 * k" and "\<And>i. i < k \<Longrightarrow> lane v i = lane w i"
  shows "v = w"
proof (rule bit_word_eqI)
  fix n assume n: "n < LENGTH('a)"
  then have "n div 8 < k" using assms(1) by (simp add: less_mult_imp_div_less)
  then have "bit (lane v (n div 8)) (n mod 8) = bit (lane w (n div 8)) (n mod 8)"
    by (simp add: assms(2))
  then show "bit v n = bit w n" by (simp add: bit_lane)
qed

text \<open>Reading back what was stored, and the read-modify-write rule.\<close>

lemma load_store_same:
  assumes k: "LENGTH('a::len) = 8 * k" "k < 2 ^ 64"
  shows "load_le k (store_le k m a (w :: 'a word)) a = w"
proof (rule lane_eqI [OF k(1)])
  fix i assume i: "i < k"
  with k(2) have "i < 2 ^ 64" by simp
  then have u: "unat (of_nat i :: addr) = i"
    by (simp add: unat_of_nat)
  show "lane (load_le k (store_le k m a w) a :: 'a word) i = lane w i"
    using k i u by (simp add: lane_load_le store_le_apply)
qed

lemma rmw_lanewise:
  fixes F :: "'a::len word \<Rightarrow> 'a word"
  assumes F: "\<And>w i. i < k \<Longrightarrow> lane (F w) i = f (lane w i)"
    and k: "8 * k \<le> LENGTH('a)" "k < 2 ^ 64"
  shows "store_le k m a (F (load_le k m a)) = map_bytes k f m a"
proof
  fix x
  show "store_le k m a (F (load_le k m a)) x = map_bytes k f m a x"
    using k by (simp add: store_le_apply map_bytes_def F lane_load_le)
qed

lemma map_bytes_apply:
  "map_bytes k f m a x = (if unat (x - a) < k then f (m x) else m x)"
  by (simp add: map_bytes_def)

text \<open>Two adjacent runs of bytes are one run.\<close>

lemma unat_add_of_nat: "unat (y + of_nat j :: addr) = (unat y + j) mod 2 ^ 64"
  by (simp add: unat_word_ariths mod_add_right_eq unsigned_of_nat take_bit_eq_mod)

lemma unat_sub_add:
  fixes x a :: addr
  assumes "unat (x - (a + of_nat j)) < k" "j + k \<le> 2 ^ 64"
  shows "unat (x - a) = unat (x - (a + of_nat j)) + j"
proof -
  let ?y = "x - (a + of_nat j)"
  have "unat ?y + j < 2 ^ 64" using assms by simp
  then have "unat (?y + of_nat j) = unat ?y + j" by (simp only: unat_add_of_nat mod_less)
  then show ?thesis by simp
qed

lemma unat_sub_less_iff:
  fixes x a :: addr
  assumes "j + k \<le> 2 ^ 64"
  shows "unat (x - (a + of_nat j)) < k \<longleftrightarrow> j \<le> unat (x - a) \<and> unat (x - a) < j + k"
proof
  assume "unat (x - (a + of_nat j)) < k"
  with unat_sub_add[OF this assms] show "j \<le> unat (x - a) \<and> unat (x - a) < j + k" by simp
next
  assume *: "j \<le> unat (x - a) \<and> unat (x - a) < j + k"
  have "x - (a + of_nat j) = of_nat (unat (x - a) - j)"
    using * by (simp add: of_nat_diff)
  moreover have "unat (x - a) - j < 2 ^ 64" using * assms by linarith
  ultimately have "unat (x - (a + of_nat j)) = unat (x - a) - j"
    by (simp only: unat_of_nat) simp
  then show "unat (x - (a + of_nat j)) < k" using * by linarith
qed

lemma map_bytes_0 [simp]: "map_bytes 0 f m a = m"
  by (simp add: map_bytes_def)

lemma map_bytes_adjacent:
  assumes "j + k \<le> 2 ^ 64"
  shows "map_bytes k f (map_bytes j f m a) (a + of_nat j) = map_bytes (j + k) f m a"
  using assms by (auto simp: map_bytes_def unat_sub_less_iff fun_eq_iff)

subsection \<open>Words as sums: one bit flipped, low bits added\<close>

lemma xor_exp_eq:
  fixes x :: "'a::len word"
  assumes "n < LENGTH('a)"
  shows "x XOR 2 ^ n = (if bit x n then x - 2 ^ n else x + 2 ^ n)"
proof (cases "bit x n")
  case True
  then have "NOT x AND 2 ^ n = 0"
    by (intro bit_word_eqI) (auto simp: bit_simps)
  with True show ?thesis
    by (simp add: disjunctive_diff_eq_and_not disjunctive_and_not_eq_xor)
next
  case False
  then have "x AND 2 ^ n = 0"
    by (intro bit_word_eqI) (auto simp: bit_simps)
  with False show ?thesis by (simp add: disjunctive_add_eq_xor)
qed

lemma bit_add_low:
  fixes x :: "'a::len word"
  assumes "unat x mod 2 ^ n + i < 2 ^ n" and n: "n < LENGTH('a)"
  shows "bit (x + of_nat i) n = bit x n"
proof -
  have "i < 2 ^ n" using assms(1) by linarith
  with assms(1) have div: "(unat x + i) div 2 ^ n = unat x div 2 ^ n"
    by (simp add: div_add1_eq [of "unat x" i])
  have "unat (x + of_nat i) = (unat x + i) mod 2 ^ LENGTH('a)"
    by (simp add: unat_word_ariths mod_add_right_eq unsigned_of_nat take_bit_eq_mod)
  moreover have "bit (x + of_nat i) n \<longleftrightarrow> bit (unat (x + of_nat i)) n"
    using n by (simp add: bit_unsigned_iff)
  ultimately have "bit (x + of_nat i) n \<longleftrightarrow> bit ((unat x + i) mod 2 ^ LENGTH('a)) n"
    by simp
  also have "\<dots> \<longleftrightarrow> bit (unat x + i) n"
    using n by (simp add: bit_take_bit_iff flip: take_bit_eq_mod)
  also have "\<dots> \<longleftrightarrow> bit (unat x) n" using div by (simp add: bit_iff_odd)
  also have "\<dots> \<longleftrightarrow> bit x n" using n by (simp add: bit_unsigned_iff possible_bit_word)
  finally show ?thesis .
qed

text \<open>Small index ranges, for the constants that repeat one byte in every lane.\<close>

lemma lt2_cases: "(i::nat) < 2 \<Longrightarrow> i = 0 \<or> i = 1"
  by linarith

lemma lt4_cases: "(i::nat) < 4 \<Longrightarrow> i = 0 \<or> i = 1 \<or> i = 2 \<or> i = 3"
  by linarith

lemma lt8_cases:
  "(i::nat) < 8 \<Longrightarrow> i = 0 \<or> i = 1 \<or> i = 2 \<or> i = 3 \<or> i = 4 \<or> i = 5 \<or> i = 6 \<or> i = 7"
  by linarith

lemma lane_const16:
  "i < 2 \<Longrightarrow> lane (0x0404 :: 16 word) i = 4"
  "i < 2 \<Longrightarrow> lane (0x0202 :: 16 word) i = 2"
  "i < 2 \<Longrightarrow> lane (0x0101 :: 16 word) i = 1"
  by (drule lt2_cases, elim disjE; simp add: lane_def)+

lemma lane_const32:
  "i < 4 \<Longrightarrow> lane (0x04040404 :: 32 word) i = 4"
  "i < 4 \<Longrightarrow> lane (0x02020202 :: 32 word) i = 2"
  "i < 4 \<Longrightarrow> lane (0x01010101 :: 32 word) i = 1"
  by (drule lt4_cases, elim disjE; simp add: lane_def)+

lemma lane_const64:
  "i < 8 \<Longrightarrow> lane (0x0404040404040404 :: 64 word) i = 4"
  "i < 8 \<Longrightarrow> lane (0x0202020202020202 :: 64 word) i = 2"
  "i < 8 \<Longrightarrow> lane (0x0101010101010101 :: 64 word) i = 1"
  "i < 8 \<Longrightarrow> lane (0xfbfbfbfbfbfbfbfb :: 64 word) i = 0xfb"
  by (drule lt8_cases, elim disjE; simp add: lane_def)+

lemmas lane_const = lane_const16 lane_const32 lane_const64

end
