(* ===== verification/Layout.thy ===== *)
theory Layout
  imports Smtx_Prelude
begin

section \<open>Address layout and codes\<close>

text \<open>
  Models \<open>include/internals/constants.h\<close>: page geometry, the shadow translation, the reserved
  address ranges, the rounding macros and the codes of checks and packets. The lemmas show that the
  shadow translation is an involution that keeps page offsets and moves every reserved range out of
  the way, and that the rounding macros round to the multiple of a power of two they name.
\<close>

unbundle bit_operations_syntax

type_synonym wid = nat
type_synonym iteration = int

definition PAGE_SIZE :: nat where "PAGE_SIZE = 4 * 1024"
definition PAGE_SHIFT :: nat where "PAGE_SHIFT = 12"
definition PAGE_MASK :: addr where "PAGE_MASK = 0xFFFFFFFFFFFFF000"

definition SHADOW_MASK :: addr where "SHADOW_MASK = 0x0000200000000000"

definition get_shadow_of :: "addr \<Rightarrow> addr" where
  "get_shadow_of x = x XOR SHADOW_MASK"

definition get_original_of :: "addr \<Rightarrow> addr" where
  "get_original_of x = x XOR SHADOW_MASK"

definition VER_MALLOC_CHUNK_BEGIN :: nat where "VER_MALLOC_CHUNK_BEGIN = 0x100000000000"
definition VER_MALLOC_CHUNK_BOUND :: nat where "VER_MALLOC_CHUNK_BOUND = 0x180000000000"
definition VER_MALLOC_CHUNKSIZE :: nat where "VER_MALLOC_CHUNKSIZE = 0x1000"

definition SEPARATION_HEAP_BEGIN :: nat where "SEPARATION_HEAP_BEGIN = 0x080000000000"
definition SEPARATION_HEAP_BOUND :: nat where "SEPARATION_HEAP_BOUND = 0x100000000000"
definition SEPARATION_HEAP_CHUNKSIZE :: nat where "SEPARATION_HEAP_CHUNKSIZE = 0x1000"

definition VER_SEPARATION_HEAP_BEGIN :: nat where "VER_SEPARATION_HEAP_BEGIN = 0x180000000000"
definition VER_SEPARATION_HEAP_BOUND :: nat where "VER_SEPARATION_HEAP_BOUND = 0x200000000000"

text \<open>Codes: the check a pair of packets asks for, the kind of an ALLOC broadcast, packet types.\<close>

datatype check_code = CHECK_FREE | CHECK_REQUIRED | CHECK_RO_PAGE

datatype ptype = NORMAL | SUPER | BOI | EOI | MISSPEC | EOW | ALLOC | FREE

definition READ :: int where "READ = 0"
definition WRITE :: int where "WRITE = 1"
definition REGULAR :: int where "REGULAR = 0"
definition SEPARATION :: int where "SEPARATION = 1"

text \<open>\<open>is_write\<close> of a packet is an \<open>int16_t\<close>; a check code is passed in it as its number.\<close>

fun check_num :: "check_code \<Rightarrow> int" where
  "check_num CHECK_FREE = 0"
| "check_num CHECK_REQUIRED = 1"
| "check_num CHECK_RO_PAGE = 2"

definition PACKET_POOL_SIZE :: nat where "PACKET_POOL_SIZE = 8192 * 2 * 4 * 8"
definition ALIGNMENT :: nat where "ALIGNMENT = 64"
definition MAX_STAGE_NUM :: nat where "MAX_STAGE_NUM = 64"
definition MAX_WORKERS :: nat where "MAX_WORKERS = 32 - 1"
definition MAIN_PROCESS_WID :: wid where "MAIN_PROCESS_WID = 2 ^ 32 - 1"
definition NOT_A_PARALLEL_STAGE :: wid where "NOT_A_PARALLEL_STAGE = 2 ^ 32 - 1"

text \<open>\<open>(Wid)iter\<close>: a signed 32-bit iteration read as an unsigned 32-bit number.\<close>

definition wid_of_iter :: "iteration \<Rightarrow> nat" where
  "wid_of_iter iter = nat (iter mod 2 ^ 32)"

definition ROUND_DOWN :: "addr \<Rightarrow> addr \<Rightarrow> addr" where
  "ROUND_DOWN n k = NOT (k - 1) AND n"

definition ROUND_UP :: "addr \<Rightarrow> addr \<Rightarrow> addr" where
  "ROUND_UP n k = ROUND_DOWN (n + (k - 1)) k"

lemmas layout_defs =
  PAGE_SIZE_def PAGE_SHIFT_def VER_MALLOC_CHUNK_BEGIN_def VER_MALLOC_CHUNK_BOUND_def
  VER_MALLOC_CHUNKSIZE_def SEPARATION_HEAP_BEGIN_def SEPARATION_HEAP_BOUND_def
  SEPARATION_HEAP_CHUNKSIZE_def VER_SEPARATION_HEAP_BEGIN_def VER_SEPARATION_HEAP_BOUND_def
  ALIGNMENT_def MAX_STAGE_NUM_def MAX_WORKERS_def

subsection \<open>The shadow translation\<close>

lemma SHADOW_MASK_exp: "SHADOW_MASK = 2 ^ 45"
  by (simp add: SHADOW_MASK_def)

lemma get_original_shadow [simp]: "get_original_of (get_shadow_of x) = x"
  by (simp add: get_original_of_def get_shadow_of_def xor.assoc)

lemma get_shadow_inj: "get_shadow_of x = get_shadow_of y \<longleftrightarrow> x = y"
  by (metis get_original_shadow)

text \<open>An access of \<open>k\<close> bytes at \<open>p\<close> does not cross a multiple of $2^{45}$.\<close>

definition no_shadow_carry :: "addr \<Rightarrow> nat \<Rightarrow> bool" where
  "no_shadow_carry p k \<longleftrightarrow> unat p mod 2 ^ 45 + k \<le> 2 ^ 45"

lemma shadow_add:
  assumes "no_shadow_carry p k" "i < k"
  shows "get_shadow_of (p + of_nat i) = get_shadow_of p + of_nat i"
proof -
  have len: "45 < LENGTH(64)" by simp
  have "bit (p + of_nat i) 45 = bit p 45"
    using assms by (intro bit_add_low) (auto simp: no_shadow_carry_def)
  then show ?thesis
    unfolding get_shadow_of_def SHADOW_MASK_exp xor_exp_eq[OF len] by simp
qed

lemma unat_sub_eqI:
  fixes x p :: addr
  assumes "x = p + of_nat i" "i < 2 ^ 64"
  shows "unat (x - p) = i"
  using assms by (simp add: unat_of_nat)

lemma eq_add_of_nat_unat: "x = p + of_nat (unat (x - p :: addr))"
  by simp

lemma eq_add_of_nat_iff:
  fixes x p :: addr
  assumes "k < 2 ^ 64"
  shows "x = p + of_nat k \<longleftrightarrow> unat (x - p) = k"
  using assms unat_sub_eqI[of x p k] eq_add_of_nat_unat[of x p] by metis

lemma shadow_in_range:
  assumes nc: "no_shadow_carry p k" and k: "k < 2 ^ 64"
  shows "unat (get_shadow_of x - get_shadow_of p) < k \<longleftrightarrow> unat (x - p) < k"
proof
  assume lt: "unat (get_shadow_of x - get_shadow_of p) < k"
  define i where "i = unat (get_shadow_of x - get_shadow_of p)"
  have "get_shadow_of x = get_shadow_of p + of_nat i"
    unfolding i_def by (rule eq_add_of_nat_unat)
  also have "\<dots> = get_shadow_of (p + of_nat i)"
    by (rule shadow_add[OF nc, symmetric]) (simp add: i_def lt)
  finally have "x = p + of_nat i" by (simp only: get_shadow_inj)
  then have "unat (x - p) = i" by (rule unat_sub_eqI) (use lt k i_def in linarith)
  with lt i_def show "unat (x - p) < k" by simp
next
  assume lt: "unat (x - p) < k"
  define i where "i = unat (x - p)"
  have "x = p + of_nat i" unfolding i_def by (rule eq_add_of_nat_unat)
  then have "get_shadow_of x = get_shadow_of p + of_nat i"
    using shadow_add[OF nc, of i] lt i_def by simp
  then have "unat (get_shadow_of x - get_shadow_of p) = i"
    by (rule unat_sub_eqI) (use lt k i_def in linarith)
  with lt i_def show "unat (get_shadow_of x - get_shadow_of p) < k" by simp
qed

lemma get_shadow_original [simp]: "get_shadow_of (get_original_of x) = x"
  by (simp add: get_original_of_def get_shadow_of_def xor.assoc)

text \<open>Bytes of a block and their metadata never share an address.\<close>

lemma shadow_apart:
  assumes nc: "no_shadow_carry p k" and i: "i < k" and k: "k \<le> 2 ^ 44"
  shows "\<not> unat (get_shadow_of (p + of_nat i) - p) < k"
proof -
  have len: "45 < LENGTH(64)" by simp
  have u: "unat (of_nat i + 2 ^ 45 :: addr) = i + 2 ^ 45"
  proof -
    have "(of_nat i + 2 ^ 45 :: addr) = of_nat (i + 2 ^ 45)" by simp
    moreover have "i + 2 ^ 45 < 2 ^ 64" using i k by simp
    ultimately show ?thesis by (simp only: unat_of_nat) simp
  qed
  have v: "unat (of_nat i - 2 ^ 45 :: addr) = 2 ^ 64 - 2 ^ 45 + i"
  proof -
    have "(of_nat i - 2 ^ 45 :: addr) = of_nat (2 ^ 64 - 2 ^ 45 + i)" by simp
    moreover have "2 ^ 64 - 2 ^ 45 + i < (2 ^ 64 :: nat)" using i k by simp
    ultimately show ?thesis by (simp only: unat_of_nat) simp
  qed
  have "get_shadow_of (p + of_nat i) - p = of_nat i - 2 ^ 45 \<or>
        get_shadow_of (p + of_nat i) - p = of_nat i + 2 ^ 45"
    unfolding shadow_add[OF nc i] get_shadow_of_def SHADOW_MASK_exp xor_exp_eq[OF len]
    by (auto simp: algebra_simps)
  then have "unat (get_shadow_of (p + of_nat i) - p) = 2 ^ 64 - 2 ^ 45 + i \<or>
             unat (get_shadow_of (p + of_nat i) - p) = i + 2 ^ 45"
    using u v by metis
  moreover have "(2 :: nat) ^ 44 < 2 ^ 45" "(2 :: nat) ^ 44 < 2 ^ 64 - 2 ^ 45" by simp_all
  ultimately show ?thesis using k by linarith
qed

lemma page_no_carry:
  assumes "unat p mod PAGE_SIZE = 0"
  shows "no_shadow_carry p PAGE_SIZE"
proof -
  have "(2 :: nat) ^ 45 = 2 ^ 33 * PAGE_SIZE" by (simp add: PAGE_SIZE_def)
  moreover from assms obtain q where q: "unat p = q * PAGE_SIZE"
    by (metis mod_0_imp_dvd dvd_mult_div_cancel mult.commute)
  ultimately have m: "unat p mod 2 ^ 45 = (q mod 2 ^ 33) * PAGE_SIZE"
    by (simp only: q mult_mod_left)
  have "q mod 2 ^ 33 + 1 \<le> (2 :: nat) ^ 33" by (simp add: Suc_leI)
  then have "(q mod 2 ^ 33 + 1) * PAGE_SIZE \<le> 2 ^ 33 * PAGE_SIZE" by (rule mult_le_mono1)
  then show ?thesis unfolding no_shadow_carry_def m by (simp add: PAGE_SIZE_def)
qed

subsection \<open>Rounding\<close>

lemma NOT_exp_minus_1_and:
  fixes n :: "'a::len word"
  assumes "j < LENGTH('a)"
  shows "NOT (2 ^ j - 1) AND n = push_bit j (drop_bit j n)"
proof -
  have "2 ^ j - 1 = (mask j :: 'a word)" by (simp add: mask_eq_exp_minus_1)
  then show ?thesis by (intro bit_word_eqI) (auto simp: bit_simps)
qed

lemma unat_round_down:
  assumes "j < 64"
  shows "unat (ROUND_DOWN n (2 ^ j)) = unat n div 2 ^ j * 2 ^ j"
proof -
  have "unat (ROUND_DOWN n (2 ^ j)) = unat (push_bit j (drop_bit j n))"
    using assms by (simp add: ROUND_DOWN_def NOT_exp_minus_1_and)
  also have "\<dots> = (unat n div 2 ^ j * 2 ^ j) mod 2 ^ 64"
    unfolding unsigned_push_bit_eq unat_drop_bit_eq
    by (simp add: take_bit_eq_mod push_bit_eq_mult drop_bit_eq_div)
  also have "\<dots> = unat n div 2 ^ j * 2 ^ j"
  proof -
    have "unat n div 2 ^ j * 2 ^ j \<le> unat n" by simp
    also have "unat n < 2 ^ 64" using unsigned_less[of n, where 'a = nat] by simp
    finally show ?thesis by simp
  qed
  finally show ?thesis .
qed

lemma unat_round_up:
  assumes "j < 64" and no: "unat n + (2 ^ j - 1) < 2 ^ 64"
  shows "unat (ROUND_UP n (2 ^ j)) = (unat n + (2 ^ j - 1)) div 2 ^ j * 2 ^ j"
proof -
  have one: "unat (2 ^ j - 1 :: addr) = 2 ^ j - 1"
  proof -
    have "(2 ^ j :: nat) < 2 ^ 64" using assms(1) by (rule power_strict_increasing) simp
    then have "(2 ^ j :: nat) - 1 < 2 ^ 64" by linarith
    moreover have "(2 ^ j - 1 :: addr) = of_nat (2 ^ j - 1)" by (simp add: of_nat_diff)
    ultimately show ?thesis by (simp only: unat_of_nat) simp
  qed
  have "unat (n + (2 ^ j - 1)) = unat n + (2 ^ j - 1)"
    using no by (simp add: unat_word_ariths one)
  then show ?thesis
    using assms(1) by (simp add: ROUND_UP_def unat_round_down)
qed

end
