(* ===== verification/Memops.thy ===== *)
theory Memops
  imports Layout
begin

unbundle bit_operations_syntax

section \<open>Access tracking: the metadata byte of every program byte\<close>

text \<open>
  Models \<open>smtx/memops.cpp\<close>. Every program byte has a metadata byte at its shadow address, whose
  bit 2 records a load, bit 1 a store and bit 0 a load that happened before the first store. The
  compiler inserts a call of \<open>ver_readN\<close> or \<open>ver_writeN\<close> before each access of \<open>N\<close> bytes. The wide
  variants update 2, 4 or 8 metadata bytes with one word operation; the lemmas show that they act
  on each byte as \<open>mark_read\<close> and \<open>mark_write\<close> do, and that a run of tracked accesses leaves in
  every metadata byte exactly the three facts its bits stand for.

  The blocks under \<open>#if !HANDLE_STACK\<close>, \<open>#if MEMDBG\<close> and \<open>#if PROFILE_MEMOPS\<close> are compiled out by
  the settings of \<open>constants.h\<close>. \<open>ver_read\<close> starts with a \<open>return\<close>, so its body is dead code.
\<close>

subsection \<open>The tracking calls\<close>

definition ver_read1 :: "addr \<Rightarrow> mem \<Rightarrow> mem" where
  "ver_read1 ptr m =
     (let shadow = get_shadow_of ptr;
          access = m shadow
      in m(shadow := access OR 0x04))"

definition ver_read2 :: "addr \<Rightarrow> mem \<Rightarrow> mem" where
  "ver_read2 ptr m =
     (let shadow = get_shadow_of ptr;
          access = load_le 2 m shadow :: 16 word
      in store_le 2 m shadow (access OR 0x0404))"

definition ver_read4 :: "addr \<Rightarrow> mem \<Rightarrow> mem" where
  "ver_read4 ptr m =
     (let shadow = get_shadow_of ptr;
          access = load_le 4 m shadow :: 32 word
      in store_le 4 m shadow (access OR 0x04040404))"

definition ver_read8 :: "addr \<Rightarrow> mem \<Rightarrow> mem" where
  "ver_read8 ptr m =
     (let shadow = get_shadow_of ptr;
          access = load_le 8 m shadow :: 64 word
      in store_le 8 m shadow (access OR 0x0404040404040404))"

definition ver_read :: "addr \<Rightarrow> 32 word \<Rightarrow> mem \<Rightarrow> mem" where
  "ver_read ptr sz m = m"

definition ver_write1 :: "addr \<Rightarrow> mem \<Rightarrow> mem" where
  "ver_write1 ptr m =
     (let shadow = get_shadow_of ptr;
          access = m shadow
      in if access AND 0x02 = 0x02 then m
         else let mask1 = drop_bit 2 access;
                  mask2 = NOT (drop_bit 1 access);
                  mask = mask1 AND mask2 AND 0x01
              in m(shadow := access OR 0x02 OR mask))"

definition ver_write2 :: "addr \<Rightarrow> mem \<Rightarrow> mem" where
  "ver_write2 ptr m =
     (let shadow = get_shadow_of ptr;
          access = load_le 2 m shadow :: 16 word
      in if access AND 0x0202 = 0x0202 then m
         else let mask1 = drop_bit 2 access;
                  mask2 = NOT (drop_bit 1 access);
                  mask = mask1 AND mask2 AND 0x0101
              in store_le 2 m shadow (access OR 0x0202 OR mask))"

definition ver_write4 :: "addr \<Rightarrow> mem \<Rightarrow> mem" where
  "ver_write4 ptr m =
     (let shadow = get_shadow_of ptr;
          access = load_le 4 m shadow :: 32 word
      in if access AND 0x02020202 = 0x02020202 then m
         else let mask1 = drop_bit 2 access;
                  mask2 = NOT (drop_bit 1 access);
                  mask = mask1 AND mask2 AND 0x01010101
              in store_le 4 m shadow (access OR 0x02020202 OR mask))"

definition ver_write8 :: "addr \<Rightarrow> mem \<Rightarrow> mem" where
  "ver_write8 ptr m =
     (let shadow = get_shadow_of ptr;
          access = load_le 8 m shadow :: 64 word
      in if access AND 0x0202020202020202 = 0x0202020202020202 then m
         else let mask1 = drop_bit 2 access;
                  mask2 = NOT (drop_bit 1 access);
                  mask = mask1 AND mask2 AND 0x0101010101010101
              in store_le 8 m shadow (access OR 0x0202020202020202 OR mask))"

text \<open>
  The two loops of \<open>ver_write\<close>. The index is an \<open>unsigned\<close> below the size, so it does not wrap and
  a natural number is faithful.
\<close>

function ver_write_words :: "addr \<Rightarrow> nat \<Rightarrow> nat \<Rightarrow> mem \<Rightarrow> mem" where
  "ver_write_words ptr i z m =
     (if i < z then ver_write_words ptr (i + 8) z (ver_write8 (ptr + of_nat i) m) else m)"
  by pat_completeness auto
termination
  by (relation "measure (\<lambda>(ptr, i, z, m). z - i)") auto

function ver_write_bytes :: "addr \<Rightarrow> nat \<Rightarrow> nat \<Rightarrow> mem \<Rightarrow> mem" where
  "ver_write_bytes ptr i z m =
     (if i < z then ver_write_bytes ptr (i + 1) z (ver_write1 (ptr + of_nat i) m) else m)"
  by pat_completeness auto
termination
  by (relation "measure (\<lambda>(ptr, i, z, m). z - i)") auto

declare ver_write_words.simps [simp del] ver_write_bytes.simps [simp del]

definition ver_write :: "addr \<Rightarrow> 32 word \<Rightarrow> mem \<Rightarrow> mem" where
  "ver_write ptr sz m =
     (let rem = sz AND 0x7
      in ver_write_bytes ptr (unat (sz - rem)) (unat sz)
           (ver_write_words ptr 0 (unat (sz - rem)) m))"

definition ver_memmove :: "addr \<Rightarrow> 32 word \<Rightarrow> addr \<Rightarrow> mem \<Rightarrow> mem" where
  "ver_memmove write_ptr sz read_ptr m = ver_write write_ptr sz (ver_read read_ptr sz m)"

subsection \<open>What a call does to one metadata byte\<close>

definition mark_read :: "byte \<Rightarrow> byte" where
  "mark_read b = b OR 0x04"

definition mark_write :: "byte \<Rightarrow> byte" where
  "mark_write b = b OR 0x02 OR (drop_bit 2 b AND NOT (drop_bit 1 b) AND 0x01)"

lemma and_2_eq_2_iff: "(b :: byte) AND 2 = 2 \<longleftrightarrow> bit b 1"
proof
  assume "b AND 2 = 2"
  from arg_cong [OF this, of "\<lambda>w. bit w 1"] show "bit b 1" by (simp add: bit_simps bit_2_iff)
next
  assume "bit b 1"
  then show "b AND 2 = 2" by (intro bit_word_eqI) (auto simp: bit_simps bit_2_iff)
qed

lemma bit_numeral_4: "bit (4 :: byte) n \<longleftrightarrow> n = 2"
  using bit_exp_iff [of 2 n, where 'a = "8 word"] by auto

lemma bit_mark_read: "bit (mark_read b) n \<longleftrightarrow> n = 2 \<or> bit b n"
  unfolding mark_read_def bit_or_iff bit_numeral_4 by auto

lemma bit_mark_write:
  "bit (mark_write b) n \<longleftrightarrow> n = 1 \<or> bit b n \<or> n = 0 \<and> bit b 2 \<and> \<not> bit b 1"
  by (auto simp: mark_write_def bit_simps bit_1_iff bit_2_iff numeral_2_eq_2)

lemma mark_write_written: "b AND 2 = 2 \<Longrightarrow> mark_write b = b"
  by (rule bit_word_eqI) (auto simp: bit_mark_write and_2_eq_2_iff)

lemma lane_rbw:
  assumes "8 * i < LENGTH('a::len)"
  shows "lane (drop_bit 2 w AND NOT (drop_bit 1 w) AND M) i AND 1 =
         drop_bit 2 (lane w i) AND NOT (drop_bit 1 (lane (w :: 'a word) i)) AND lane M i AND 1"
  by (rule bit_word_eqI) (use assms in \<open>auto simp: bit_simps bit_1_iff bit_lane\<close>)

lemma lane_mark_write:
  fixes w M2 M1 :: "'a::len word"
  assumes i: "8 * i < LENGTH('a)" and M: "lane M2 i = 2" "lane M1 i = 1"
  shows "lane (w OR M2 OR (drop_bit 2 w AND NOT (drop_bit 1 w) AND M1)) i = mark_write (lane w i)"
proof -
  have "lane (drop_bit 2 w AND NOT (drop_bit 1 w) AND M1) i =
        drop_bit 2 (lane w i) AND NOT (drop_bit 1 (lane w i)) AND 1"
    using lane_rbw [OF i, of w M1] M by (simp add: lane_and and.assoc)
  with M show ?thesis by (simp add: lane_or mark_write_def)
qed

lemma wide_read:
  fixes M4 :: "'a::len word"
  assumes k: "8 * k \<le> LENGTH('a)" "k < 2 ^ 64" and M4: "\<And>i. i < k \<Longrightarrow> lane M4 i = 4"
  shows "store_le k m a (load_le k m a OR M4) = map_bytes k mark_read m a"
  by (rule rmw_lanewise [where F = "\<lambda>w. w OR M4"]) (use k M4 in \<open>auto simp: lane_or mark_read_def\<close>)

lemma wide_write:
  fixes M2 M1 :: "'a::len word"
  assumes k: "8 * k \<le> LENGTH('a)" "k < 2 ^ 64"
    and M: "\<And>i. i < k \<Longrightarrow> lane M2 i = 2" "\<And>i. i < k \<Longrightarrow> lane M1 i = 1"
  shows "(if load_le k m a AND M2 = M2 then m
          else store_le k m a (load_le k m a OR M2 OR
                 (drop_bit 2 (load_le k m a) AND NOT (drop_bit 1 (load_le k m a)) AND M1)))
         = map_bytes k mark_write m a"
proof (cases "load_le k m a AND M2 = M2")
  case True
  have "mark_write (m x) = m x" if x: "unat (x - a) < k" for x
  proof -
    have "lane (load_le k m a AND M2) (unat (x - a)) = 2" using True M x by simp
    then have "m x AND 2 = 2" using M x k by (simp add: lane_and lane_load_le)
    then show ?thesis by (rule mark_write_written)
  qed
  then show ?thesis using True by (auto simp: map_bytes_def)
next
  case False
  have "store_le k m a (load_le k m a OR M2 OR
                 (drop_bit 2 (load_le k m a) AND NOT (drop_bit 1 (load_le k m a)) AND M1))
         = map_bytes k mark_write m a"
  proof (rule rmw_lanewise [where F = "\<lambda>w. w OR M2 OR (drop_bit 2 w AND NOT (drop_bit 1 w) AND M1)"])
    fix w :: "'a word" and i assume "i < k"
    then show "lane (w OR M2 OR (drop_bit 2 w AND NOT (drop_bit 1 w) AND M1)) i = mark_write (lane w i)"
      using k M by (intro lane_mark_write) auto
  qed (use k in auto)
  then show ?thesis using False by simp
qed

lemma map_bytes_1: "map_bytes (Suc 0) f m a = m(a := f (m a))"
  by (auto simp: map_bytes_def fun_eq_iff unat_eq_zero)

lemma ver_read_bytewise:
  "ver_read1 p m = map_bytes 1 mark_read m (get_shadow_of p)"
  "ver_read2 p m = map_bytes 2 mark_read m (get_shadow_of p)"
  "ver_read4 p m = map_bytes 4 mark_read m (get_shadow_of p)"
  "ver_read8 p m = map_bytes 8 mark_read m (get_shadow_of p)"
  by (simp_all add: ver_read1_def ver_read2_def ver_read4_def ver_read8_def Let_def wide_read
      lane_const map_bytes_1 mark_read_def)

lemma ver_write_bytewise:
  "ver_write1 p m = map_bytes 1 mark_write m (get_shadow_of p)"
  "ver_write2 p m = map_bytes 2 mark_write m (get_shadow_of p)"
  "ver_write4 p m = map_bytes 4 mark_write m (get_shadow_of p)"
  "ver_write8 p m = map_bytes 8 mark_write m (get_shadow_of p)"
proof -
  show "ver_write1 p m = map_bytes 1 mark_write m (get_shadow_of p)"
    by (simp add: ver_write1_def Let_def map_bytes_1 mark_write_written) (simp add: mark_write_def)
  show "ver_write2 p m = map_bytes 2 mark_write m (get_shadow_of p)"
    unfolding ver_write2_def Let_def by (rule wide_write) (simp_all add: lane_const)
  show "ver_write4 p m = map_bytes 4 mark_write m (get_shadow_of p)"
    unfolding ver_write4_def Let_def by (rule wide_write) (simp_all add: lane_const)
  show "ver_write8 p m = map_bytes 8 mark_write m (get_shadow_of p)"
    unfolding ver_write8_def Let_def by (rule wide_write) (simp_all add: lane_const)
qed

subsection \<open>Writing a block\<close>

text \<open>
  The loops of \<open>ver_write\<close> mark a run of bytes; each iteration recomputes the shadow address, which
  is the next one as long as the block does not cross a multiple of $2^{45}$.
\<close>

lemma no_shadow_carry_mono: "no_shadow_carry p k \<Longrightarrow> j \<le> k \<Longrightarrow> no_shadow_carry p j"
  by (simp add: no_shadow_carry_def)

lemma no_shadow_carry_bound: "no_shadow_carry p k \<Longrightarrow> k \<le> 2 ^ 45"
  unfolding no_shadow_carry_def by linarith

lemma mark_next:
  assumes "no_shadow_carry p k" "i + j \<le> k" "0 < j"
  shows "map_bytes j f (map_bytes i f m (get_shadow_of p)) (get_shadow_of (p + of_nat i)) =
         map_bytes (i + j) f m (get_shadow_of p)"
proof -
  have "i + j \<le> 2 ^ 64" using no_shadow_carry_bound[OF assms(1)] assms(2) by simp
  then show ?thesis
    using shadow_add[OF assms(1), of i] assms(2,3) by (simp add: map_bytes_adjacent)
qed

lemma ver_write_words_mark:
  assumes "no_shadow_carry p (8 * w)" "i \<le> w"
  shows "ver_write_words p (8 * i) (8 * w) (map_bytes (8 * i) mark_write m (get_shadow_of p)) =
         map_bytes (8 * w) mark_write m (get_shadow_of p)"
  using assms
proof (induction "w - i" arbitrary: i)
  case 0
  then show ?case by (simp add: ver_write_words.simps)
next
  case (Suc d)
  then have i: "i < w" and d: "d = w - Suc i" by auto
  have "ver_write_words p (8 * i) (8 * w) (map_bytes (8 * i) mark_write m (get_shadow_of p)) =
        ver_write_words p (8 * Suc i) (8 * w) (map_bytes (8 * Suc i) mark_write m (get_shadow_of p))"
    using mark_next[OF Suc.prems(1), of "8 * i" 8 mark_write m] i
    by (subst ver_write_words.simps) (simp add: ver_write_bytewise ac_simps)
  with Suc.hyps(1)[OF d Suc.prems(1)] i show ?case by simp
qed

lemma ver_write_bytes_mark:
  assumes "no_shadow_carry p z" "i \<le> z"
  shows "ver_write_bytes p i z (map_bytes i mark_write m (get_shadow_of p)) =
         map_bytes z mark_write m (get_shadow_of p)"
  using assms
proof (induction "z - i" arbitrary: i)
  case 0
  then show ?case by (simp add: ver_write_bytes.simps)
next
  case (Suc d)
  then have i: "i < z" and d: "d = z - Suc i" by auto
  have "ver_write_bytes p i z (map_bytes i mark_write m (get_shadow_of p)) =
        ver_write_bytes p (Suc i) z (map_bytes (Suc i) mark_write m (get_shadow_of p))"
    using mark_next[OF Suc.prems(1), of i 1 mark_write m] i
    by (subst ver_write_bytes.simps) (simp add: ver_write_bytewise)
  with Suc.hyps(1)[OF d Suc.prems(1)] i show ?case by simp
qed

lemma unat_and_7: "unat (sz AND 7 :: 32 word) = unat sz mod 8"
proof -
  have "(7 :: 32 word) = mask 3" by (simp add: mask_eq_exp_minus_1)
  then have "unat (sz AND 7) = unat (take_bit 3 sz)" by (simp only: take_bit_eq_mask)
  then show ?thesis unfolding unsigned_take_bit_eq by (simp add: take_bit_eq_mod)
qed

lemma ver_write_mark:
  assumes "no_shadow_carry p (unat sz)"
  shows "ver_write p sz m = map_bytes (unat sz) mark_write m (get_shadow_of p)"
proof -
  have "sz AND 7 \<le> sz" by (simp add: word_le_nat_alt unat_and_7)
  then have z: "unat (sz - (sz AND 7)) = 8 * (unat sz div 8)"
    by (simp add: unat_sub unat_and_7 minus_mod_eq_mult_div)
  have le: "8 * (unat sz div 8) \<le> unat sz" by simp
  show ?thesis
    using ver_write_words_mark[OF no_shadow_carry_mono[OF assms le], of 0 m]
      ver_write_bytes_mark[OF assms le, of m]
    by (simp add: ver_write_def Let_def z)
qed

lemma ver_write_marks_block_aux:
  assumes "no_shadow_carry w (unat sz)" "\<not> unat (x - w) < unat sz"
  shows "ver_write w sz m (get_shadow_of x) = m (get_shadow_of x)"
proof -
  have "unat sz < 2 ^ 64" using unsigned_less[of sz, where 'a = nat] by simp
  then show ?thesis
    using shadow_in_range[OF assms(1), of x] assms(2)
    by (simp add: ver_write_mark[OF assms(1)] map_bytes_apply)
qed

subsection \<open>A run of tracked accesses\<close>

datatype access = Load | Store

text \<open>A tracked access: its kind, its width in bytes and its address; the call the compiler inserts.\<close>

datatype width = W1 | W2 | W4 | W8

fun bytes_of :: "width \<Rightarrow> nat" where
  "bytes_of W1 = 1"
| "bytes_of W2 = 2"
| "bytes_of W4 = 4"
| "bytes_of W8 = 8"

fun track :: "access \<times> width \<times> addr \<Rightarrow> mem \<Rightarrow> mem" where
  "track (Load, W1, p) = ver_read1 p"
| "track (Load, W2, p) = ver_read2 p"
| "track (Load, W4, p) = ver_read4 p"
| "track (Load, W8, p) = ver_read8 p"
| "track (Store, W1, p) = ver_write1 p"
| "track (Store, W2, p) = ver_write2 p"
| "track (Store, W4, p) = ver_write4 p"
| "track (Store, W8, p) = ver_write8 p"

fun mark :: "access \<Rightarrow> byte \<Rightarrow> byte" where
  "mark Load = mark_read"
| "mark Store = mark_write"

fun aligned_access :: "access \<times> width \<times> addr \<Rightarrow> bool" where
  "aligned_access (k, w, p) = no_shadow_carry p (bytes_of w)"

fun touches :: "addr \<Rightarrow> access \<times> width \<times> addr \<Rightarrow> bool" where
  "touches x (k, w, p) = (unat (x - p) < bytes_of w)"

text \<open>The kinds of the accesses of a run that touch byte \<open>x\<close>, in order.\<close>

definition history :: "addr \<Rightarrow> (access \<times> width \<times> addr) list \<Rightarrow> access list" where
  "history x ops = map fst (filter (touches x) ops)"

lemma track_bytewise: "track (k, w, p) m = map_bytes (bytes_of w) (mark k) m (get_shadow_of p)"
  by (cases k; cases w) (simp_all add: ver_read_bytewise ver_write_bytewise)

lemma track_at:
  assumes "aligned_access (k, w, p)"
  shows "track (k, w, p) m (get_shadow_of x) =
         (if touches x (k, w, p) then mark k (m (get_shadow_of x)) else m (get_shadow_of x))"
proof -
  have "bytes_of w < 2 ^ 64" by (cases w) auto
  then show ?thesis
    using assms by (simp add: track_bytewise map_bytes_apply shadow_in_range)
qed

lemma fold_track_at:
  assumes "\<forall>op \<in> set ops. aligned_access op"
  shows "fold track ops m (get_shadow_of x) = fold mark (history x ops) (m (get_shadow_of x))"
  using assms
proof (induction ops arbitrary: m)
  case Nil
  then show ?case by (simp add: history_def)
next
  case (Cons op ops)
  obtain k w p where op: "op = (k, w, p)" by (cases op) auto
  with Cons show ?case by (auto simp: history_def track_at)
qed

definition loaded_before_store :: "access list \<Rightarrow> bool" where
  "loaded_before_store h \<longleftrightarrow> Store \<in> set h \<and> Load \<in> set (takeWhile (\<lambda>a. a \<noteq> Store) h)"

lemma loaded_before_store_snoc:
  "loaded_before_store (h @ [a]) \<longleftrightarrow>
     loaded_before_store h \<or> a = Store \<and> Store \<notin> set h \<and> Load \<in> set h"
  by (cases "Store \<in> set h"; cases a)
     (auto simp: loaded_before_store_def takeWhile_append takeWhile_eq_all_conv [THEN iffD2]
       dest: set_takeWhileD)

lemma fold_mark_bits:
  "bit (fold mark h 0) 2 \<longleftrightarrow> Load \<in> set h"
  "bit (fold mark h 0) 1 \<longleftrightarrow> Store \<in> set h"
  "bit (fold mark h 0) 0 \<longleftrightarrow> loaded_before_store h"
  "2 < n \<Longrightarrow> \<not> bit (fold mark h 0) n"
proof (induction h rule: rev_induct)
  case Nil
  case 1 show ?case by simp
  case 2 show ?case by simp
  case 3 show ?case by (simp add: loaded_before_store_def)
  case 4 then show ?case by simp
next
  case (snoc a h)
  case 1 show ?case using snoc by (cases a) (auto simp: bit_mark_read bit_mark_write)
  case 2 show ?case using snoc by (cases a) (auto simp: bit_mark_read bit_mark_write)
  case 3 show ?case using snoc
    by (cases a) (auto simp: bit_mark_read bit_mark_write loaded_before_store_snoc)
  case 4 then show ?case using snoc by (cases a) (auto simp: bit_mark_read bit_mark_write)
qed

subsection \<open>Properties\<close>

text \<open>C4. After any run of tracked loads and stores that starts with clean metadata, the metadata byte of
  every program byte says exactly which of the three facts hold of the accesses to that byte: bit 2
  that it was loaded, bit 1 that it was stored, bit 0 that a load came before the first store; no
  other bit is set. No access of the run may straddle a multiple of $2^{45}$.\<close>

theorem metadata_records_history:
  assumes "\<forall>op \<in> set ops. aligned_access op" and "m (get_shadow_of x) = 0"
  shows "let b = fold track ops m (get_shadow_of x); h = history x ops in
           (bit b 2 \<longleftrightarrow> Load \<in> set h) \<and>
           (bit b 1 \<longleftrightarrow> Store \<in> set h) \<and>
           (bit b 0 \<longleftrightarrow> loaded_before_store h) \<and>
           (\<forall>n. bit b n \<longrightarrow> n < 3)"
proof -
  have "fold track ops m (get_shadow_of x) = fold mark (history x ops) 0"
    using fold_track_at[OF assms(1)] assms(2) by simp
  moreover have "\<forall>n. bit (fold mark (history x ops) 0) n \<longrightarrow> n < 3"
  proof (intro allI impI)
    fix n assume "bit (fold mark (history x ops) 0) n"
    then have "\<not> 2 < n" using fold_mark_bits(4)[of n] by blast
    then show "n < 3" by linarith
  qed
  ultimately show ?thesis by (simp only: Let_def fold_mark_bits simp_thms)
qed

theorem metadata_records_history_witness:
  "bit (fold track [(Load, W4, 0x1000), (Store, W8, 0x0ffd)] (\<lambda>_. 0) (get_shadow_of 0x1001)) 0"
proof -
  have "history 0x1001 [(Load, W4, 0x1000), (Store, W8, 0x0ffd)] = [Load, Store]"
    by (simp add: history_def)
  then show ?thesis
    using metadata_records_history[of "[(Load, W4, 0x1000), (Store, W8, 0x0ffd)]" "\<lambda>_. 0" "0x1001"]
    by (simp add: no_shadow_carry_def Let_def loaded_before_store_def)
qed

text \<open>C11. Tracking a store of a whole block, with 8-byte steps and a byte-wise tail, marks every byte of
  the block as a single-byte store would, and no other byte of the address space changes.\<close>

theorem ver_write_marks_block:
  assumes "no_shadow_carry p (unat sz)"
  shows "ver_write p sz m x =
           (if unat (get_original_of x - p) < unat sz then mark_write (m x) else m x)"
proof -
  have "unat sz < 2 ^ 64" using unsigned_less[of sz, where 'a = nat] by simp
  then show ?thesis
    using shadow_in_range[OF assms, of "get_original_of x"]
    by (simp add: ver_write_mark[OF assms] map_bytes_apply)
qed

theorem ver_write_marks_block_witness:
  "ver_write 0x1003 13 (\<lambda>_. 4) (get_shadow_of 0x100f) = 7 \<and>
   ver_write 0x1003 13 (\<lambda>_. 4) (get_shadow_of 0x1010) = 4"
proof -
  have "no_shadow_carry 0x1003 (unat (13 :: 32 word))" by (simp add: no_shadow_carry_def)
  note w = ver_write_marks_block[OF this, of "\<lambda>_. 4"]
  show ?thesis unfolding w by (simp add: mark_write_def)
qed

text \<open>\<open>ver_memmove\<close> records the stores of a block copy and none of its loads: whatever the source
  block is, the metadata after the call is that of the store of the destination block alone. (The
  body of \<open>ver_read\<close> is unreachable, so a copied value is not validated.)\<close>

theorem memmove_source_untracked:
  "ver_memmove w sz r m = ver_write w sz m \<and>
   (no_shadow_carry w (unat sz) \<and> unat (x - w) \<ge> unat sz \<longrightarrow>
      ver_memmove w sz r m (get_shadow_of x) = m (get_shadow_of x))"
  using ver_write_marks_block_aux[of w sz x] by (simp add: ver_memmove_def ver_read_def)

theorem memmove_source_untracked_witness:
  "ver_memmove 0x2000 8 0x1000 (\<lambda>_. 0) (get_shadow_of 0x1000) = 0"
  using memmove_source_untracked[of "0x2000" 8 "0x1000" "\<lambda>_. 0" "0x1000"] by (auto simp: no_shadow_carry_def)

end
