(* ===== verification/Sw_Queue.thy ===== *)
theory Sw_Queue
  imports Smtx_Prelude
begin

section \<open>The software queue: a single-producer single-consumer ring\<close>

text \<open>
  Models \<open>sw_queue/sw_queue.cpp\<close>. A queue is an array of \<open>QUEUE_SIZE\<close> pointers used as pairs
  (flag, value); \<open>head\<close> and \<open>tail\<close> are pointers into the array, indices here. \<open>produce\<close> waits until
  the flag at \<open>head\<close> is free, \<open>consume\<close> until the flag at \<open>tail\<close> is occupied; seen from one process
  with nobody else running such a wait never ends, which is the fault \<open>Spin\<close>.

  The locale \<open>bounded_fifo\<close> is the contract the clients rely on (a first-in first-out queue of
  \<open>QUEUE_SIZE / 2\<close> values) and the interpretation \<open>swq\<close> shows that the ring meets it. The theory
  \<open>Sw_Queue_Conc\<close> treats the two ends running concurrently.
\<close>

definition QUEUE_SIZE :: nat where "QUEUE_SIZE = 8192 * 2"

definition SW_QUEUE_OCCUPIED :: "64 word" where "SW_QUEUE_OCCUPIED = 1"
definition SW_QUEUE_NULL :: "64 word" where "SW_QUEUE_NULL = 0"

record sw_queue =
  head :: nat
  tail :: nat
  finished :: int
  data :: "64 word list"

definition sw_queue_reset :: "sw_queue \<Rightarrow> sw_queue" where
  "sw_queue_reset q =
     q\<lparr>head := 0, tail := 0, finished := 0, data := replicate QUEUE_SIZE SW_QUEUE_NULL\<rparr>"

text \<open>\<open>mmap\<close> returns zeroed memory; \<open>create\<close> resets it.\<close>

definition sw_queue_create :: sw_queue where
  "sw_queue_create =
     sw_queue_reset \<lparr>head = 0, tail = 0, finished = 0, data = replicate QUEUE_SIZE 0\<rparr>"

definition advance :: "nat \<Rightarrow> nat" where
  "advance i = (if i + 2 \<ge> QUEUE_SIZE then 0 else i + 2)"

definition sw_queue_produce :: "sw_queue \<Rightarrow> 64 word \<Rightarrow> sw_queue res" where
  "sw_queue_produce q v =
     (if data q ! head q \<noteq> SW_QUEUE_NULL then Inl Spin
      else let d = (data q)[head q + 1 := v];
               d' = d[head q := SW_QUEUE_OCCUPIED]
           in Inr (q\<lparr>data := d', head := advance (head q)\<rparr>))"

definition sw_queue_consume :: "sw_queue \<Rightarrow> (64 word \<times> sw_queue) res" where
  "sw_queue_consume q =
     (if data q ! tail q = SW_QUEUE_NULL then Inl Spin
      else let v = data q ! (tail q + 1);
               d = (data q)[tail q + 1 := SW_QUEUE_NULL];
               d' = d[tail q := d ! (tail q + 1)]
           in Inr (v, q\<lparr>data := d', tail := advance (tail q)\<rparr>))"

definition sw_queue_flush :: "sw_queue \<Rightarrow> sw_queue" where
  "sw_queue_flush q = q"

text \<open>\<open>clear\<close> frees occupied slots from the tail on; every round clears one non-null cell.\<close>

function sw_queue_clear :: "sw_queue \<Rightarrow> sw_queue" where
  "sw_queue_clear q =
     (if tail q < length (data q) \<and> data q ! tail q \<noteq> SW_QUEUE_NULL
      then sw_queue_clear (q\<lparr>data := (data q)[tail q := SW_QUEUE_NULL], tail := advance (tail q)\<rparr>)
      else q)"
  by pat_completeness auto
termination
proof (relation "measure (\<lambda>q. length (filter (\<lambda>x. x \<noteq> SW_QUEUE_NULL) (data q)))")
  fix q :: sw_queue
  assume *: "tail q < length (data q) \<and> data q ! tail q \<noteq> SW_QUEUE_NULL"
  have split: "data q = take (tail q) (data q) @ data q ! tail q # drop (Suc (tail q)) (data q)"
    using * by (simp add: id_take_nth_drop)
  have "(data q)[tail q := SW_QUEUE_NULL] =
        take (tail q) (data q) @ SW_QUEUE_NULL # drop (Suc (tail q)) (data q)"
    using * by (simp add: upd_conv_take_nth_drop)
  moreover have "length (filter (\<lambda>x. x \<noteq> SW_QUEUE_NULL) (data q)) =
      Suc (length (filter (\<lambda>x. x \<noteq> SW_QUEUE_NULL)
        (take (tail q) (data q) @ SW_QUEUE_NULL # drop (Suc (tail q)) (data q))))"
    by (subst split) (use * in simp)
  ultimately show "(q\<lparr>data := (data q)[tail q := SW_QUEUE_NULL], tail := advance (tail q)\<rparr>, q)
      \<in> measure (\<lambda>q. length (filter (\<lambda>x. x \<noteq> SW_QUEUE_NULL) (data q)))"
    by simp
qed simp

declare sw_queue_clear.simps [simp del]

definition sw_queue_empty :: "sw_queue \<Rightarrow> bool" where
  "sw_queue_empty q \<longleftrightarrow> data q ! tail q = SW_QUEUE_NULL"

subsection \<open>The contract of a bounded queue\<close>

locale bounded_fifo =
  fixes repr :: "'q \<Rightarrow> 'v list \<Rightarrow> bool"
    and cap :: nat
    and create :: 'q
    and produce :: "'q \<Rightarrow> 'v \<Rightarrow> 'q res"
    and consume :: "'q \<Rightarrow> ('v \<times> 'q) res"
    and is_empty :: "'q \<Rightarrow> bool"
    and clear :: "'q \<Rightarrow> 'q"
  assumes create_repr: "repr create []"
    and repr_fun: "repr q xs \<Longrightarrow> repr q ys \<Longrightarrow> xs = ys"
    and repr_cap: "repr q xs \<Longrightarrow> length xs \<le> cap"
    and produce_room: "repr q xs \<Longrightarrow> length xs < cap \<Longrightarrow> \<exists>q'. produce q v = Inr q' \<and> repr q' (xs @ [v])"
    and produce_full: "repr q xs \<Longrightarrow> length xs = cap \<Longrightarrow> produce q v = Inl Spin"
    and consume_some: "repr q (x # xs) \<Longrightarrow> \<exists>q'. consume q = Inr (x, q') \<and> repr q' xs"
    and consume_none: "repr q [] \<Longrightarrow> consume q = Inl Spin"
    and is_empty_repr: "repr q xs \<Longrightarrow> is_empty q \<longleftrightarrow> xs = []"
    and clear_repr: "repr q xs \<Longrightarrow> repr (clear q) []"
begin

lemma produce_cases:
  assumes "repr q xs" "produce q v = Inr q'"
  shows "length xs < cap \<and> repr q' (xs @ [v])"
proof -
  have "length xs \<noteq> cap" using produce_full[OF assms(1)] assms(2) by auto
  with repr_cap[OF assms(1)] have lt: "length xs < cap" by simp
  with produce_room[OF assms(1) lt, of v] assms(2) show ?thesis by auto
qed

lemma consume_cases:
  assumes "repr q xs" "consume q = Inr (v, q')"
  shows "\<exists>ys. xs = v # ys \<and> repr q' ys"
proof (cases xs)
  case Nil
  then show ?thesis using consume_none assms by auto
next
  case (Cons x ys)
  then show ?thesis using consume_some[of q x ys] assms by auto
qed

fun produce_all :: "'q \<Rightarrow> 'v list \<Rightarrow> 'q res" where
  "produce_all q [] = Inr q"
| "produce_all q (v # vs) = rbind (produce q v) (\<lambda>q'. produce_all q' vs)"

fun consume_n :: "nat \<Rightarrow> 'q \<Rightarrow> ('v list \<times> 'q) res" where
  "consume_n 0 q = Inr ([], q)"
| "consume_n (Suc n) q =
     rbind (consume q) (\<lambda>(v, q'). rbind (consume_n n q') (\<lambda>(vs, q''). Inr (v # vs, q'')))"

lemma produce_all_room:
  assumes "repr q xs" "length xs + length vs \<le> cap"
  shows "\<exists>q'. produce_all q vs = Inr q' \<and> repr q' (xs @ vs)"
  using assms
proof (induction vs arbitrary: q xs)
  case Nil
  then show ?case by simp
next
  case (Cons v vs)
  then obtain q1 where q1: "produce q v = Inr q1" "repr q1 (xs @ [v])"
    using produce_room[OF Cons.prems(1), of v] by auto
  from Cons.IH[OF q1(2)] Cons.prems(2) obtain q2 where
    "produce_all q1 vs = Inr q2" "repr q2 (xs @ v # vs)" by auto
  with q1 show ?case by simp
qed

lemma consume_n_repr:
  assumes "repr q (ys @ xs)"
  shows "\<exists>q'. consume_n (length ys) q = Inr (ys, q') \<and> repr q' xs"
  using assms
proof (induction ys arbitrary: q)
  case Nil
  then show ?case by simp
next
  case (Cons y ys)
  then obtain q1 where q1: "consume q = Inr (y, q1)" "repr q1 (ys @ xs)"
    using consume_some[of q y "ys @ xs"] by auto
  from Cons.IH[OF q1(2)] q1 show ?case by auto
qed

text \<open>What goes in comes out, in order, for every batch that fits.\<close>

lemma fifo_roundtrip:
  assumes "repr q xs" "length xs + length vs \<le> cap"
  shows "\<exists>q1 q2. produce_all q vs = Inr q1 \<and>
           consume_n (length xs + length vs) q1 = Inr (xs @ vs, q2) \<and> is_empty q2"
proof -
  from produce_all_room[OF assms] obtain q1 where
    q1: "produce_all q vs = Inr q1" "repr q1 (xs @ vs)" by auto
  from consume_n_repr[of q1 "xs @ vs" "[]"] q1(2) obtain q2 where
    "consume_n (length (xs @ vs)) q1 = Inr (xs @ vs, q2)" "repr q2 []" by auto
  with q1(1) show ?thesis using is_empty_repr by auto
qed

end

subsection \<open>The ring meets the contract\<close>

abbreviation slots :: nat where "slots \<equiv> QUEUE_SIZE div 2"

lemma QUEUE_SIZE_slots: "QUEUE_SIZE = 2 * slots" and slots_pos: "0 < slots"
  by (simp_all add: QUEUE_SIZE_def)

text \<open>\<open>sw_repr q xs\<close>: the occupied slots from the tail on hold \<open>xs\<close>, every other slot is free.\<close>

definition ring_at :: "nat \<Rightarrow> nat \<Rightarrow> nat" where
  "ring_at t k = (t + k) mod slots"

definition sw_repr :: "sw_queue \<Rightarrow> 64 word list \<Rightarrow> bool" where
  "sw_repr q xs \<longleftrightarrow>
     (\<exists>t < slots. tail q = 2 * t \<and> head q = 2 * ring_at t (length xs) \<and>
        length (data q) = QUEUE_SIZE \<and> length xs \<le> slots \<and>
        (\<forall>k < slots. data q ! (2 * ring_at t k) =
           (if k < length xs then SW_QUEUE_OCCUPIED else SW_QUEUE_NULL)) \<and>
        (\<forall>k < length xs. data q ! (2 * ring_at t k + 1) = xs ! k))"

lemma ring_at_less [simp]: "ring_at t k < slots"
  using slots_pos by (simp add: ring_at_def)

lemma ring_at_0: "t < slots \<Longrightarrow> ring_at t 0 = t"
  by (simp add: ring_at_def)

lemma ring_at_Suc: "ring_at (ring_at t 1) k = ring_at t (Suc k)"
  by (simp add: ring_at_def mod_add_left_eq)

lemma ring_at_add: "ring_at (ring_at t j) k = ring_at t (j + k)"
  by (simp add: ring_at_def mod_add_left_eq add.assoc)

lemma ring_at_slots: "t < slots \<Longrightarrow> ring_at t slots = t"
  by (simp add: ring_at_def)

lemma ring_at_inj:
  assumes "t < slots" "j < slots" "k < slots"
  shows "ring_at t j = ring_at t k \<longleftrightarrow> j = k"
proof -
  have wrap: "ring_at t i = (if t + i < slots then t + i else t + i - slots)" if "i < slots" for i
  proof (cases "t + i < slots")
    case False
    then have "(t + i) mod slots = (t + i - slots) mod slots" by (simp add: le_mod_geq)
    moreover have "t + i - slots < slots" using assms(1) that by linarith
    ultimately show ?thesis using False by (simp add: ring_at_def)
  qed (simp add: ring_at_def)
  show ?thesis unfolding wrap[OF assms(2)] wrap[OF assms(3)] using assms by (simp split: if_split) linarith
qed

lemma ring_index_less: "2 * ring_at t k + 1 < QUEUE_SIZE"
  using ring_at_less[of t k] QUEUE_SIZE_slots by linarith

lemma advance_ring: "h < slots \<Longrightarrow> advance (2 * h) = 2 * ring_at h 1"
proof -
  assume h: "h < slots"
  show ?thesis
  proof (cases "Suc h < slots")
    case True
    then have "2 * h + 2 < QUEUE_SIZE" using QUEUE_SIZE_slots by linarith
    with True show ?thesis by (simp add: advance_def ring_at_def)
  next
    case False
    with h have "Suc h = slots" by simp
    moreover from this have "QUEUE_SIZE \<le> 2 * h + 2" using QUEUE_SIZE_slots by linarith
    ultimately show ?thesis by (simp add: advance_def ring_at_def)
  qed
qed
lemma sw_repr_create: "sw_repr sw_queue_create []"
proof -
  have "replicate QUEUE_SIZE SW_QUEUE_NULL ! (2 * ring_at 0 k) = SW_QUEUE_NULL" for k
    using ring_index_less[of 0 k] by simp
  then show ?thesis
    using slots_pos ring_at_0
    by (auto simp: sw_repr_def sw_queue_create_def sw_queue_reset_def intro!: exI[of _ 0])
qed

lemma sw_repr_produce:
  assumes "sw_repr q xs" "length xs < slots"
  shows "\<exists>q'. sw_queue_produce q v = Inr q' \<and> sw_repr q' (xs @ [v])"
proof -
  let ?n = "length xs"
  from assms(1) obtain t where t: "t < slots" "tail q = 2 * t" "head q = 2 * ring_at t ?n"
      "length (data q) = QUEUE_SIZE"
    and flags: "\<And>k. k < slots \<Longrightarrow> data q ! (2 * ring_at t k) =
           (if k < ?n then SW_QUEUE_OCCUPIED else SW_QUEUE_NULL)"
    and vals: "\<And>k. k < ?n \<Longrightarrow> data q ! (2 * ring_at t k + 1) = xs ! k"
    by (auto simp: sw_repr_def)
  have free: "data q ! head q = SW_QUEUE_NULL" using flags[of ?n] assms(2) t(3) by simp
  define d where "d = (data q)[head q + 1 := v, head q := SW_QUEUE_OCCUPIED]"
  have idx: "head q + 1 < length (data q)" using ring_index_less[of t ?n] t(3,4) by simp
  have "d ! (2 * ring_at t k) =
        (if k < ?n + 1 then SW_QUEUE_OCCUPIED else SW_QUEUE_NULL)" if "k < slots" for k
    using flags[OF that] ring_at_inj[OF t(1) that assms(2)] idx
    by (auto simp: d_def nth_list_update t(3))
  moreover have "d ! (2 * ring_at t k + 1) = (xs @ [v]) ! k" if "k < ?n + 1" for k
  proof -
    have k: "k < slots" using that assms(2) by simp
    show ?thesis
      using vals[of k] that ring_at_inj[OF t(1) k assms(2)] idx
      by (auto simp: d_def nth_list_update t(3) nth_append less_Suc_eq)
  qed
  moreover have "sw_queue_produce q v = Inr (q\<lparr>data := d, head := advance (head q)\<rparr>)"
    using free by (simp add: sw_queue_produce_def d_def)
  moreover have "advance (head q) = 2 * ring_at t (?n + 1)"
    by (simp add: t(3) advance_ring ring_at_add)
  moreover have "length d = QUEUE_SIZE" by (simp add: d_def t(4))
  ultimately show ?thesis using t(1,2) assms(2)
    by (auto simp: sw_repr_def intro!: exI[of _ t])
qed

lemma sw_repr_consume:
  assumes "sw_repr q (x # xs)"
  shows "\<exists>q'. sw_queue_consume q = Inr (x, q') \<and> sw_repr q' xs"
proof -
  let ?n = "length xs"
  from assms obtain t where t: "t < slots" "tail q = 2 * t" "head q = 2 * ring_at t (Suc ?n)"
      "length (data q) = QUEUE_SIZE" "Suc ?n \<le> slots"
    and flags: "\<And>k. k < slots \<Longrightarrow> data q ! (2 * ring_at t k) =
           (if k < Suc ?n then SW_QUEUE_OCCUPIED else SW_QUEUE_NULL)"
    and vals: "\<And>k. k < Suc ?n \<Longrightarrow> data q ! (2 * ring_at t k + 1) = (x # xs) ! k"
    by (auto simp: sw_repr_def)
  have at0: "ring_at t 0 = t" using t(1) by (rule ring_at_0)
  have occ: "data q ! tail q \<noteq> SW_QUEUE_NULL" and x: "data q ! (tail q + 1) = x"
    using flags[of 0] vals[of 0] slots_pos t(2) at0
    by (auto simp: SW_QUEUE_OCCUPIED_def SW_QUEUE_NULL_def)
  define d where "d = (data q)[tail q + 1 := SW_QUEUE_NULL, tail q := SW_QUEUE_NULL]"
  have idx: "tail q + 1 < length (data q)" using t(1,2,4) QUEUE_SIZE_slots by linarith
  have cons: "sw_queue_consume q = Inr (x, q\<lparr>data := d, tail := advance (tail q)\<rparr>)"
    using occ x idx by (simp add: sw_queue_consume_def d_def)
  have tl: "advance (tail q) = 2 * ring_at t 1" using t(1,2) by (simp add: advance_ring)
  have "d ! (2 * ring_at t (Suc k)) =
        (if k < ?n then SW_QUEUE_OCCUPIED else SW_QUEUE_NULL)" if "k < slots" for k
  proof (cases "Suc k = slots")
    case True
    then have "ring_at t (Suc k) = t" using ring_at_slots[OF t(1)] by simp
    then show ?thesis using True t(5) idx by (simp add: d_def t(2))
  next
    case False
    with that have sk: "Suc k < slots" by simp
    from ring_at_inj[OF t(1) sk slots_pos] have "ring_at t (Suc k) \<noteq> t" by (simp add: at0)
    moreover have "2 * ring_at t (Suc k) \<noteq> 2 * t + 1" by presburger
    ultimately show ?thesis using flags[OF sk] by (simp add: d_def t(2) nth_list_update)
  qed
  moreover have "d ! (2 * ring_at t (Suc k) + 1) = xs ! k" if "k < ?n" for k
  proof -
    have sk: "Suc k < slots" using that t(5) by simp
    from ring_at_inj[OF t(1) sk slots_pos] have "ring_at t (Suc k) \<noteq> t" by (simp add: at0)
    moreover have "2 * ring_at t (Suc k) + 1 \<noteq> 2 * t" by presburger
    ultimately show ?thesis using vals[of "Suc k"] that by (simp add: d_def t(2) nth_list_update)
  qed
  ultimately have "sw_repr (q\<lparr>data := d, tail := advance (tail q)\<rparr>) xs"
    using t(3,4,5) tl
    by (auto simp: sw_repr_def ring_at_Suc[unfolded One_nat_def] d_def intro!: exI[of _ "ring_at t 1"])
  with cons show ?thesis by blast
qed

text \<open>Clearing: as \<open>consume\<close>, except that the value cell keeps its old content.\<close>

lemma sw_repr_clear_step:
  assumes "sw_repr q (x # xs)"
  shows "tail q < length (data q)" "data q ! tail q \<noteq> SW_QUEUE_NULL"
    "sw_repr (q\<lparr>data := (data q)[tail q := SW_QUEUE_NULL], tail := advance (tail q)\<rparr>) xs"
proof -
  let ?n = "length xs"
  from assms obtain t where t: "t < slots" "tail q = 2 * t" "head q = 2 * ring_at t (Suc ?n)"
      "length (data q) = QUEUE_SIZE" "Suc ?n \<le> slots"
    and flags: "\<And>k. k < slots \<Longrightarrow> data q ! (2 * ring_at t k) =
           (if k < Suc ?n then SW_QUEUE_OCCUPIED else SW_QUEUE_NULL)"
    and vals: "\<And>k. k < Suc ?n \<Longrightarrow> data q ! (2 * ring_at t k + 1) = (x # xs) ! k"
    by (auto simp: sw_repr_def)
  have at0: "ring_at t 0 = t" using t(1) by (rule ring_at_0)
  show "data q ! tail q \<noteq> SW_QUEUE_NULL"
    using flags[of 0] slots_pos t(2) at0 by (auto simp: SW_QUEUE_OCCUPIED_def SW_QUEUE_NULL_def)
  show idx: "tail q < length (data q)" using t(1,2,4) QUEUE_SIZE_slots by linarith
  let ?d = "(data q)[tail q := SW_QUEUE_NULL]"
  have "?d ! (2 * ring_at t (Suc k)) =
        (if k < ?n then SW_QUEUE_OCCUPIED else SW_QUEUE_NULL)" if "k < slots" for k
  proof (cases "Suc k = slots")
    case True
    then have "ring_at t (Suc k) = t" using ring_at_slots[OF t(1)] by simp
    then show ?thesis using True t(5) idx by (simp add: t(2))
  next
    case False
    with that have sk: "Suc k < slots" by simp
    from ring_at_inj[OF t(1) sk slots_pos] have "ring_at t (Suc k) \<noteq> t" by (simp add: at0)
    then show ?thesis using flags[OF sk] by (simp add: t(2) nth_list_update)
  qed
  moreover have "?d ! (2 * ring_at t (Suc k) + 1) = xs ! k" if "k < ?n" for k
  proof -
    have "2 * ring_at t (Suc k) + 1 \<noteq> 2 * t" by presburger
    then show ?thesis using vals[of "Suc k"] that by (simp add: t(2) nth_list_update)
  qed
  moreover have "advance (tail q) = 2 * ring_at t 1" using t(1,2) by (simp add: advance_ring)
  ultimately show "sw_repr (q\<lparr>data := ?d, tail := advance (tail q)\<rparr>) xs"
    using t(3,4,5)
    by (auto simp: sw_repr_def ring_at_Suc[unfolded One_nat_def] intro!: exI[of _ "ring_at t 1"])
qed

lemma sw_repr_empty: "sw_repr q [] \<Longrightarrow> data q ! tail q = SW_QUEUE_NULL"
  using slots_pos by (auto simp: sw_repr_def ring_at_0 dest: spec[of _ 0])

lemma sw_repr_nonempty: "sw_repr q (x # xs) \<Longrightarrow> data q ! tail q \<noteq> SW_QUEUE_NULL"
  by (rule sw_repr_clear_step(2))

lemma sw_repr_clear: "sw_repr q xs \<Longrightarrow> sw_repr (sw_queue_clear q) []"
proof (induction xs arbitrary: q)
  case Nil
  then show ?case by (subst sw_queue_clear.simps) (simp add: sw_repr_empty)
next
  case (Cons x xs)
  from Cons.IH[OF sw_repr_clear_step(3)[OF Cons.prems]] sw_repr_clear_step(1,2)[OF Cons.prems]
  show ?case by (subst sw_queue_clear.simps) simp
qed

lemma sw_repr_fun: "sw_repr q xs \<Longrightarrow> sw_repr q ys \<Longrightarrow> xs = ys"
proof (induction xs arbitrary: ys q)
  case Nil
  then show ?case using sw_repr_nonempty[of q] sw_repr_empty[of q] by (cases ys) auto
next
  case (Cons x xs)
  show ?case
  proof (cases ys)
    case Nil
    then show ?thesis using Cons.prems sw_repr_nonempty[of q] sw_repr_empty[of q] by auto
  next
    case (Cons y zs)
    from sw_repr_consume[OF \<open>sw_repr q (x # xs)\<close>] sw_repr_consume[of q y zs]
      \<open>sw_repr q ys\<close> Cons Cons.IH
    show ?thesis by fastforce
  qed
qed

lemma sw_repr_full: "sw_repr q xs \<Longrightarrow> length xs = slots \<Longrightarrow> sw_queue_produce q v = Inl Spin"
proof -
  assume q: "sw_repr q xs" and full: "length xs = slots"
  then obtain t where t: "t < slots" "head q = 2 * ring_at t slots"
    and flags: "\<forall>k < slots. data q ! (2 * ring_at t k) =
           (if k < length xs then SW_QUEUE_OCCUPIED else SW_QUEUE_NULL)"
    by (auto simp: sw_repr_def)
  have "ring_at t slots = ring_at t 0" using t(1) by (simp add: ring_at_0 ring_at_slots)
  then have "data q ! head q = SW_QUEUE_OCCUPIED" using flags slots_pos t(2) full by simp
  then show ?thesis
    by (simp add: sw_queue_produce_def SW_QUEUE_OCCUPIED_def SW_QUEUE_NULL_def)
qed

interpretation swq: bounded_fifo sw_repr slots sw_queue_create sw_queue_produce sw_queue_consume
  sw_queue_empty sw_queue_clear
proof
  show "sw_repr sw_queue_create []" by (rule sw_repr_create)
  fix q xs ys v x
  show "sw_repr q xs \<Longrightarrow> sw_repr q ys \<Longrightarrow> xs = ys" by (rule sw_repr_fun)
  show "sw_repr q xs \<Longrightarrow> length xs \<le> slots" by (auto simp: sw_repr_def)
  show "sw_repr q xs \<Longrightarrow> length xs < slots \<Longrightarrow>
          \<exists>q'. sw_queue_produce q v = Inr q' \<and> sw_repr q' (xs @ [v])"
    by (rule sw_repr_produce)
  show "sw_repr q xs \<Longrightarrow> length xs = slots \<Longrightarrow> sw_queue_produce q v = Inl Spin"
    by (rule sw_repr_full)
  show "sw_repr q (x # xs) \<Longrightarrow> \<exists>q'. sw_queue_consume q = Inr (x, q') \<and> sw_repr q' xs"
    by (rule sw_repr_consume)
  show "sw_repr q [] \<Longrightarrow> sw_queue_consume q = Inl Spin"
    by (simp add: sw_queue_consume_def sw_repr_empty)
  show "sw_repr q xs \<Longrightarrow> sw_queue_empty q \<longleftrightarrow> xs = []"
    by (cases xs) (auto simp: sw_queue_empty_def sw_repr_empty sw_repr_nonempty)
  show "sw_repr q xs \<Longrightarrow> sw_repr (sw_queue_clear q) []" by (rule sw_repr_clear)
qed

subsection \<open>Properties\<close>

text \<open>C1. The ring implements a bounded first-in first-out queue: on a ring that represents the list
  \<open>xs\<close>, \<open>produce\<close> appends its value if fewer than \<open>QUEUE_SIZE / 2\<close> values are queued and otherwise
  waits, \<open>consume\<close> removes and returns the oldest value and waits on the empty queue, the emptiness
  test is exact and \<open>clear\<close> empties the ring.\<close>

theorem sw_queue_refines_fifo:
  assumes "sw_repr q xs"
  shows "(\<forall>v. if length xs < QUEUE_SIZE div 2
              then \<exists>q'. sw_queue_produce q v = Inr q' \<and> sw_repr q' (xs @ [v])
              else sw_queue_produce q v = Inl Spin) \<and>
         (case xs of [] \<Rightarrow> sw_queue_consume q = Inl Spin
          | y # ys \<Rightarrow> \<exists>q'. sw_queue_consume q = Inr (y, q') \<and> sw_repr q' ys) \<and>
         (sw_queue_empty q \<longleftrightarrow> xs = []) \<and> sw_repr (sw_queue_clear q) []"
  using swq.produce_room[OF assms] swq.produce_full[OF assms] swq.repr_cap[OF assms]
    swq.is_empty_repr[OF assms] swq.clear_repr[OF assms] swq.consume_none swq.consume_some assms
  by (auto split: list.split)

theorem sw_queue_refines_fifo_witness:
  "sw_repr sw_queue_create [] \<and> sw_queue_consume sw_queue_create = Inl Spin \<and>
   (\<exists>q'. sw_queue_produce sw_queue_create 7 = Inr q' \<and> sw_repr q' [7])"
  using sw_queue_refines_fifo[OF sw_repr_create] sw_repr_create slots_pos by auto

text \<open>Round trip: on a ring that represents \<open>xs\<close>, a batch of values that fits is accepted whole, and
  consuming as many values as are then queued returns \<open>xs\<close> followed by the batch, unchanged and in
  order, and leaves the ring empty.\<close>

theorem sw_queue_roundtrip:
  assumes "sw_repr q xs" "length xs + length vs \<le> QUEUE_SIZE div 2"
  shows "\<exists>q1 q2. swq.produce_all q vs = Inr q1 \<and>
           swq.consume_n (length xs + length vs) q1 = Inr (xs @ vs, q2) \<and> sw_queue_empty q2"
  by (rule swq.fifo_roundtrip[OF assms])

theorem sw_queue_roundtrip_witness:
  "\<exists>q1 q2. swq.produce_all sw_queue_create [3, 0, 5] = Inr q1 \<and>
           swq.consume_n 3 q1 = Inr ([3, 0, 5], q2) \<and> sw_queue_empty q2"
proof -
  have "length ([] :: 64 word list) + length [3, 0, 5 :: 64 word] \<le> QUEUE_SIZE div 2"
    by (simp add: QUEUE_SIZE_def)
  from sw_queue_roundtrip[OF sw_repr_create this] show ?thesis by (simp add: numeral_3_eq_3)
qed

end
