(* ===== verification/Sw_Queue_Conc.thy ===== *)
theory Sw_Queue_Conc
  imports Sw_Queue
begin

section \<open>The software queue with both ends running\<close>

text \<open>
  The producer and the consumer of a queue are different processes. This theory interleaves the
  individual memory accesses of \<open>__sw_queue_produce\<close> and \<open>__sw_queue_consume\<close> (sequentially
  consistent memory, every aligned pointer access atomic) and shows by rule induction that no value is
  lost, duplicated or reordered, and that the pair never blocks while values are outstanding.

  The producer is at \<open>PWait\<close> (testing the flag at \<open>head\<close>), \<open>PStore\<close> (about to store the value),
  \<open>PFlag\<close> (about to set the flag) or \<open>PMove\<close> (about to move \<open>head\<close>); the consumer at \<open>CWait\<close>, \<open>CRead\<close>
  (about to read the value), \<open>CNull\<close> (about to null the value cell), \<open>CFree\<close> (about to copy the
  value cell over the flag) or \<open>CMove\<close>. \<open>todo\<close> are the values still to be produced, \<open>got\<close> the
  values returned by \<open>consume\<close>. A failed test of a waiting loop changes nothing and is no step.
\<close>

datatype ppc = PWait | PStore "64 word" | PFlag "64 word" | PMove
datatype cpc = CWait | CRead | CNull "64 word" | CFree "64 word" | CMove "64 word"

record qsys =
  ring :: sw_queue
  pp :: ppc
  cp :: cpc
  todo :: "64 word list"
  got :: "64 word list"

definition qsys_init :: "64 word list \<Rightarrow> qsys" where
  "qsys_init vs = \<lparr>ring = sw_queue_create, pp = PWait, cp = CWait, todo = vs, got = []\<rparr>"

abbreviation poke :: "qsys \<Rightarrow> nat \<Rightarrow> 64 word \<Rightarrow> sw_queue" where
  "poke s i v \<equiv> (ring s)\<lparr>data := (data (ring s))[i := v]\<rparr>"

inductive qstep :: "qsys \<Rightarrow> qsys \<Rightarrow> bool" where
  p_test: "pp s = PWait \<Longrightarrow> todo s = v # vs \<Longrightarrow> data (ring s) ! head (ring s) = SW_QUEUE_NULL \<Longrightarrow>
     qstep s (s\<lparr>pp := PStore v, todo := vs\<rparr>)"
| p_store: "pp s = PStore v \<Longrightarrow>
     qstep s (s\<lparr>ring := poke s (head (ring s) + 1) v, pp := PFlag v\<rparr>)"
| p_flag: "pp s = PFlag v \<Longrightarrow>
     qstep s (s\<lparr>ring := poke s (head (ring s)) SW_QUEUE_OCCUPIED, pp := PMove\<rparr>)"
| p_move: "pp s = PMove \<Longrightarrow>
     qstep s (s\<lparr>ring := (ring s)\<lparr>head := advance (head (ring s))\<rparr>, pp := PWait\<rparr>)"
| c_test: "cp s = CWait \<Longrightarrow> data (ring s) ! tail (ring s) \<noteq> SW_QUEUE_NULL \<Longrightarrow>
     qstep s (s\<lparr>cp := CRead\<rparr>)"
| c_read: "cp s = CRead \<Longrightarrow>
     qstep s (s\<lparr>cp := CNull (data (ring s) ! (tail (ring s) + 1))\<rparr>)"
| c_null: "cp s = CNull v \<Longrightarrow>
     qstep s (s\<lparr>ring := poke s (tail (ring s) + 1) SW_QUEUE_NULL, cp := CFree v\<rparr>)"
| c_free: "cp s = CFree v \<Longrightarrow>
     qstep s (s\<lparr>ring := poke s (tail (ring s)) (data (ring s) ! (tail (ring s) + 1)), cp := CMove v\<rparr>)"
| c_move: "cp s = CMove v \<Longrightarrow>
     qstep s (s\<lparr>ring := (ring s)\<lparr>tail := advance (tail (ring s))\<rparr>, cp := CWait, got := got s @ [v]\<rparr>)"

inductive qrun :: "nat \<Rightarrow> qsys \<Rightarrow> qsys \<Rightarrow> bool" where
  qrun_0: "qrun 0 s s"
| qrun_Suc: "qrun n s t \<Longrightarrow> qstep t u \<Longrightarrow> qrun (Suc n) s u"

subsection \<open>The ring between the two ends\<close>

text \<open>
  From slot \<open>b\<close> on, the flags mark exactly the pending values, whose cells hold them; \<open>skip\<close> says
  that the consumer has already nulled the first cell.
\<close>

definition ring_ok :: "64 word list \<Rightarrow> nat \<Rightarrow> 64 word list \<Rightarrow> bool \<Rightarrow> bool" where
  "ring_ok d b pend skip \<longleftrightarrow>
     length d = QUEUE_SIZE \<and> b < slots \<and> length pend \<le> slots \<and>
     (\<forall>k < slots. d ! (2 * ring_at b k) =
        (if k < length pend then SW_QUEUE_OCCUPIED else SW_QUEUE_NULL)) \<and>
     (\<forall>k < length pend. k = 0 \<and> skip \<or> d ! (2 * ring_at b k + 1) = pend ! k)"

lemma ring_okD:
  assumes "ring_ok d b pend skip"
  shows "length d = QUEUE_SIZE" "b < slots" "length pend \<le> slots"
    "k < slots \<Longrightarrow> d ! (2 * ring_at b k) = (if k < length pend then SW_QUEUE_OCCUPIED else SW_QUEUE_NULL)"
    "k < length pend \<Longrightarrow> k = 0 \<and> skip \<or> d ! (2 * ring_at b k + 1) = pend ! k"
  using assms by (auto simp: ring_ok_def)

lemma ring_idx: "ring_ok d b pend skip \<Longrightarrow> 2 * ring_at b k + 1 < length d"
  using ring_index_less by (simp add: ring_ok_def)

lemma ring_even_odd [simp]: "2 * i \<noteq> Suc (2 * j)" "Suc (2 * j) \<noteq> 2 * (i::nat)"
  by presburger+

lemma ring_ok_store:
  assumes r: "ring_ok d b pend skip" and n: "length pend < slots"
  shows "ring_ok (d[2 * ring_at b (length pend) + 1 := v]) b pend skip"
proof -
  have "ring_at b (length pend) \<noteq> ring_at b k" if "k < length pend" for k
    using ring_at_inj[OF ring_okD(2)[OF r] _ n, of k] that n by auto
  then show ?thesis using r by (auto simp: ring_ok_def nth_list_update)
qed

lemma ring_ok_flag:
  assumes r: "ring_ok d b pend skip" and n: "length pend < slots"
    and v: "d ! (2 * ring_at b (length pend) + 1) = v"
  shows "ring_ok (d[2 * ring_at b (length pend) := SW_QUEUE_OCCUPIED]) b (pend @ [v]) skip"
proof -
  have "ring_at b (length pend) = ring_at b k \<longleftrightarrow> k = length pend" if "k < slots" for k
    using ring_at_inj[OF ring_okD(2)[OF r] that n] by auto
  then show ?thesis
    using r n v ring_idx[OF r, of "length pend"]
    by (auto simp: ring_ok_def nth_list_update nth_append less_Suc_eq)
qed

lemma ring_ok_null:
  assumes "ring_ok d b pend skip"
  shows "ring_ok (d[2 * b + 1 := SW_QUEUE_NULL]) b pend True"
proof -
  have "b = ring_at b k \<longleftrightarrow> k = 0" if "k < slots" for k
    using ring_at_inj[OF ring_okD(2)[OF assms] that slots_pos] ring_at_0[OF ring_okD(2)[OF assms]]
    by auto
  then show ?thesis using assms by (auto simp: ring_ok_def nth_list_update split: if_splits)
qed

lemma ring_ok_free:
  assumes r: "ring_ok d b (x # pend) skip"
  shows "ring_ok (d[2 * b := SW_QUEUE_NULL]) (ring_at b 1) pend False"
proof -
  note b = ring_okD(2)[OF r]
  have ne: "ring_at b (Suc k) = b \<longleftrightarrow> Suc k = slots" if "k < slots" for k
  proof (cases "Suc k = slots")
    case True
    then show ?thesis using ring_at_slots[OF b] by simp
  next
    case False
    then show ?thesis using ring_at_inj[OF b _ slots_pos, of "Suc k"] ring_at_0[OF b] that by auto
  qed
  have "d[2 * b := SW_QUEUE_NULL] ! (2 * ring_at b (Suc k)) =
        (if k < length pend then SW_QUEUE_OCCUPIED else SW_QUEUE_NULL)" if k: "k < slots" for k
  proof (cases "Suc k = slots")
    case True
    then show ?thesis using ne[OF k] ring_okD(3)[OF r] ring_idx[OF r, of 0] ring_at_0[OF b]
      by simp
  next
    case False
    then show ?thesis using ne[OF k] k ring_okD(4)[OF r, of "Suc k"] by (simp add: nth_list_update)
  qed
  moreover have "d[2 * b := SW_QUEUE_NULL] ! (2 * ring_at b (Suc k) + 1) = pend ! k"
    if "k < length pend" for k
    using ring_okD(5)[OF r, of "Suc k"] that by (simp add: nth_list_update)
  ultimately show ?thesis
    using r by (simp add: ring_ok_def ring_at_Suc[unfolded One_nat_def])
qed

subsection \<open>The invariant\<close>

fun cons_skip :: "cpc \<Rightarrow> bool" where
  "cons_skip (CFree v) = True"
| "cons_skip _ = False"

fun cons_holds :: "cpc \<Rightarrow> 64 word list" where
  "cons_holds (CMove v) = [v]"
| "cons_holds _ = []"

fun prod_holds :: "ppc \<Rightarrow> 64 word list" where
  "prod_holds (PStore v) = [v]"
| "prod_holds (PFlag v) = [v]"
| "prod_holds _ = []"

fun cons_ok :: "cpc \<Rightarrow> 64 word list \<Rightarrow> nat \<Rightarrow> nat \<Rightarrow> 64 word list \<Rightarrow> bool" where
  "cons_ok CWait d tp b pend \<longleftrightarrow> tp = 2 * b"
| "cons_ok CRead d tp b pend \<longleftrightarrow> tp = 2 * b \<and> pend \<noteq> []"
| "cons_ok (CNull v) d tp b pend \<longleftrightarrow> tp = 2 * b \<and> pend \<noteq> [] \<and> hd pend = v"
| "cons_ok (CFree v) d tp b pend \<longleftrightarrow>
     tp = 2 * b \<and> pend \<noteq> [] \<and> hd pend = v \<and> d ! (2 * b + 1) = SW_QUEUE_NULL"
| "cons_ok (CMove v) d tp b pend \<longleftrightarrow> (\<exists>t < slots. tp = 2 * t \<and> b = ring_at t 1)"

fun prod_ok :: "ppc \<Rightarrow> 64 word list \<Rightarrow> nat \<Rightarrow> nat \<Rightarrow> nat \<Rightarrow> bool" where
  "prod_ok PWait d hp h n \<longleftrightarrow> hp = 2 * h"
| "prod_ok (PStore v) d hp h n \<longleftrightarrow> hp = 2 * h \<and> n < slots"
| "prod_ok (PFlag v) d hp h n \<longleftrightarrow> hp = 2 * h \<and> n < slots \<and> d ! (2 * h + 1) = v"
| "prod_ok PMove d hp h n \<longleftrightarrow> (\<exists>g < slots. hp = 2 * g \<and> h = ring_at g 1)"

definition conc_inv :: "64 word list \<Rightarrow> qsys \<Rightarrow> bool" where
  "conc_inv vs s \<longleftrightarrow> (\<exists>b pend.
     ring_ok (data (ring s)) b pend (cons_skip (cp s)) \<and>
     cons_ok (cp s) (data (ring s)) (tail (ring s)) b pend \<and>
     prod_ok (pp s) (data (ring s)) (head (ring s)) (ring_at b (length pend)) (length pend) \<and>
     vs = got s @ cons_holds (cp s) @ pend @ prod_holds (pp s) @ todo s)"

lemma conc_invI:
  assumes "ring_ok (data (ring s)) b pend (cons_skip (cp s))"
    and "cons_ok (cp s) (data (ring s)) (tail (ring s)) b pend"
    and "prod_ok (pp s) (data (ring s)) (head (ring s)) (ring_at b (length pend)) (length pend)"
    and "vs = got s @ cons_holds (cp s) @ pend @ prod_holds (pp s) @ todo s"
  shows "conc_inv vs s"
  using assms unfolding conc_inv_def by blast

lemma conc_inv_init: "conc_inv vs (qsys_init vs)"
proof -
  have "ring_ok (replicate QUEUE_SIZE SW_QUEUE_NULL) 0 [] False"
  proof -
    have "replicate QUEUE_SIZE SW_QUEUE_NULL ! (2 * ring_at 0 k) = SW_QUEUE_NULL" for k
      using ring_index_less[of 0 k] by simp
    then show ?thesis using slots_pos by (simp add: ring_ok_def)
  qed
  then show ?thesis
    using slots_pos
    by (intro conc_invI[of _ 0 "[]"])
       (auto simp: qsys_init_def sw_queue_create_def sw_queue_reset_def ring_at_0)
qed

text \<open>A free flag at the head means room; an occupied flag at the tail means a pending value.\<close>

lemma ring_head_free:
  assumes r: "ring_ok d b pend skip" and free: "d ! (2 * ring_at b (length pend)) = SW_QUEUE_NULL"
  shows "length pend < slots"
proof (rule ccontr)
  assume "\<not> length pend < slots"
  with ring_okD(3)[OF r] have "length pend = slots" by simp
  then have "ring_at b (length pend) = ring_at b 0"
    using ring_okD(2)[OF r] by (simp add: ring_at_slots ring_at_0)
  with ring_okD(4)[OF r slots_pos] free \<open>length pend = slots\<close> slots_pos show False
    by (simp add: SW_QUEUE_OCCUPIED_def SW_QUEUE_NULL_def)
qed

lemma ring_tail_flag:
  assumes "ring_ok d b pend skip"
  shows "d ! (2 * b) \<noteq> SW_QUEUE_NULL \<longleftrightarrow> pend \<noteq> []"
  using ring_okD(4)[OF assms slots_pos] ring_at_0[OF ring_okD(2)[OF assms]]
  by (auto simp: SW_QUEUE_OCCUPIED_def SW_QUEUE_NULL_def)

lemma conc_inv_producer_step:
  assumes "conc_inv vs s"
  shows "pp s = PWait \<Longrightarrow> todo s = v # us \<Longrightarrow> data (ring s) ! head (ring s) = SW_QUEUE_NULL \<Longrightarrow>
           conc_inv vs (s\<lparr>pp := PStore v, todo := us\<rparr>)"
    and "pp s = PStore v \<Longrightarrow>
           conc_inv vs (s\<lparr>ring := poke s (head (ring s) + 1) v, pp := PFlag v\<rparr>)"
    and "pp s = PFlag v \<Longrightarrow>
           conc_inv vs (s\<lparr>ring := poke s (head (ring s)) SW_QUEUE_OCCUPIED, pp := PMove\<rparr>)"
    and "pp s = PMove \<Longrightarrow>
           conc_inv vs (s\<lparr>ring := (ring s)\<lparr>head := advance (head (ring s))\<rparr>, pp := PWait\<rparr>)"
proof -
  from assms obtain b pend where
    r: "ring_ok (data (ring s)) b pend (cons_skip (cp s))" and
    c: "cons_ok (cp s) (data (ring s)) (tail (ring s)) b pend" and
    p: "prod_ok (pp s) (data (ring s)) (head (ring s)) (ring_at b (length pend)) (length pend)" and
    vs: "vs = got s @ cons_holds (cp s) @ pend @ prod_holds (pp s) @ todo s"
    unfolding conc_inv_def by blast
  note b = ring_okD(2)[OF r]
  { assume "pp s = PWait" "todo s = v # us" "data (ring s) ! head (ring s) = SW_QUEUE_NULL"
    with r c p vs ring_head_free[OF r]
    show "conc_inv vs (s\<lparr>pp := PStore v, todo := us\<rparr>)"
      by (intro conc_invI[of _ b pend]) auto }
  { assume ps: "pp s = PStore v"
    with p have h: "head (ring s) = 2 * ring_at b (length pend)" and n: "length pend < slots" by auto
    have "cons_ok (cp s) ((data (ring s))[2 * ring_at b (length pend) + 1 := v]) (tail (ring s)) b pend"
      using c ring_at_inj[OF b slots_pos n] ring_at_0[OF b]
      by (cases "cp s") (auto simp: nth_list_update)
    with ps r n h p vs ring_ok_store[OF r n, of v] ring_idx[OF r, of "length pend"]
    show "conc_inv vs (s\<lparr>ring := poke s (head (ring s) + 1) v, pp := PFlag v\<rparr>)"
      by (intro conc_invI[of _ b pend]) auto }
  { assume ps: "pp s = PFlag v"
    with p have h: "head (ring s) = 2 * ring_at b (length pend)" and n: "length pend < slots"
      and v: "data (ring s) ! (2 * ring_at b (length pend) + 1) = v" by auto
    have "cons_ok (cp s) ((data (ring s))[2 * ring_at b (length pend) := SW_QUEUE_OCCUPIED])
            (tail (ring s)) b (pend @ [v])"
      using c by (cases "cp s") (auto simp: nth_list_update)
    moreover have "\<exists>g < slots. head (ring s) = 2 * g \<and> ring_at b (length (pend @ [v])) = ring_at g 1"
      by (rule exI[of _ "ring_at b (length pend)"]) (simp add: h ring_at_add)
    ultimately show "conc_inv vs (s\<lparr>ring := poke s (head (ring s)) SW_QUEUE_OCCUPIED, pp := PMove\<rparr>)"
      using ps vs h ring_ok_flag[OF r n v]
      by (intro conc_invI[of _ b "pend @ [v]"]) auto }
  { assume ps: "pp s = PMove"
    with p obtain g where "g < slots" "head (ring s) = 2 * g" "ring_at b (length pend) = ring_at g 1"
      by auto
    then have "advance (head (ring s)) = 2 * ring_at b (length pend)" by (simp add: advance_ring)
    with ps r c vs
    show "conc_inv vs (s\<lparr>ring := (ring s)\<lparr>head := advance (head (ring s))\<rparr>, pp := PWait\<rparr>)"
      by (intro conc_invI[of _ b pend]) auto }
qed

lemma conc_inv_consumer_step:
  assumes "conc_inv vs s"
  shows "cp s = CWait \<Longrightarrow> data (ring s) ! tail (ring s) \<noteq> SW_QUEUE_NULL \<Longrightarrow>
           conc_inv vs (s\<lparr>cp := CRead\<rparr>)"
    and "cp s = CRead \<Longrightarrow>
           conc_inv vs (s\<lparr>cp := CNull (data (ring s) ! (tail (ring s) + 1))\<rparr>)"
    and "cp s = CNull v \<Longrightarrow>
           conc_inv vs (s\<lparr>ring := poke s (tail (ring s) + 1) SW_QUEUE_NULL, cp := CFree v\<rparr>)"
    and "cp s = CFree v \<Longrightarrow>
           conc_inv vs (s\<lparr>ring := poke s (tail (ring s)) (data (ring s) ! (tail (ring s) + 1)),
                           cp := CMove v\<rparr>)"
    and "cp s = CMove v \<Longrightarrow>
           conc_inv vs (s\<lparr>ring := (ring s)\<lparr>tail := advance (tail (ring s))\<rparr>, cp := CWait,
                           got := got s @ [v]\<rparr>)"
proof -
  from assms obtain b pend where
    r: "ring_ok (data (ring s)) b pend (cons_skip (cp s))" and
    c: "cons_ok (cp s) (data (ring s)) (tail (ring s)) b pend" and
    p: "prod_ok (pp s) (data (ring s)) (head (ring s)) (ring_at b (length pend)) (length pend)" and
    vs: "vs = got s @ cons_holds (cp s) @ pend @ prod_holds (pp s) @ todo s"
    unfolding conc_inv_def by blast
  note b = ring_okD(2)[OF r]
  have at0: "ring_at b 0 = b" by (rule ring_at_0[OF b])
  { assume "cp s = CWait" "data (ring s) ! tail (ring s) \<noteq> SW_QUEUE_NULL"
    with r c p vs ring_tail_flag[OF r] show "conc_inv vs (s\<lparr>cp := CRead\<rparr>)"
      by (intro conc_invI[of _ b pend]) auto }
  { assume cs: "cp s = CRead"
    with c have "pend \<noteq> []" "tail (ring s) = 2 * b" by auto
    with ring_okD(5)[OF r, of 0] cs at0 have "data (ring s) ! (tail (ring s) + 1) = hd pend"
      by (simp add: hd_conv_nth)
    with cs r c p vs
    show "conc_inv vs (s\<lparr>cp := CNull (data (ring s) ! (tail (ring s) + 1))\<rparr>)"
      by (intro conc_invI[of _ b pend]) auto }
  { assume cs: "cp s = CNull v"
    with c have ne: "pend \<noteq> []" and t: "tail (ring s) = 2 * b" by auto
    have "b \<noteq> ring_at b (length pend)" if "length pend < slots"
      using ring_at_inj[OF b slots_pos that] ne at0 by auto
    then have "prod_ok (pp s) ((data (ring s))[2 * b + 1 := SW_QUEUE_NULL]) (head (ring s))
                 (ring_at b (length pend)) (length pend)"
      using p by (cases "pp s") (auto simp: nth_list_update)
    with cs c vs t ring_ok_null[OF r] ring_idx[OF r, of 0] at0
    show "conc_inv vs (s\<lparr>ring := poke s (tail (ring s) + 1) SW_QUEUE_NULL, cp := CFree v\<rparr>)"
      by (intro conc_invI[of _ b pend]) auto }
  { assume cs: "cp s = CFree v"
    with c obtain us where pend: "pend = v # us" and t: "tail (ring s) = 2 * b"
      and null: "data (ring s) ! (2 * b + 1) = SW_QUEUE_NULL"
      by (cases pend) auto
    have h: "ring_at (ring_at b 1) (length us) = ring_at b (length pend)"
      by (simp add: pend ring_at_add)
    have "prod_ok (pp s) ((data (ring s))[2 * b := SW_QUEUE_NULL]) (head (ring s))
            (ring_at (ring_at b 1) (length us)) (length us)"
      using p ring_okD(3)[OF r] unfolding h by (cases "pp s") (auto simp: nth_list_update pend)
    with cs vs t b null ring_ok_free[of _ b v us] r
    show "conc_inv vs (s\<lparr>ring := poke s (tail (ring s)) (data (ring s) ! (tail (ring s) + 1)),
                           cp := CMove v\<rparr>)"
      by (intro conc_invI[of _ "ring_at b 1" us]) (auto simp: pend) }
  { assume cs: "cp s = CMove v"
    with c obtain t where "t < slots" "tail (ring s) = 2 * t" "b = ring_at t 1" by auto
    then have "advance (tail (ring s)) = 2 * b" by (simp add: advance_ring)
    with cs r p vs
    show "conc_inv vs (s\<lparr>ring := (ring s)\<lparr>tail := advance (tail (ring s))\<rparr>, cp := CWait,
                           got := got s @ [v]\<rparr>)"
      by (intro conc_invI[of _ b pend]) auto }
qed

lemma conc_inv_step: "qstep s s' \<Longrightarrow> conc_inv vs s \<Longrightarrow> conc_inv vs s'"
  by (erule qstep.cases; simp only:; rule conc_inv_producer_step conc_inv_consumer_step; assumption)

lemma conc_inv_run: "qrun n s t \<Longrightarrow> conc_inv vs s \<Longrightarrow> conc_inv vs t"
  by (induction rule: qrun.induct) (auto intro: conc_inv_step)

subsection \<open>Progress\<close>

fun prod_work :: "ppc \<Rightarrow> nat" where
  "prod_work PWait = 0"
| "prod_work (PStore v) = 3"
| "prod_work (PFlag v) = 2"
| "prod_work PMove = 1"

fun cons_work :: "cpc \<Rightarrow> nat" where
  "cons_work CWait = 4"
| "cons_work CRead = 3"
| "cons_work (CNull v) = 2"
| "cons_work (CFree v) = 1"
| "cons_work (CMove v) = 0"

definition work_left :: "64 word list \<Rightarrow> qsys \<Rightarrow> nat" where
  "work_left vs s =
     4 * length (todo s) + prod_work (pp s) + 5 * (length vs - length (got s)) + cons_work (cp s)"

lemma conc_inv_got_bound:
  assumes "conc_inv vs s" "cp s = CMove v"
  shows "length (got s) < length vs"
  using assms by (auto simp: conc_inv_def)

lemma qstep_work: "qstep s s' \<Longrightarrow> conc_inv vs s \<Longrightarrow> work_left vs s' < work_left vs s"
  by (erule qstep.cases) (auto simp: work_left_def dest: conc_inv_got_bound)

lemma qrun_bound: "qrun n s t \<Longrightarrow> conc_inv vs s \<Longrightarrow> n + work_left vs t \<le> work_left vs s"
proof (induction rule: qrun.induct)
  case (qrun_Suc n s t u)
  then show ?case using qstep_work[of t u vs] conc_inv_run[of n s t vs] by fastforce
qed simp

lemma conc_progress:
  assumes inv: "conc_inv vs s" and stuck: "\<And>s'. \<not> qstep s s'"
  shows "got s = vs"
proof -
  from inv obtain b pend where
    r: "ring_ok (data (ring s)) b pend (cons_skip (cp s))" and
    c: "cons_ok (cp s) (data (ring s)) (tail (ring s)) b pend" and
    p: "prod_ok (pp s) (data (ring s)) (head (ring s)) (ring_at b (length pend)) (length pend)" and
    vs: "vs = got s @ cons_holds (cp s) @ pend @ prod_holds (pp s) @ todo s"
    unfolding conc_inv_def by blast
  have cw: "cp s = CWait" using stuck by (cases "cp s") (blast intro: qstep.intros)+
  have pw: "pp s = PWait" using stuck by (cases "pp s") (blast intro: qstep.intros)+
  have "pend = []" using stuck c_test[OF cw] ring_tail_flag[OF r] c cw by auto
  moreover have "todo s = []"
  proof (cases "todo s")
    case (Cons v us)
    have "data (ring s) ! head (ring s) = SW_QUEUE_NULL"
      using ring_okD(4)[OF r slots_pos] \<open>pend = []\<close> p pw by simp
    then show ?thesis using stuck p_test[OF pw Cons] by blast
  qed
  ultimately show ?thesis using vs cw pw by simp
qed

text \<open>The first step of delivering one value.\<close>

lemma first_step_run: "qrun 1 (qsys_init [7]) ((qsys_init [7])\<lparr>pp := PStore 7, todo := []\<rparr>)"
proof -
  have "qstep (qsys_init [7]) ((qsys_init [7])\<lparr>pp := PStore 7, todo := []\<rparr>)"
    by (rule p_test) (simp_all add: qsys_init_def sw_queue_create_def sw_queue_reset_def QUEUE_SIZE_def)
  from qrun_Suc[OF qrun_0 this] show ?thesis by simp
qed

subsection \<open>Properties\<close>

text \<open>C2. With the two processes interleaved access by access, the values \<open>consume\<close> has returned are at
  every moment a prefix of the values handed to \<open>produce\<close>: nothing is lost, duplicated, reordered or
  read before it was written.\<close>

theorem concurrent_fifo:
  assumes "qrun n (qsys_init vs) s"
  shows "\<exists>rest. vs = got s @ rest"
  using conc_inv_run[OF assms conc_inv_init] by (auto simp: conc_inv_def)

theorem concurrent_fifo_witness:
  "qrun 1 (qsys_init [7]) ((qsys_init [7])\<lparr>pp := PStore 7, todo := []\<rparr>) \<and>
   (\<exists>rest. [7] = got ((qsys_init [7])\<lparr>pp := PStore 7, todo := []\<rparr>) @ rest)"
  using first_step_run concurrent_fifo[OF first_step_run] by blast

text \<open>C10. The pair makes progress: every interleaving that delivers \<open>length vs\<close> values takes at most
  \<open>9 * length vs + 4\<close> steps, and a state in which neither end can move has delivered all of them.\<close>

theorem concurrent_delivery:
  assumes "qrun n (qsys_init vs) s"
  shows "n \<le> 9 * length vs + 4 \<and> ((\<forall>s'. \<not> qstep s s') \<longrightarrow> got s = vs)"
proof -
  have "work_left vs (qsys_init vs) = 9 * length vs + 4"
    by (simp add: work_left_def qsys_init_def)
  with qrun_bound[OF assms conc_inv_init] have "n \<le> 9 * length vs + 4" by simp
  with conc_progress[OF conc_inv_run[OF assms conc_inv_init]] show ?thesis by blast
qed

theorem concurrent_delivery_witness:
  "qrun 1 (qsys_init [7]) ((qsys_init [7])\<lparr>pp := PStore 7, todo := []\<rparr>) \<and> 1 \<le> 9 * length [7 :: 64 word] + 4"
  using first_step_run concurrent_delivery[OF first_step_run] by blast

end
