(* ===== verification/Simd.thy ===== *)
theory Simd
  imports Layout
begin

unbundle bit_operations_syntax

section \<open>128-bit vectors\<close>

text \<open>
  The SSE intrinsics the page routines use, on 128-bit words whose byte \<open>i\<close> is \<open>lane v i\<close>
  (\<open>emmintrin.h\<close>, \<open>smmintrin.h\<close>: the compiler's view of the instruction set, like the C++ operators).
  Arrays of bytes that are not part of the application's address space (the data of a packet chunk)
  are functions from indices to bytes; \<open>arr64\<close> is the 8-byte load \<open>*(uint64_t*)&a[i]\<close>.
\<close>

type_synonym bytes = "nat \<Rightarrow> byte"
type_synonym m128 = "128 word"

definition of_lanes :: "(nat \<Rightarrow> byte) \<Rightarrow> m128" where
  "of_lanes f = load_le 16 (\<lambda>a. f (unat a)) 0"

definition mm_set_epi32 :: "32 word \<Rightarrow> 32 word \<Rightarrow> 32 word \<Rightarrow> 32 word \<Rightarrow> m128" where
  "mm_set_epi32 e3 e2 e1 e0 =
     push_bit 96 (ucast e3) OR push_bit 64 (ucast e2) OR push_bit 32 (ucast e1) OR ucast e0"

definition mm_set1_epi8 :: "byte \<Rightarrow> m128" where
  "mm_set1_epi8 b = of_lanes (\<lambda>_. b)"

definition mm_sub_epi8 :: "m128 \<Rightarrow> m128 \<Rightarrow> m128" where
  "mm_sub_epi8 a b = of_lanes (\<lambda>i. lane a i - lane b i)"

definition mm_andnot :: "m128 \<Rightarrow> m128 \<Rightarrow> m128" where
  "mm_andnot a b = NOT a AND b"

definition mm_test_all_zeros :: "m128 \<Rightarrow> m128 \<Rightarrow> bool" where
  "mm_test_all_zeros a msk \<longleftrightarrow> a AND msk = 0"

definition mm_testz :: "m128 \<Rightarrow> m128 \<Rightarrow> bool" where
  "mm_testz a b \<longleftrightarrow> a AND b = 0"

text \<open>\<open>_mm_maskmoveu_si128\<close>: store the bytes whose msk byte has its top bit set.\<close>

definition mm_maskmoveu :: "m128 \<Rightarrow> m128 \<Rightarrow> addr \<Rightarrow> mem \<Rightarrow> mem" where
  "mm_maskmoveu d msk p m =
     fold (\<lambda>i m. if bit (lane msk i) 7 then m(p + of_nat i := lane d i) else m) [0..<16] m"

definition arr64 :: "bytes \<Rightarrow> nat \<Rightarrow> 64 word" where
  "arr64 a i = load_le 8 (\<lambda>x. a (unat x)) (of_nat i)"

text \<open>The code's way of building a vector from two 64-bit values.\<close>

definition mm_from64 :: "64 word \<Rightarrow> 64 word \<Rightarrow> m128" where
  "mm_from64 hi lo = mm_set_epi32 (ucast (drop_bit 32 hi)) (ucast hi) (ucast (drop_bit 32 lo)) (ucast lo)"

lemma lane_of_lanes [simp]: "i < 16 \<Longrightarrow> lane (of_lanes f) i = f i"
  by (simp add: of_lanes_def lane_load_le unat_of_nat)

lemma lane_arr64: "j < 8 \<Longrightarrow> i + j < 2 ^ 64 \<Longrightarrow> lane (arr64 a i) j = a (i + j)"
proof -
  assume j: "j < 8" and b: "i + j < 2 ^ 64"
  have "unat (of_nat i + of_nat j :: addr) = i + j"
    using b by (simp add: unat_of_nat flip: of_nat_add)
  then show ?thesis using j by (simp add: arr64_def lane_load_le)
qed

lemma lane_mm_from64:
  assumes "i < 16"
  shows "lane (mm_from64 hi lo) i = (if i < 8 then lane lo i else lane hi (i - 8))"
proof (rule bit_word_eqI)
  fix n assume n: "n < LENGTH(8)"
  then have n8: "n < 8" by simp
  consider "i < 4" | "4 \<le> i" "i < 8" | "8 \<le> i" "i < 12" | "12 \<le> i" using assms by linarith
  then show "bit (lane (mm_from64 hi lo) i) n = bit (if i < 8 then lane lo i else lane hi (i - 8)) n"
  proof cases
    case 1
    then have "8 * i + n < 32" using n8 by linarith
    with 1 show ?thesis
      by (auto simp: mm_from64_def mm_set_epi32_def bit_lane bit_simps)
  next
    case 2
    then have "\<not> 8 * i + n < 32" "8 * i + n < 64" using n8 by linarith+
    with 2 n8 show ?thesis
      by (auto simp: mm_from64_def mm_set_epi32_def bit_lane bit_simps not_less)
  next
    case 3
    then have "\<not> 8 * i + n < 64" "8 * i + n < 96" "8 * (i - 8) + n = 8 * i + n - 64"
      using n8 by linarith+
    with 3 n8 show ?thesis
      by (auto simp: mm_from64_def mm_set_epi32_def bit_lane bit_simps not_less)
  next
    case 4
    then have "\<not> 8 * i + n < 96" "8 * i + n < 128" "8 * (i - 8) + n = 32 + (8 * i + n - 96)"
      using n8 assms by linarith+
    with 4 n8 show ?thesis
      by (auto simp: mm_from64_def mm_set_epi32_def bit_lane bit_simps not_less)
  qed
qed

lemma mm_maskmoveu_apply:
  "mm_maskmoveu d msk p m x =
     (if unat (x - p) < 16 \<and> bit (lane msk (unat (x - p))) 7 then lane d (unat (x - p)) else m x)"
proof -
  have "fold (\<lambda>i m. if bit (lane msk i) 7 then m(p + of_nat i := lane d i) else m) [0..<k] m x =
        (if unat (x - p) < k \<and> bit (lane msk (unat (x - p))) 7 then lane d (unat (x - p)) else m x)"
    if "k \<le> 16" for k
    using that
  proof (induction k)
    case 0
    then show ?case by simp
  next
    case (Suc k)
    have "x = p + of_nat k \<longleftrightarrow> unat (x - p) = k"
    proof
      assume "x = p + of_nat k"
      then show "unat (x - p) = k" using Suc.prems by (simp add: unat_of_nat)
    next
      assume "unat (x - p) = k"
      then show "x = p + of_nat k" using eq_add_of_nat_unat[of x p] by simp
    qed
    then show ?case using Suc by (auto simp: less_Suc_eq)
  qed
  from this[of 16] show ?thesis by (simp add: mm_maskmoveu_def)
qed

lemma lane_zero [simp]: "lane 0 i = 0"
  by (rule bit_word_eqI) (simp add: bit_lane)

lemma zero_lanes:
  fixes v :: "'a::len word"
  assumes "LENGTH('a) = 8 * k"
  shows "v = 0 \<longleftrightarrow> (\<forall>i < k. lane v i = 0)"
  using lane_eqI[OF assms, of v 0] by auto

lemma zero_lanes_iff: "(v :: m128) = 0 \<longleftrightarrow> (\<forall>i < 16. lane v i = 0)"
  by (rule zero_lanes) simp

lemma zero_lanes64_iff: "(v :: 64 word) = 0 \<longleftrightarrow> (\<forall>i < 8. lane v i = 0)"
  by (rule zero_lanes) simp

text \<open>Shifting a 64-bit word left by 6 (7) moves bit 1 (bit 0) of every byte to its top bit.\<close>

lemma bit7_shift:
  assumes "i < 8" "s \<le> 7"
  shows "bit (lane (push_bit s w :: 64 word) i) 7 \<longleftrightarrow> bit (lane w i) (7 - s)"
proof -
  have "8 * i + 7 < 64" "s \<le> 8 * i + 7" "8 * i + 7 - s = 8 * i + (7 - s)" using assms by linarith+
  then show ?thesis using assms(2) unfolding bit_lane bit_push_bit_iff by (auto simp: possible_bit_word)
qed

end
