(* ===== verification/Strategy.thy ===== *)
theory Strategy
  imports Layout
begin

section \<open>Pipeline strategy: stages and workers\<close>

text \<open>
  Models \<open>strategy.cpp\<close>, the macros of \<open>include/internals/strategy.h\<close> and the two functions of
  \<open>loopevent.cpp\<close> that decide who runs an iteration. The compiler announces the number of workers
  of each pipeline stage; workers are numbered stage by stage, and iteration \<open>i\<close> of a stage with
  \<open>r\<close> replicas is run by the replica \<open>i mod r\<close>.

  The tables have \<open>unsigned\<close> elements; worker and stage numbers stay far below $2^{32}$ and are
  natural numbers here. \<open>malloc\<close>ed tables are lists of their size; a write outside is
  \<open>OutOfRange\<close>.
\<close>

record strategy =
  num_stages :: nat
  stage2rep :: "nat list"
  wid2stage :: "nat list"
  stage2firstwid :: "nat list"

definition GET_MY_STAGE :: "'a strategy_scheme \<Rightarrow> wid \<Rightarrow> nat" where
  "GET_MY_STAGE s w = wid2stage s ! w"

definition GET_NUM_STAGES :: "'a strategy_scheme \<Rightarrow> nat" where
  "GET_NUM_STAGES s = num_stages s"

definition GET_FIRST_WID_OF_STAGE :: "'a strategy_scheme \<Rightarrow> nat \<Rightarrow> wid" where
  "GET_FIRST_WID_OF_STAGE s st = stage2firstwid s ! st"

definition GET_REPLICATION_FACTOR :: "'a strategy_scheme \<Rightarrow> nat \<Rightarrow> nat" where
  "GET_REPLICATION_FACTOR s st = stage2rep s ! st"

definition GET_WID_OFFSET_IN_STAGE :: "'a strategy_scheme \<Rightarrow> nat \<Rightarrow> nat \<Rightarrow> nat" where
  "GET_WID_OFFSET_IN_STAGE s iter st = iter mod (stage2rep s ! st)"

lemmas get_defs = GET_MY_STAGE_def GET_NUM_STAGES_def GET_FIRST_WID_OF_STAGE_def
  GET_REPLICATION_FACTOR_def GET_WID_OFFSET_IN_STAGE_def

subsection \<open>Announcing a strategy\<close>

definition array_write :: "nat list \<Rightarrow> nat \<Rightarrow> nat \<Rightarrow> nat list res" where
  "array_write xs i v = (if i < length xs then Inr (xs[i := v]) else Inl OutOfRange)"

text \<open>The inner loop: \<open>rep\<close> times \<open>wid2stage[wid++] = i\<close>.\<close>

fun fill_stage :: "nat \<Rightarrow> nat \<Rightarrow> nat \<times> nat list \<Rightarrow> (nat \<times> nat list) res" where
  "fill_stage i 0 (wid, w2s) = Inr (wid, w2s)"
| "fill_stage i (Suc r) (wid, w2s) =
     rbind (array_write w2s wid i) (\<lambda>w2s'. fill_stage i r (Suc wid, w2s'))"

text \<open>The outer loop over the stages; the result is the final \<open>wid\<close> and the two tables.\<close>

fun fill_stages :: "nat \<Rightarrow> nat list \<Rightarrow> nat \<Rightarrow> nat list \<Rightarrow> nat list \<Rightarrow>
    (nat \<times> nat list \<times> nat list) res" where
  "fill_stages i [] wid w2s s2f = Inr (wid, w2s, s2f)"
| "fill_stages i (r # rs) wid w2s s2f =
     rbind (array_write s2f i wid) (\<lambda>s2f'.
     rbind (fill_stage i r (wid, w2s)) (\<lambda>(wid', w2s').
     fill_stages (Suc i) rs wid' w2s' s2f'))"

text \<open>
  \<open>reps\<close> are the variadic arguments. Both worker-indexed tables are allocated with
  \<open>num_workers\<close> elements (\<open>stage2firstwid\<close> too, although it is indexed by stage).
\<close>

definition inform_strategy :: "nat \<Rightarrow> nat list \<Rightarrow> strategy res" where
  "inform_strategy num_workers reps =
     rbind (fill_stages 0 reps 0 (replicate num_workers 0) (replicate num_workers 0))
       (\<lambda>(wid, w2s, s2f).
          if wid = num_workers
          then Inr \<lparr>num_stages = length reps, stage2rep = reps, wid2stage = w2s, stage2firstwid = s2f\<rparr>
          else Inl AssertFailed)"

subsection \<open>Who runs an iteration\<close>

definition run_iteration :: "'a strategy_scheme \<Rightarrow> wid \<Rightarrow> iteration \<Rightarrow> bool" where
  "run_iteration s wid iter =
     (let stage = GET_MY_STAGE s wid;
          wid_offset = wid_of_iter iter mod GET_REPLICATION_FACTOR s stage;
          target_wid = GET_FIRST_WID_OF_STAGE s stage + wid_offset
      in target_wid = wid)"

definition pipeline_fill_iter :: "'a strategy_scheme \<Rightarrow> wid \<Rightarrow> iteration \<Rightarrow> bool" where
  "pipeline_fill_iter s wid iter =
     (let stage = GET_MY_STAGE s wid
      in (GET_FIRST_WID_OF_STAGE s stage + wid_of_iter iter) mod 2 ^ 32 < wid)"

text \<open>The worker that runs iteration \<open>iter\<close> of stage \<open>st\<close>, as every sender and receiver computes it.\<close>

definition worker_of :: "'a strategy_scheme \<Rightarrow> nat \<Rightarrow> iteration \<Rightarrow> wid" where
  "worker_of s st iter =
     GET_FIRST_WID_OF_STAGE s st + wid_of_iter iter mod GET_REPLICATION_FACTOR s st"

subsection \<open>The contract of a strategy\<close>

text \<open>
  What the rest of the runtime relies on: stages own consecutive, non-empty, disjoint blocks of
  worker numbers, and \<open>stage_of\<close> inverts that partition.
\<close>

locale pipeline =
  fixes ok :: "'s \<Rightarrow> bool"
    and stages workers :: "'s \<Rightarrow> nat"
    and stage_of :: "'s \<Rightarrow> nat \<Rightarrow> nat"
    and first_of rep_of :: "'s \<Rightarrow> nat \<Rightarrow> nat"
  assumes rep_pos: "ok s \<Longrightarrow> st < stages s \<Longrightarrow> 0 < rep_of s st"
    and block_bound: "ok s \<Longrightarrow> st < stages s \<Longrightarrow> first_of s st + rep_of s st \<le> workers s"
    and stage_bound: "ok s \<Longrightarrow> w < workers s \<Longrightarrow> stage_of s w < stages s"
    and stage_iff: "ok s \<Longrightarrow> st < stages s \<Longrightarrow> w < workers s \<Longrightarrow>
          stage_of s w = st \<longleftrightarrow> first_of s st \<le> w \<and> w < first_of s st + rep_of s st"
begin

lemma worker_in_block:
  assumes "ok s" "st < stages s"
  shows "first_of s st + n mod rep_of s st < workers s"
    and "stage_of s (first_of s st + n mod rep_of s st) = st"
proof -
  have lt: "n mod rep_of s st < rep_of s st" using rep_pos[OF assms] by simp
  with block_bound[OF assms] show w: "first_of s st + n mod rep_of s st < workers s" by linarith
  from lt show "stage_of s (first_of s st + n mod rep_of s st) = st"
    using stage_iff[OF assms w] by simp
qed

text \<open>Exactly one worker of a stage is the replica of a given iteration number.\<close>

lemma unique_replica:
  assumes "ok s" "st < stages s"
  shows "\<exists>!w. w < workers s \<and> stage_of s w = st \<and>
           first_of s (stage_of s w) + n mod rep_of s (stage_of s w) = w"
proof (rule ex1I)
  let ?w = "first_of s st + n mod rep_of s st"
  show "?w < workers s \<and> stage_of s ?w = st \<and>
          first_of s (stage_of s ?w) + n mod rep_of s (stage_of s ?w) = ?w"
    by (simp only: worker_in_block[OF assms] simp_thms)
  fix w
  assume "w < workers s \<and> stage_of s w = st \<and>
            first_of s (stage_of s w) + n mod rep_of s (stage_of s w) = w"
  then have "stage_of s w = st" "first_of s (stage_of s w) + n mod rep_of s (stage_of s w) = w"
    by blast+
  then show "w = ?w" by (simp only:)
qed

text \<open>Worker numbers grow with the stage.\<close>

lemma later_stage_later_wid:
  assumes ok: "ok s" and w: "w < workers s" "w' < workers s"
    and first_mono: "first_of s (stage_of s w) + rep_of s (stage_of s w) \<le> first_of s (stage_of s w')"
  shows "w < w'"
proof -
  from stage_iff[OF ok stage_bound[OF ok w(1)] w(1)]
  have "w < first_of s (stage_of s w) + rep_of s (stage_of s w)" by simp
  moreover from stage_iff[OF ok stage_bound[OF ok w(2)] w(2)]
  have "first_of s (stage_of s w') \<le> w'" by simp
  ultimately show ?thesis using first_mono by linarith
qed

end

text \<open>The tables a successful \<open>inform_strategy\<close> builds.\<close>

definition strategy_wf :: "'a strategy_scheme \<Rightarrow> bool" where
  "strategy_wf s \<longleftrightarrow>
     length (stage2rep s) = num_stages s \<and>
     num_stages s \<le> length (stage2firstwid s) \<and>
     (\<forall>st < num_stages s. 0 < stage2rep s ! st \<and>
        stage2firstwid s ! st = sum_list (take st (stage2rep s))) \<and>
     wid2stage s = concat (map (\<lambda>st. replicate (stage2rep s ! st) st) [0..<num_stages s])"

definition strategy_workers :: "'a strategy_scheme \<Rightarrow> nat" where
  "strategy_workers s = length (wid2stage s)"

lemma length_blocks:
  "length (concat (map (\<lambda>st. replicate (f st) st) [0..<n])) = sum_list (map f [0..<n])"
  by (induction n) auto

lemma blocks_nth:
  assumes "w < sum_list (map f [0..<n])" "st < n"
  shows "concat (map (\<lambda>st. replicate (f st) st) [0..<n]) ! w = st \<longleftrightarrow>
         sum_list (map f [0..<st]) \<le> w \<and> w < sum_list (map f [0..<Suc st])"
  using assms
proof (induction n arbitrary: st)
  case 0
  then show ?case by simp
next
  case (Suc n)
  let ?c = "\<lambda>n. concat (map (\<lambda>st. replicate (f st) st) [0..<n])"
  have split: "?c (Suc n) = ?c n @ replicate (f n) n" by simp
  have len: "length (?c n) = sum_list (map f [0..<n])" by (rule length_blocks)
  show ?case
  proof (cases "w < sum_list (map f [0..<n])")
    case True
    have ne: "?c n ! w < n"
    proof -
      have "?c n ! w \<in> set (?c n)" by (rule nth_mem) (simp only: len True)
      then show ?thesis by auto
    qed
    show ?thesis
    proof (cases "st = n")
      case True
      then show ?thesis using \<open>w < sum_list (map f [0..<n])\<close> ne len
        by (simp add: split nth_append)
    next
      case False
      then show ?thesis using True Suc.IH[of st] Suc.prems(2) len by (simp add: split nth_append)
    qed
  next
    case False
    then have c: "?c (Suc n) ! w = n" using Suc.prems(1) len by (simp add: split nth_append)
    have mono: "sum_list (map f [0..<Suc st]) \<le> sum_list (map f [0..<n])" if "st < n"
    proof -
      have "[0..<n] = [0..<Suc st] @ [Suc st..<n]"
        using that by (metis Suc_leI le_add_diff_inverse upt_add_eq_append zero_le)
      then show ?thesis by (simp del: upt_Suc)
    qed
    show ?thesis using c False mono Suc.prems by (cases "st = n") (auto simp: not_less)
  qed
qed

lemma sum_take_reps:
  "st \<le> length rs \<Longrightarrow> sum_list (take st rs) = sum_list (map ((!) rs) [0..<st])"
  by (induction st) (auto simp: take_Suc_conv_app_nth)

lemma strategy_workers_sum:
  "strategy_wf s \<Longrightarrow> strategy_workers s = sum_list (map ((!) (stage2rep s)) [0..<num_stages s])"
  by (simp add: strategy_wf_def strategy_workers_def length_blocks)

interpretation strat: pipeline strategy_wf num_stages strategy_workers GET_MY_STAGE
  GET_FIRST_WID_OF_STAGE GET_REPLICATION_FACTOR
proof
  fix s :: "'a strategy_scheme" and st assume s: "strategy_wf s" and st: "st < num_stages s"
  then show "0 < GET_REPLICATION_FACTOR s st"
    by (simp add: strategy_wf_def GET_REPLICATION_FACTOR_def)
  have "sum_list (map ((!) (stage2rep s)) [0..<Suc st]) \<le> strategy_workers s"
  proof -
    have "[0..<num_stages s] = [0..<Suc st] @ [Suc st..<num_stages s]"
      using st by (metis Suc_leI le_add_diff_inverse upt_add_eq_append zero_le)
    then show ?thesis using strategy_workers_sum[OF s] by (simp del: upt_Suc)
  qed
  with s st show "GET_FIRST_WID_OF_STAGE s st + GET_REPLICATION_FACTOR s st \<le> strategy_workers s"
    by (simp add: strategy_wf_def get_defs sum_take_reps)
next
  fix s :: "'a strategy_scheme" and w assume s: "strategy_wf s" and w: "w < strategy_workers s"
  then have "wid2stage s ! w \<in> set (wid2stage s)" by (simp add: strategy_workers_def)
  with s show "GET_MY_STAGE s w < num_stages s" by (auto simp: strategy_wf_def get_defs)
next
  fix s :: "'a strategy_scheme" and st w
  assume s: "strategy_wf s" and st: "st < num_stages s" and w: "w < strategy_workers s"
  from w have "w < sum_list (map ((!) (stage2rep s)) [0..<num_stages s])"
    using strategy_workers_sum[OF s] by simp
  from blocks_nth[OF this st] s st
  show "GET_MY_STAGE s w = st \<longleftrightarrow>
      GET_FIRST_WID_OF_STAGE s st \<le> w \<and> w < GET_FIRST_WID_OF_STAGE s st + GET_REPLICATION_FACTOR s st"
    by (simp add: strategy_wf_def get_defs sum_take_reps)
qed

subsection \<open>What \<open>inform_strategy\<close> builds\<close>

lemma fill_stage_ok:
  assumes "wid + r \<le> length w2s"
  shows "fill_stage i r (wid, w2s) = Inr (wid + r, take wid w2s @ replicate r i @ drop (wid + r) w2s)"
  using assms
proof (induction r arbitrary: wid w2s)
  case 0
  then show ?case by simp
next
  case (Suc r)
  then have "take (Suc wid) (w2s[wid := i]) = take wid w2s @ [i]"
    by (simp add: take_Suc_conv_app_nth)
  with Suc show ?case
    by (simp add: array_write_def replicate_app_Cons_same)
qed

lemma fill_stage_wid: "fill_stage i r (wid, w2s) = Inr (wid', w2s') \<Longrightarrow> wid' = wid + r"
  by (induction r arbitrary: wid w2s) (fastforce simp: array_write_def split: if_splits)+

lemma fill_stages_wid:
  "fill_stages i rs wid w2s s2f = Inr (wid', w2s', s2f') \<Longrightarrow> wid' = wid + sum_list rs"
proof (induction rs arbitrary: i wid w2s s2f)
  case Nil
  then show ?case by simp
next
  case (Cons r rs)
  then obtain w u t where "fill_stage i r (wid, w2s) = Inr (w, u)"
      "fill_stages (Suc i) rs w u t = Inr (wid', w2s', s2f')"
    by (auto simp: rbind_eq_Inr)
  with Cons.IH[of "Suc i" w u t] show ?case by (auto dest: fill_stage_wid)
qed

definition stage_block :: "nat \<Rightarrow> nat list \<Rightarrow> nat list" where
  "stage_block i rs = concat (map (\<lambda>k. replicate (rs ! k) (i + k)) [0..<length rs])"

lemma stage_block_Cons: "stage_block i (r # rs) = replicate r i @ stage_block (Suc i) rs"
proof -
  have "[0..<length (r # rs)] = 0 # map Suc [0..<length rs]"
    by (simp add: map_Suc_upt upt_conv_Cons del: upt_Suc)
  then show ?thesis by (simp add: stage_block_def comp_def del: upt_Suc)
qed

lemma fill_stages_ok:
  assumes "wid + sum_list rs \<le> length w2s" "i + length rs \<le> length s2f"
  shows "\<exists>s2f'. fill_stages i rs wid w2s s2f =
           Inr (wid + sum_list rs,
                take wid w2s @ stage_block i rs @ drop (wid + sum_list rs) w2s, s2f') \<and>
           length s2f' = length s2f \<and> (\<forall>k < i. s2f' ! k = s2f ! k) \<and>
           (\<forall>k < length rs. s2f' ! (i + k) = wid + sum_list (take k rs))"
  using assms
proof (induction rs arbitrary: i wid w2s s2f)
  case Nil
  then show ?case by (simp add: stage_block_def)
next
  case (Cons r rs)
  define w2s' where "w2s' = take wid w2s @ replicate r i @ drop (wid + r) w2s"
  have fs: "fill_stage i r (wid, w2s) = Inr (wid + r, w2s')"
    unfolding w2s'_def using Cons.prems(1) by (intro fill_stage_ok) simp
  have len: "length w2s' = length w2s" using Cons.prems(1) by (simp add: w2s'_def)
  have aw: "array_write s2f i wid = Inr (s2f[i := wid])"
    using Cons.prems(2) by (simp add: array_write_def)
  from Cons.IH[of "wid + r" w2s' "Suc i" "s2f[i := wid]"] Cons.prems len
  obtain s2f' where ih: "fill_stages (Suc i) rs (wid + r) w2s' (s2f[i := wid]) =
           Inr (wid + r + sum_list rs,
                take (wid + r) w2s' @ stage_block (Suc i) rs @ drop (wid + r + sum_list rs) w2s', s2f')"
      "length s2f' = length s2f" "\<forall>k < Suc i. s2f' ! k = s2f[i := wid] ! k"
      "\<forall>k < length rs. s2f' ! (Suc i + k) = wid + r + sum_list (take k rs)"
    by auto
  have tk: "take (wid + r) w2s' = take wid w2s @ replicate r i"
    using Cons.prems(1) by (simp add: w2s'_def)
  have dr: "drop (wid + r + sum_list rs) w2s' = drop (wid + r + sum_list rs) w2s"
    using Cons.prems(1) by (simp add: w2s'_def ac_simps)
  have entries: "\<forall>k < length (r # rs). s2f' ! (i + k) = wid + sum_list (take k (r # rs))"
  proof (intro allI impI)
    fix k assume "k < length (r # rs)"
    then show "s2f' ! (i + k) = wid + sum_list (take k (r # rs))"
      using ih(3,4) Cons.prems(2) by (cases k) auto
  qed
  show ?case
    using ih entries Cons.prems(2) by (auto simp: aw fs stage_block_Cons tk dr[unfolded add.assoc] add.assoc)
qed

lemma inform_strategy_ok:
  assumes "sum_list reps = num_workers" "\<forall>r \<in> set reps. 0 < r"
  obtains s where "inform_strategy num_workers reps = Inr s" "strategy_wf s"
    "num_stages s = length reps" "stage2rep s = reps" "strategy_workers s = num_workers"
proof -
  have "length reps \<le> sum_list reps" using assms(2)
    by (induction reps) (auto simp: Suc_le_eq intro: add_le_less_mono add_less_le_mono)
  with assms(1) have len: "length reps \<le> num_workers" by simp
  from fill_stages_ok[of 0 reps "replicate num_workers 0" 0 "replicate num_workers 0"] assms(1) len
  obtain s2f where f: "fill_stages 0 reps 0 (replicate num_workers 0) (replicate num_workers 0) =
       Inr (num_workers, stage_block 0 reps, s2f)"
     "length s2f = num_workers" "\<forall>k < length reps. s2f ! k = sum_list (take k reps)"
    by auto
  let ?s = "\<lparr>num_stages = length reps, stage2rep = reps, wid2stage = stage_block 0 reps,
             stage2firstwid = s2f\<rparr>"
  have "strategy_wf ?s" using f len assms(2) by (auto simp: strategy_wf_def stage_block_def)
  moreover have "strategy_workers ?s = num_workers"
    using assms(1) by (simp add: strategy_workers_def stage_block_def length_blocks map_nth)
  ultimately show ?thesis using that[of ?s] f by (simp add: inform_strategy_def)
qed

lemma inform_strategy_workers: "inform_strategy n reps = Inr s \<Longrightarrow> sum_list reps = n"
  by (auto simp: inform_strategy_def rbind_eq_Inr split: if_splits dest: fill_stages_wid)

lemma run_iteration_worker:
  "run_iteration s w iter \<longleftrightarrow> w = worker_of s (GET_MY_STAGE s w) iter"
  by (auto simp: run_iteration_def worker_of_def Let_def)

text \<open>The test \<open>end_iter\<close> makes before it sends the EOI packet is \<open>run_iteration\<close>.\<close>

lemma eoi_test_iff:
  assumes "strategy_wf s" "w < strategy_workers s"
  shows "w - GET_FIRST_WID_OF_STAGE s (GET_MY_STAGE s w) =
           GET_WID_OFFSET_IN_STAGE s (wid_of_iter iter) (GET_MY_STAGE s w) \<longleftrightarrow>
         run_iteration s w iter"
proof -
  have "GET_FIRST_WID_OF_STAGE s (GET_MY_STAGE s w) \<le> w"
    using strat.stage_iff[OF assms(1) strat.stage_bound[OF assms] assms(2)] by simp
  then show ?thesis
    by (auto simp: run_iteration_def Let_def GET_WID_OFFSET_IN_STAGE_def GET_REPLICATION_FACTOR_def)
qed

text \<open>The blocks are laid out in the order of the stages.\<close>

lemma first_wid_mono:
  assumes "strategy_wf s" "st < st'" "st' < num_stages s"
  shows "GET_FIRST_WID_OF_STAGE s st + GET_REPLICATION_FACTOR s st \<le> GET_FIRST_WID_OF_STAGE s st'"
proof -
  from assms have w: "length (stage2rep s) = num_stages s"
      "stage2firstwid s ! st = sum_list (take st (stage2rep s))"
      "stage2firstwid s ! st' = sum_list (take st' (stage2rep s))"
    by (auto simp: strategy_wf_def)
  have "take st' (stage2rep s) = take (Suc st) (stage2rep s) @ take (st' - Suc st) (drop (Suc st) (stage2rep s))"
    using assms(2) by (metis Suc_leI le_add_diff_inverse take_add)
  then have "sum_list (take (Suc st) (stage2rep s)) \<le> sum_list (take st' (stage2rep s))" by simp
  moreover have "sum_list (take (Suc st) (stage2rep s)) = sum_list (take st (stage2rep s)) + stage2rep s ! st"
    using assms(2,3) w(1) by (simp add: take_Suc_conv_app_nth)
  ultimately show ?thesis using w by (simp add: get_defs)
qed

subsection \<open>Properties\<close>

text \<open>C5. \<open>inform_strategy\<close> accepts a strategy of non-empty stages exactly when the replication factors
  add up to the announced number of workers, and then the tables it builds give stage \<open>st\<close> the
  consecutive block of \<open>reps ! st\<close> worker numbers that starts at its first worker, each worker
  belonging to exactly the stage whose block holds it.\<close>

theorem inform_strategy_partition:
  assumes "\<forall>r \<in> set reps. 0 < r"
  shows "((\<exists>s. inform_strategy n reps = Inr s) \<longleftrightarrow> sum_list reps = n) \<and>
         (\<forall>s st w. inform_strategy n reps = Inr s \<and> st < length reps \<and> w < n \<longrightarrow>
           GET_REPLICATION_FACTOR s st = reps ! st \<and>
           GET_FIRST_WID_OF_STAGE s st = sum_list (take st reps) \<and>
           (GET_MY_STAGE s w = st \<longleftrightarrow>
              sum_list (take st reps) \<le> w \<and> w < sum_list (take (Suc st) reps)))"
proof (intro conjI allI impI; (elim conjE)?)
  show "(\<exists>s. inform_strategy n reps = Inr s) \<longleftrightarrow> sum_list reps = n"
    using inform_strategy_workers inform_strategy_ok[OF _ assms, of n] by metis
next
  fix s st w
  assume a: "inform_strategy n reps = Inr s" "st < length reps" "w < n"
  from inform_strategy_ok[OF inform_strategy_workers[OF a(1)] assms] a(1)
  have s: "strategy_wf s" "num_stages s = length reps" "stage2rep s = reps" "strategy_workers s = n"
    by auto
  with a(2) show r: "GET_REPLICATION_FACTOR s st = reps ! st"
      and f: "GET_FIRST_WID_OF_STAGE s st = sum_list (take st reps)"
    by (auto simp: get_defs strategy_wf_def)
  with strat.stage_iff[OF s(1), of st w] a(2,3) s
  show "GET_MY_STAGE s w = st \<longleftrightarrow> sum_list (take st reps) \<le> w \<and> w < sum_list (take (Suc st) reps)"
    by (simp add: take_Suc_conv_app_nth)
qed

theorem inform_strategy_partition_witness:
  "\<exists>s. inform_strategy 5 [1, 3, 1] = Inr s \<and> GET_MY_STAGE s 3 = 1"
  using inform_strategy_partition[of "[1, 3, 1]" 5] by (auto simp: eval_nat_numeral)

text \<open>C9. Every iteration of every stage is run by exactly one worker, the one every sender and receiver
  computes as \<open>worker_of\<close>.\<close>

theorem one_worker_per_iteration:
  assumes "inform_strategy n reps = Inr s" "\<forall>r \<in> set reps. 0 < r" "st < length reps"
  shows "(\<exists>!w. w < n \<and> GET_MY_STAGE s w = st \<and> run_iteration s w iter) \<and>
         worker_of s st iter < n \<and> GET_MY_STAGE s (worker_of s st iter) = st \<and>
         run_iteration s (worker_of s st iter) iter"
proof -
  from inform_strategy_ok[OF inform_strategy_workers[OF assms(1)] assms(2)] assms(1)
  have s: "strategy_wf s" "num_stages s = length reps" "strategy_workers s = n" by auto
  have st: "st < num_stages s" using assms(3) s(2) by simp
  from strat.unique_replica[OF s(1) st, of "wid_of_iter iter"] s(3)
  have "\<exists>!w. w < n \<and> GET_MY_STAGE s w = st \<and> run_iteration s w iter"
    by (simp add: run_iteration_def Let_def)
  moreover from strat.worker_in_block[OF s(1) st, of "wid_of_iter iter"] s(3)
  have "worker_of s st iter < n \<and> GET_MY_STAGE s (worker_of s st iter) = st \<and>
         run_iteration s (worker_of s st iter) iter"
    by (simp add: worker_of_def run_iteration_worker)
  ultimately show ?thesis by blast
qed

theorem one_worker_per_iteration_witness:
  "\<exists>s. inform_strategy 4 [1, 3] = Inr s \<and> (\<exists>!w. w < 4 \<and> GET_MY_STAGE s w = 1 \<and> run_iteration s w 5)"
proof -
  obtain s where s: "inform_strategy 4 [1, 3] = Inr s"
    by (rule inform_strategy_ok[of "[1, 3]" 4]) auto
  show ?thesis using one_worker_per_iteration[OF s, of 1 5] s by auto
qed

end
