(* ===== verification/Packet.thy ===== *)
theory Packet
  imports Simd Strategy
begin

unbundle bit_operations_syntax

section \<open>Packets and their pools\<close>

text \<open>
  Models \<open>smtx/packet.cpp\<close> and \<open>packet.h\<close>. Packets and packet chunks live in shared memory, in one
  pool per process plus one packet pool of the commit process; queues carry their addresses. A
  packet is free when its \<open>ptr\<close> is null, a chunk when the 64 bytes of its signature are zero. The two
  allocation routines walk their pool from the slot after the last one they handed out, wrapping
  at the end, until they meet a free slot.

  The stores \<open>packets\<close> and \<open>chunks\<close> map an address to the object that starts there; objects are only
  ever reached through slot addresses. The walk visits every slot once in \<open>PACKET_POOL_SIZE\<close> rounds,
  so a walk of that length that meets no free slot can only be ended by another process: \<open>Spin\<close>.
  What \<open>mmap\<close> returns is an argument of \<open>init_packets\<close>.
\<close>

record packet =
  ptr :: addr
  pval :: "64 word"
  psize :: "32 word"
  is_write :: int
  pkind :: ptype
  psign :: "64 word"

record packet_chunk =
  csign :: bytes
  cdata :: bytes

definition sizeof_packet :: nat where "sizeof_packet = 32"
definition sizeof_packet_chunk :: nat where "sizeof_packet_chunk = 64 + PAGE_SIZE"

record packet_state = strategy +
  packet_begins :: "addr list"
  packet_ends :: "addr list"
  packet_nexts :: "addr list"
  packet_chunk_begins :: "addr list"
  packet_chunk_ends :: "addr list"
  packet_chunk_nexts :: "addr list"
  commit_process_packet_begin :: addr
  commit_process_packet_end :: addr
  commit_process_packet_next :: addr
  packets :: "addr \<Rightarrow> packet"
  chunks :: "addr \<Rightarrow> packet_chunk"

text \<open>Fresh anonymous memory is zero: null pointers, type 0 (\<open>NORMAL\<close>), zero signatures.\<close>

definition zero_packet :: packet where
  "zero_packet = \<lparr>ptr = 0, pval = 0, psize = 0, is_write = 0, pkind = NORMAL, psign = 0\<rparr>"

definition zero_chunk :: packet_chunk where
  "zero_chunk = \<lparr>csign = (\<lambda>_. 0), cdata = (\<lambda>_. 0)\<rparr>"

text \<open>\<open>pk\<close>, \<open>cm\<close> and \<open>ck\<close> are the addresses \<open>mmap\<close> returns for the pools, in the order of the calls.\<close>

definition init_packets :: "nat \<Rightarrow> addr list \<Rightarrow> addr \<Rightarrow> addr list \<Rightarrow> 'a packet_state_scheme \<Rightarrow> 'a packet_state_scheme" where
  "init_packets n_all_workers pk cm ck s =
     (let size = of_nat (sizeof_packet * PACKET_POOL_SIZE);
          csize = of_nat (sizeof_packet_chunk * PACKET_POOL_SIZE);
          bs = take n_all_workers pk;
          cs = take n_all_workers ck
      in s\<lparr>packet_begins := bs, packet_nexts := bs, packet_ends := map (\<lambda>b. b + size) bs,
           commit_process_packet_begin := cm, commit_process_packet_next := cm,
           commit_process_packet_end := cm + size,
           packet_chunk_begins := cs, packet_chunk_nexts := cs,
           packet_chunk_ends := map (\<lambda>b. b + csize) cs,
           packets := (\<lambda>_. zero_packet), chunks := (\<lambda>_. zero_chunk)\<rparr>)"

definition is_chunk_available :: "packet_chunk \<Rightarrow> bool" where
  "is_chunk_available c \<longleftrightarrow>
     arr64 (csign c) 0 = 0 \<and> arr64 (csign c) 8 = 0 \<and> arr64 (csign c) 16 = 0 \<and> arr64 (csign c) 24 = 0 \<and>
     arr64 (csign c) 32 = 0 \<and> arr64 (csign c) 40 = 0 \<and> arr64 (csign c) 48 = 0 \<and> arr64 (csign c) 56 = 0"

definition is_packet_available :: "packet \<Rightarrow> bool" where
  "is_packet_available p \<longleftrightarrow> ptr p = 0"

text \<open>The waiting loop: \<open>next++\<close>, back to the begin of the pool at its bound.\<close>

definition next_slot :: "nat \<Rightarrow> addr \<Rightarrow> addr \<Rightarrow> addr \<Rightarrow> addr" where
  "next_slot sz begin bound nxt = (if nxt + of_nat sz \<ge> bound then begin else nxt + of_nat sz)"

fun pool_search :: "nat \<Rightarrow> (addr \<Rightarrow> bool) \<Rightarrow> nat \<Rightarrow> addr \<Rightarrow> addr \<Rightarrow> addr \<Rightarrow> addr res" where
  "pool_search 0 avail sz begin bound nxt = Inl Spin"
| "pool_search (Suc fuel) avail sz begin bound nxt =
     (if avail nxt then Inr nxt
      else pool_search fuel avail sz begin bound (next_slot sz begin bound nxt))"

definition get_available_packet_chunk :: "wid \<Rightarrow> 'a packet_state_scheme \<Rightarrow> (addr \<times> 'a packet_state_scheme) res" where
  "get_available_packet_chunk wid s =
     (if wid < length (packet_chunk_begins s) then
        let begin = packet_chunk_begins s ! wid;
            bound = packet_chunk_ends s ! wid
        in rbind (pool_search PACKET_POOL_SIZE (\<lambda>a. is_chunk_available (chunks s a)) sizeof_packet_chunk
                    begin bound (packet_chunk_nexts s ! wid))
             (\<lambda>nxt. Inr (nxt, s\<lparr>packet_chunk_nexts :=
                (packet_chunk_nexts s)[wid := next_slot sizeof_packet_chunk begin bound nxt]\<rparr>))
      else Inl OutOfRange)"

definition mark_packet_chunk_read :: "nat \<Rightarrow> addr \<Rightarrow> 'a packet_state_scheme \<Rightarrow> 'a packet_state_scheme" where
  "mark_packet_chunk_read stage chunk s =
     s\<lparr>chunks := (chunks s)(chunk := (chunks s chunk)\<lparr>csign := (csign (chunks s chunk))(stage := 0)\<rparr>)\<rparr>"

definition get_available_packet :: "wid \<Rightarrow> 'a packet_state_scheme \<Rightarrow> (addr \<times> 'a packet_state_scheme) res" where
  "get_available_packet wid s =
     (if wid < length (packet_begins s) then
        let begin = packet_begins s ! wid;
            bound = packet_ends s ! wid
        in rbind (pool_search PACKET_POOL_SIZE (\<lambda>a. is_packet_available (packets s a)) sizeof_packet
                    begin bound (packet_nexts s ! wid))
             (\<lambda>nxt. Inr (nxt, s\<lparr>packet_nexts :=
                (packet_nexts s)[wid := next_slot sizeof_packet begin bound nxt]\<rparr>))
      else Inl OutOfRange)"

definition get_available_commit_process_packet :: "'a packet_state_scheme \<Rightarrow> (addr \<times> 'a packet_state_scheme) res" where
  "get_available_commit_process_packet s =
     (let begin = commit_process_packet_begin s;
          bound = commit_process_packet_end s
      in rbind (pool_search PACKET_POOL_SIZE (\<lambda>a. is_packet_available (packets s a)) sizeof_packet
                  begin bound (commit_process_packet_next s))
           (\<lambda>nxt. Inr (nxt, s\<lparr>commit_process_packet_next := next_slot sizeof_packet begin bound nxt\<rparr>)))"

subsection \<open>Walking a ring of slots\<close>

text \<open>
  The contract of a pool: \<open>n\<close> slots of \<open>sz\<close> bytes from \<open>begin\<close> on that do not wrap around the address
  space. Both kinds of pool are instances.
\<close>

definition slot_at :: "nat \<Rightarrow> addr \<Rightarrow> nat \<Rightarrow> addr" where
  "slot_at sz b i = b + of_nat (sz * i)"

definition pool_fits :: "nat \<Rightarrow> nat \<Rightarrow> addr \<Rightarrow> bool" where
  "pool_fits sz n b \<longleftrightarrow> unat b + sz * n < 2 ^ 64"

text \<open>A pool with its begin, its bound and the slot the next walk starts at.\<close>

definition pool_ok :: "nat \<Rightarrow> nat \<Rightarrow> addr \<Rightarrow> addr \<Rightarrow> addr \<Rightarrow> bool" where
  "pool_ok sz n b e nx \<longleftrightarrow> pool_fits sz n b \<and> e = slot_at sz b n \<and> (\<exists>i < n. nx = slot_at sz b i)"

locale slot_ring =
  fixes sz n :: nat
  assumes sz_pos: "0 < sz" and n_pos: "0 < n"
begin

abbreviation slot :: "addr \<Rightarrow> nat \<Rightarrow> addr" where
  "slot \<equiv> slot_at sz"

abbreviation fits :: "addr \<Rightarrow> bool" where
  "fits \<equiv> pool_fits sz n"

lemma unat_slot:
  assumes "fits b" "i \<le> n"
  shows "unat (slot b i) = unat b + sz * i"
proof -
  have "sz * i \<le> sz * n" using assms(2) by simp
  then have "unat b + sz * i < 2 ^ 64" using assms(1) unfolding pool_fits_def by linarith
  then show ?thesis unfolding slot_at_def unat_add_of_nat by simp
qed

lemma slot_inj:
  assumes "fits b" "i \<le> n" "j \<le> n"
  shows "slot b i = slot b j \<longleftrightarrow> i = j"
  using unat_slot[OF assms(1,2)] unat_slot[OF assms(1,3)] sz_pos by (metis add_left_cancel mult_cancel1 not_gr_zero)

lemma next_slot_ring:
  assumes "fits b" "i < n"
  shows "next_slot sz b (slot b n) (slot b i) = slot b (Suc i mod n)"
proof -
  have s: "slot b i + of_nat sz = slot b (Suc i)" by (simp add: slot_at_def algebra_simps)
  have "slot b n \<le> slot b (Suc i) \<longleftrightarrow> n \<le> Suc i"
    using unat_slot[OF assms(1), of n] unat_slot[OF assms(1), of "Suc i"] assms(2) sz_pos
    by (simp add: word_le_nat_alt del: mult_Suc_right)
  moreover have "slot b 0 = b" by (simp add: slot_at_def)
  ultimately show ?thesis using assms(2) unfolding next_slot_def s
    by (cases "Suc i = n") simp_all
qed

text \<open>The walk meets the slots \<open>i, i + 1, ...\<close> modulo \<open>n\<close>; it waits iff none of them is free.\<close>

lemma search_none:
  assumes "fits b" "i < n"
  shows "pool_search k av sz b (slot b n) (slot b i) = Inl Spin \<longleftrightarrow>
         (\<forall>d < k. \<not> av (slot b ((i + d) mod n)))"
  using assms(2)
proof (induction k arbitrary: i)
  case (Suc k)
  have m: "Suc i mod n < n" using n_pos by simp
  have "(Suc i mod n + d) mod n = (i + Suc d) mod n" for d by (simp add: mod_add_left_eq)
  then have "(\<forall>d < Suc k. \<not> av (slot b ((i + d) mod n))) \<longleftrightarrow>
             \<not> av (slot b i) \<and> (\<forall>d < k. \<not> av (slot b ((Suc i mod n + d) mod n)))"
    using Suc.prems by (simp add: All_less_Suc2)
  then show ?case using Suc.IH[OF m] Suc.prems by (simp add: next_slot_ring[OF assms(1)])
qed simp

lemma search_some:
  assumes "fits b" "i < n" "pool_search k av sz b (slot b n) (slot b i) = Inr a"
  shows "\<exists>j < n. a = slot b j \<and> av a"
  using assms(2,3)
proof (induction k arbitrary: i)
  case (Suc k)
  have m: "Suc i mod n < n" using n_pos by simp
  show ?case using Suc.prems Suc.IH[OF m] by (auto simp: next_slot_ring[OF assms(1)] split: if_splits)
qed simp

lemma search_fault: "pool_search k av sz b e nx = Inl f \<Longrightarrow> f = Spin"
  by (induction k arbitrary: nx) (auto split: if_splits)

text \<open>Visiting \<open>n\<close> consecutive slots modulo \<open>n\<close> visits all of them.\<close>

lemma round_trip:
  assumes "i < n" "j < n"
  shows "\<exists>d < n. (i + d) mod n = j"
proof (cases "i \<le> j")
  case True
  then show ?thesis using assms by (intro exI[of _ "j - i"]) auto
next
  case False
  then show ?thesis using assms by (intro exI[of _ "n + j - i"]) auto
qed

lemma search_all:
  assumes "fits b" "i < n"
  shows "pool_search n av sz b (slot b n) (slot b i) = Inl Spin \<longleftrightarrow> (\<forall>j < n. \<not> av (slot b j))"
  unfolding search_none[OF assms] using round_trip[OF assms(2)] n_pos
  by (metis mod_less_divisor)

text \<open>
  One walk over a well-formed pool: it waits only if no slot is free, otherwise it yields a free
  slot, and the pool with the advanced start is well-formed again.
\<close>

lemma pool_walk:
  assumes "pool_ok sz n b e nx"
  shows "case pool_search n av sz b e nx of
           Inl f \<Rightarrow> f = Spin \<and> (\<forall>i < n. \<not> av (slot b i))
         | Inr a \<Rightarrow> av a \<and> a \<in> slot b ` {..<n} \<and> pool_ok sz n b e (next_slot sz b e a)"
proof -
  from assms obtain i where i: "fits b" "e = slot b n" "i < n" "nx = slot b i"
    by (auto simp: pool_ok_def)
  show ?thesis
  proof (cases "pool_search n av sz b e nx")
    case (Inl f)
    with search_fault[OF Inl] search_all[OF i(1,3), of av] i(2,4) show ?thesis by simp
  next
    case (Inr a)
    with search_some[OF i(1,3), of n av a] i(2,4)
    obtain j where j: "j < n" "a = slot b j" "av a" by auto
    have "Suc j mod n < n" using n_pos by simp
    with next_slot_ring[OF i(1) j(1)] i(1,2) j have "pool_ok sz n b e (next_slot sz b e a)"
      unfolding pool_ok_def by metis
    with Inr j show ?thesis by auto
  qed
qed

end

interpretation pk: slot_ring sizeof_packet PACKET_POOL_SIZE
  by unfold_locales (simp_all add: sizeof_packet_def PACKET_POOL_SIZE_def)

interpretation ck: slot_ring sizeof_packet_chunk PACKET_POOL_SIZE
  by unfold_locales (simp_all add: sizeof_packet_chunk_def PAGE_SIZE_def PACKET_POOL_SIZE_def)

subsection \<open>Well-formed pools\<close>

definition packets_wf :: "'a packet_state_scheme \<Rightarrow> bool" where
  "packets_wf s \<longleftrightarrow>
     length (packet_ends s) = length (packet_begins s) \<and> length (packet_nexts s) = length (packet_begins s) \<and>
     length (packet_chunk_ends s) = length (packet_chunk_begins s) \<and>
     length (packet_chunk_nexts s) = length (packet_chunk_begins s) \<and>
     (\<forall>w < length (packet_begins s).
        pool_ok sizeof_packet PACKET_POOL_SIZE (packet_begins s ! w) (packet_ends s ! w) (packet_nexts s ! w)) \<and>
     (\<forall>w < length (packet_chunk_begins s).
        pool_ok sizeof_packet_chunk PACKET_POOL_SIZE (packet_chunk_begins s ! w) (packet_chunk_ends s ! w) (packet_chunk_nexts s ! w)) \<and>
     pool_ok sizeof_packet PACKET_POOL_SIZE (commit_process_packet_begin s) (commit_process_packet_end s) (commit_process_packet_next s)"

text \<open>The slots of the pools of worker \<open>w\<close> and of the commit process.\<close>

definition packet_slots :: "'a packet_state_scheme \<Rightarrow> wid \<Rightarrow> addr set" where
  "packet_slots s w = slot_at sizeof_packet (packet_begins s ! w) ` {..<PACKET_POOL_SIZE}"

definition chunk_slots :: "'a packet_state_scheme \<Rightarrow> wid \<Rightarrow> addr set" where
  "chunk_slots s w = slot_at sizeof_packet_chunk (packet_chunk_begins s ! w) ` {..<PACKET_POOL_SIZE}"

definition commit_slots :: "'a packet_state_scheme \<Rightarrow> addr set" where
  "commit_slots s = slot_at sizeof_packet (commit_process_packet_begin s) ` {..<PACKET_POOL_SIZE}"

text \<open>The three allocation routines on well-formed pools.\<close>

lemma get_available_packet_ok:
  assumes wf: "packets_wf s" and w: "w < length (packet_begins s)"
  shows "case get_available_packet w s of
           Inl f \<Rightarrow> f = Spin \<and> (\<forall>a \<in> packet_slots s w. ptr (packets s a) \<noteq> 0)
         | Inr (a, s') \<Rightarrow> a \<in> packet_slots s w \<and> ptr (packets s a) = 0 \<and> packets_wf s' \<and>
             (\<exists>nx. s' = s\<lparr>packet_nexts := (packet_nexts s)[w := nx]\<rparr>)"
proof -
  from wf w have "pool_ok sizeof_packet PACKET_POOL_SIZE (packet_begins s ! w) (packet_ends s ! w) (packet_nexts s ! w)"
    by (simp add: packets_wf_def)
  from pk.pool_walk[OF this, of "\<lambda>a. is_packet_available (packets s a)"] w wf show ?thesis
    by (auto simp: get_available_packet_def Let_def packet_slots_def is_packet_available_def packets_wf_def
        nth_list_update rbind_def split: sum.splits)
qed

lemma get_available_commit_packet_ok:
  assumes wf: "packets_wf s"
  shows "case get_available_commit_process_packet s of
           Inl f \<Rightarrow> f = Spin \<and> (\<forall>a \<in> commit_slots s. ptr (packets s a) \<noteq> 0)
         | Inr (a, s') \<Rightarrow> a \<in> commit_slots s \<and> ptr (packets s a) = 0 \<and> packets_wf s' \<and>
             (\<exists>nx. s' = s\<lparr>commit_process_packet_next := nx\<rparr>)"
proof -
  from wf have "pool_ok sizeof_packet PACKET_POOL_SIZE (commit_process_packet_begin s) (commit_process_packet_end s)
      (commit_process_packet_next s)" by (simp add: packets_wf_def)
  from pk.pool_walk[OF this, of "\<lambda>a. is_packet_available (packets s a)"] wf show ?thesis
    by (auto simp: get_available_commit_process_packet_def Let_def commit_slots_def is_packet_available_def packets_wf_def
        rbind_def split: sum.splits)
qed

lemma get_available_chunk_ok:
  assumes wf: "packets_wf s" and w: "w < length (packet_chunk_begins s)"
  shows "case get_available_packet_chunk w s of
           Inl f \<Rightarrow> f = Spin \<and> (\<forall>a \<in> chunk_slots s w. \<not> is_chunk_available (chunks s a))
         | Inr (a, s') \<Rightarrow> a \<in> chunk_slots s w \<and> is_chunk_available (chunks s a) \<and> packets_wf s' \<and>
             (\<exists>nx. s' = s\<lparr>packet_chunk_nexts := (packet_chunk_nexts s)[w := nx]\<rparr>)"
proof -
  from wf w have "pool_ok sizeof_packet_chunk PACKET_POOL_SIZE (packet_chunk_begins s ! w) (packet_chunk_ends s ! w)
      (packet_chunk_nexts s ! w)" by (simp add: packets_wf_def)
  from ck.pool_walk[OF this, of "\<lambda>a. is_chunk_available (chunks s a)"] w wf show ?thesis
    by (auto simp: get_available_packet_chunk_def Let_def chunk_slots_def packets_wf_def
        nth_list_update rbind_def split: sum.splits)
qed

text \<open>The eight word tests of \<open>is_chunk_available\<close> are a test of the 64 signature bytes.\<close>

lemma is_chunk_available_iff: "is_chunk_available c \<longleftrightarrow> (\<forall>i < 64. csign c i = 0)"
proof -
  have w: "arr64 (csign c) k = 0 \<longleftrightarrow> (\<forall>j < 8. csign c (k + j) = 0)" if "k \<le> 56" for k
    unfolding zero_lanes64_iff using that by (simp add: lane_arr64)
  have "is_chunk_available c \<longleftrightarrow> (\<forall>q < 8. arr64 (csign c) (8 * q) = 0)"
    by (simp add: is_chunk_available_def All_less_Suc2 eval_nat_numeral)
  also have "\<dots> \<longleftrightarrow> (\<forall>q < 8. \<forall>j < 8. csign c (8 * q + j) = 0)" by (simp add: w)
  also have "\<dots> \<longleftrightarrow> (\<forall>i < 64. csign c i = 0)"
  proof (intro iffI allI impI)
    fix i :: nat assume a: "\<forall>q < 8. \<forall>j < 8. csign c (8 * q + j) = 0" and i: "i < 64"
    have "i div 8 < 8" "i mod 8 < 8" using i by simp_all
    with a have "csign c (8 * (i div 8) + i mod 8) = 0" by blast
    then show "csign c i = 0" by simp
  qed auto
  finally show ?thesis .
qed

lemma init_packets_ok:
  assumes "length pkb = n" "length ckb = n"
    and "\<forall>b \<in> set (cm # pkb). pool_fits sizeof_packet PACKET_POOL_SIZE b"
    and "\<forall>b \<in> set ckb. pool_fits sizeof_packet_chunk PACKET_POOL_SIZE b"
  shows "packets_wf (init_packets n pkb cm ckb s) \<and>
         is_packet_available (packets (init_packets n pkb cm ckb s) a) \<and>
         is_chunk_available (chunks (init_packets n pkb cm ckb s) a)"
proof -
  have ok: "pool_ok sz PACKET_POOL_SIZE b (b + of_nat (sz * PACKET_POOL_SIZE)) b"
    if "pool_fits sz PACKET_POOL_SIZE b" for sz b
  proof -
    have "0 < PACKET_POOL_SIZE" by (simp add: PACKET_POOL_SIZE_def)
    moreover have "b = slot_at sz b 0" by (simp add: slot_at_def)
    ultimately show ?thesis using that unfolding pool_ok_def by (metis slot_at_def)
  qed
  show ?thesis using assms
    by (auto simp: init_packets_def packets_wf_def Let_def ok is_packet_available_def zero_packet_def
        is_chunk_available_iff zero_chunk_def simp del: of_nat_mult)
qed

subsection \<open>Properties\<close>

text \<open>\<open>init_packets\<close>, given pool addresses that do not wrap around the address space, sets up
  well-formed pools in which every packet and every chunk is free.\<close>

theorem init_packets_wf:
  assumes "length pkb = n" "length ckb = n"
    and "\<forall>b \<in> set (cm # pkb). pool_fits sizeof_packet PACKET_POOL_SIZE b"
    and "\<forall>b \<in> set ckb. pool_fits sizeof_packet_chunk PACKET_POOL_SIZE b"
  shows "packets_wf (init_packets n pkb cm ckb s) \<and>
         is_packet_available (packets (init_packets n pkb cm ckb s) a) \<and>
         is_chunk_available (chunks (init_packets n pkb cm ckb s) a)"
  by (rule init_packets_ok[OF assms])

theorem init_packets_wf_witness:
  "\<exists>s :: packet_state. packets_wf s \<and> is_packet_available (packets s 0x10000000)"
  using init_packets_wf[of "[0x10000000, 0x20000000]" 2 "[0x1000000000, 0x2000000000]" "0x30000000"]
  by (auto simp: pool_fits_def sizeof_packet_def sizeof_packet_chunk_def PAGE_SIZE_def PACKET_POOL_SIZE_def)

text \<open>C31. The walk over a worker's packet pool finds a free packet whenever there is one: it waits exactly
  when every packet of the pool is in use; otherwise it returns a free packet of that pool, changes
  nothing but the worker's own start position and keeps the pools well-formed.\<close>

theorem get_available_packet_spec:
  assumes "packets_wf s" "w < length (packet_begins s)"
  shows "(get_available_packet w s = Inl Spin \<longleftrightarrow> (\<forall>a \<in> packet_slots s w. ptr (packets s a) \<noteq> 0)) \<and>
         ((\<exists>a \<in> packet_slots s w. ptr (packets s a) = 0) \<longrightarrow>
           (\<exists>a \<in> packet_slots s w. \<exists>nx. ptr (packets s a) = 0 \<and>
              get_available_packet w s = Inr (a, s\<lparr>packet_nexts := (packet_nexts s)[w := nx]\<rparr>) \<and>
              packets_wf (s\<lparr>packet_nexts := (packet_nexts s)[w := nx]\<rparr>)))"
  using get_available_packet_ok[OF assms] by (cases "get_available_packet w s") auto

theorem get_available_packet_spec_witness:
  "\<exists>s :: packet_state. \<exists>a \<in> packet_slots s 1. \<exists>s'. get_available_packet 1 s = Inr (a, s')"
proof -
  obtain s0 :: packet_state where True by simp
  let ?s = "init_packets 2 [0x10000000, 0x20000000] 0x30000000 [0x1000000000, 0x2000000000] s0"
  have wf: "packets_wf ?s" and av: "is_packet_available (packets ?s a)" for a
    using init_packets_ok[of "[0x10000000, 0x20000000]" 2 "[0x1000000000, 0x2000000000]" "0x30000000" s0 a]
    by (simp_all add: pool_fits_def sizeof_packet_def sizeof_packet_chunk_def PAGE_SIZE_def PACKET_POOL_SIZE_def)
  have "1 < length (packet_begins ?s)" by (simp add: init_packets_def Let_def)
  moreover have "slot_at sizeof_packet (packet_begins ?s ! 1) 0 \<in> packet_slots ?s 1"
    unfolding packet_slots_def using pk.n_pos by blast
  ultimately show ?thesis
    using get_available_packet_spec[OF wf, of 1] av by (meson is_packet_available_def)
qed

text \<open>C32. The walk over a worker's chunk pool waits exactly when some byte of the signature of every
  chunk is still set, that is, when every chunk is still to be read by some consumer, and otherwise
  returns a chunk whose whole signature is clear.\<close>

theorem get_available_packet_chunk_spec:
  assumes "packets_wf s" "w < length (packet_chunk_begins s)"
  shows "(get_available_packet_chunk w s = Inl Spin \<longleftrightarrow>
            (\<forall>a \<in> chunk_slots s w. \<exists>i < 64. csign (chunks s a) i \<noteq> 0)) \<and>
         ((\<exists>a \<in> chunk_slots s w. \<forall>i < 64. csign (chunks s a) i = 0) \<longrightarrow>
           (\<exists>a \<in> chunk_slots s w. \<exists>nx. (\<forall>i < 64. csign (chunks s a) i = 0) \<and>
              get_available_packet_chunk w s = Inr (a, s\<lparr>packet_chunk_nexts := (packet_chunk_nexts s)[w := nx]\<rparr>) \<and>
              packets_wf (s\<lparr>packet_chunk_nexts := (packet_chunk_nexts s)[w := nx]\<rparr>)))"
  using get_available_chunk_ok[OF assms] by (cases "get_available_packet_chunk w s") (auto simp: is_chunk_available_iff)

theorem get_available_packet_chunk_spec_witness:
  "\<exists>s :: packet_state. \<exists>a \<in> chunk_slots s 0. \<exists>s'. get_available_packet_chunk 0 s = Inr (a, s')"
proof -
  obtain s0 :: packet_state where True by simp
  let ?s = "init_packets 1 [0x10000000] 0x30000000 [0x1000000000] s0"
  have wf: "packets_wf ?s" and av: "is_chunk_available (chunks ?s a)" for a
    using init_packets_ok[of "[0x10000000]" 1 "[0x1000000000]" "0x30000000" s0 a]
    by (simp_all add: pool_fits_def sizeof_packet_def sizeof_packet_chunk_def PAGE_SIZE_def PACKET_POOL_SIZE_def)
  have "0 < length (packet_chunk_begins ?s)" by (simp add: init_packets_def Let_def)
  moreover have "slot_at sizeof_packet_chunk (packet_chunk_begins ?s ! 0) 0 \<in> chunk_slots ?s 0"
    unfolding chunk_slots_def using ck.n_pos by blast
  ultimately show ?thesis
    using get_available_packet_chunk_spec[OF wf, of 0] av by (meson is_chunk_available_iff)
qed

end
