(* ===== verification/Communicate.thy ===== *)
theory Communicate
  imports Packet Sw_Queue
begin

unbundle bit_operations_syntax

section \<open>Communication between workers, try-commit units and the commit process\<close>

text \<open>
  Models \<open>smtx/communicate.cpp\<close>. \<open>chan\<close> names the queues of the four tables: \<open>Ucvf i j\<close> is
  \<open>ucvf_queues[i][j]\<close> (uncommitted values, worker to worker), \<open>ToTry i j\<close> is \<open>queues[i][j]\<close> (worker to
  try-commit unit), \<open>ToCommit i\<close> is \<open>commit_queues[i]\<close> and \<open>Reverse i\<close> is \<open>reverse_commit_queues[i]\<close>; a
  null entry is \<open>None\<close> and using it is \<open>OutOfRange\<close>. \<open>pmem\<close> is the private memory of the process that
  runs, the rest of the state is shared between all processes.

  The packet counts the C++ functions return are only incremented under \<open>PROFILE\<close> and are dropped.
  A modulus by \<open>num_aux_workers = 0\<close> is undefined in C++ and \<open>OutOfRange\<close> here.
\<close>

datatype chan = Ucvf wid wid | ToTry wid nat | ToCommit nat | Reverse wid

record comm_state = packet_state +
  chan :: "chan \<Rightarrow> sw_queue option"
  try_commit_begin :: wid
  num_aux_workers :: nat
  pmem :: mem

definition init_queues :: "nat \<Rightarrow> nat \<Rightarrow> 'a comm_state_scheme \<Rightarrow> 'a comm_state_scheme" where
  "init_queues n_workers n_aux_workers s =
     s\<lparr>chan := (\<lambda>c. case c of
         Ucvf i j \<Rightarrow> if i < n_workers \<and> i < j \<and> j < n_workers \<and> GET_MY_STAGE s i \<noteq> GET_MY_STAGE s j
                      then Some sw_queue_create else None
       | ToTry i j \<Rightarrow> if i < n_workers \<and> j < n_aux_workers then Some sw_queue_create else None
       | ToCommit i \<Rightarrow> if i < n_aux_workers then Some sw_queue_create else None
       | Reverse i \<Rightarrow> if i < n_workers then Some sw_queue_create else None)\<rparr>"

text \<open>\<open>__sw_queue_produce\<close> and \<open>__sw_queue_consume\<close> on an entry of a queue table.\<close>

definition chan_produce :: "chan \<Rightarrow> 64 word \<Rightarrow> 'a comm_state_scheme \<Rightarrow> 'a comm_state_scheme res" where
  "chan_produce c v s =
     (case chan s c of None \<Rightarrow> Inl OutOfRange
      | Some q \<Rightarrow> rbind (sw_queue_produce q v) (\<lambda>q'. Inr (s\<lparr>chan := (chan s)(c \<mapsto> q')\<rparr>)))"

definition chan_consume :: "chan \<Rightarrow> 'a comm_state_scheme \<Rightarrow> (64 word \<times> 'a comm_state_scheme) res" where
  "chan_consume c s =
     (case chan s c of None \<Rightarrow> Inl OutOfRange
      | Some q \<Rightarrow> rbind (sw_queue_consume q) (\<lambda>(v, q'). Inr (v, s\<lparr>chan := (chan s)(c \<mapsto> q')\<rparr>)))"

subsection \<open>Creating packets\<close>

definition create_packet_chunk :: "wid \<Rightarrow> addr \<Rightarrow> 'a comm_state_scheme \<Rightarrow> (addr \<times> 'a comm_state_scheme) res" where
  "create_packet_chunk wid a s =
     rbind (get_available_packet_chunk wid s) (\<lambda>(ret, s).
       let sign0 = (csign (chunks s ret))(0 := 1);
           sign1 = (if wid < try_commit_begin s
                    then fold (\<lambda>i f. f(i := 1)) [GET_MY_STAGE s wid + 1..<GET_NUM_STAGES s] sign0
                    else sign0);
           dat = (\<lambda>i. if i < PAGE_SIZE then pmem s (a + of_nat i) else cdata (chunks s ret) i)
       in Inr (ret, s\<lparr>chunks := (chunks s)(ret := (chunks s ret)\<lparr>csign := sign1, cdata := dat\<rparr>)\<rparr>))"

definition fill_packet :: "addr \<Rightarrow> 64 word \<Rightarrow> 32 word \<Rightarrow> int \<Rightarrow> ptype \<Rightarrow> packet \<Rightarrow> packet" where
  "fill_packet a v sz w ty p = p\<lparr>ptr := a, pval := v, psize := sz, is_write := w, pkind := ty\<rparr>"

definition create_packet :: "wid \<Rightarrow> addr \<Rightarrow> 64 word \<Rightarrow> 32 word \<Rightarrow> int \<Rightarrow> ptype \<Rightarrow> 'a comm_state_scheme \<Rightarrow>
    (addr \<times> 'a comm_state_scheme) res" where
  "create_packet wid a v sz w ty s =
     rbind (if wid = MAIN_PROCESS_WID then get_available_commit_process_packet s
            else get_available_packet wid s) (\<lambda>(p, s).
       Inr (p, s\<lparr>packets := (packets s)(p := fill_packet a v sz w ty (packets s p))\<rparr>))"

text \<open>Every sending loop creates a packet and puts its address into a queue.\<close>

definition send :: "wid \<Rightarrow> addr \<Rightarrow> 64 word \<Rightarrow> 32 word \<Rightarrow> int \<Rightarrow> ptype \<Rightarrow> chan \<Rightarrow> 'a comm_state_scheme \<Rightarrow>
    'a comm_state_scheme res" where
  "send wid a v sz w ty c s =
     rbind (create_packet wid a v sz w ty s) (\<lambda>(p, s). chan_produce c p s)"

subsection \<open>Sending\<close>

definition try_commit_target :: "addr \<Rightarrow> 'a comm_state_scheme \<Rightarrow> nat" where
  "try_commit_target a s = unat (drop_bit PAGE_SHIFT a) mod num_aux_workers s"

text \<open>The queues of \<open>forward\<close>: the worker that runs \<open>iter\<close> in every later stage, and one try-commit unit.\<close>

definition forward_chans :: "wid \<Rightarrow> iteration \<Rightarrow> 'a comm_state_scheme \<Rightarrow> chan list" where
  "forward_chans wid iter s =
     map (\<lambda>i. Ucvf wid (GET_FIRST_WID_OF_STAGE s i + wid_of_iter iter mod GET_REPLICATION_FACTOR s i))
       [GET_MY_STAGE s wid + 1..<GET_NUM_STAGES s]"

definition forward_page :: "wid \<Rightarrow> iteration \<Rightarrow> addr \<Rightarrow> check_code \<Rightarrow> 'a comm_state_scheme \<Rightarrow> 'a comm_state_scheme res" where
  "forward_page wid iter a check s =
     rbind (create_packet_chunk wid a s) (\<lambda>(chunk, s).
     rbind (rfold (send wid a chunk (of_nat sizeof_packet_chunk) (check_num check) SUPER)
              (forward_chans wid iter s) s) (\<lambda>s.
       if num_aux_workers s = 0 then Inl OutOfRange
       else send wid a chunk (of_nat sizeof_packet_chunk) (check_num check) SUPER
              (ToTry wid (try_commit_target a s)) s))"

definition forward_packet :: "wid \<Rightarrow> iteration \<Rightarrow> addr \<Rightarrow> 64 word \<Rightarrow> 32 word \<Rightarrow> check_code \<Rightarrow> 'a comm_state_scheme \<Rightarrow>
    'a comm_state_scheme res" where
  "forward_packet wid iter a v sz check s =
     (if check = CHECK_FREE then Inl AssertFailed
      else rbind (rfold (send wid a v sz (check_num check) NORMAL) (forward_chans wid iter s) s) (\<lambda>s.
        if num_aux_workers s = 0 then Inl OutOfRange
        else send wid a v sz (check_num check) NORMAL (ToTry wid (try_commit_target a s)) s))"

text \<open>The queues of \<open>broadcast\<close>: every worker of every later stage, then every try-commit unit.\<close>

definition broadcast_chans :: "wid \<Rightarrow> 'a comm_state_scheme \<Rightarrow> chan list" where
  "broadcast_chans wid s =
     concat (map (\<lambda>i. map (Ucvf wid)
         [GET_FIRST_WID_OF_STAGE s i..<GET_FIRST_WID_OF_STAGE s i + GET_REPLICATION_FACTOR s i])
       [GET_MY_STAGE s wid + 1..<GET_NUM_STAGES s])"

definition try_chans :: "wid \<Rightarrow> 'a comm_state_scheme \<Rightarrow> chan list" where
  "try_chans wid s = map (ToTry wid) [0..<num_aux_workers s]"

definition broadcast_chunk_at :: "wid \<Rightarrow> addr \<Rightarrow> nat \<Rightarrow> 'a comm_state_scheme \<Rightarrow> 'a comm_state_scheme res" where
  "broadcast_chunk_at wid a c s =
     rbind (create_packet_chunk wid (a + of_nat (c * PAGE_SIZE)) s) (\<lambda>(chunk, s).
     rbind (rfold (send wid 0 chunk 0 0 ALLOC) (broadcast_chans wid s) s)
       (\<lambda>s. rfold (send wid 0 chunk 0 0 ALLOC) (try_chans wid s) s))"

definition broadcast_malloc_chunk :: "wid \<Rightarrow> addr \<Rightarrow> 32 word \<Rightarrow> 'a comm_state_scheme \<Rightarrow> 'a comm_state_scheme res" where
  "broadcast_malloc_chunk wid a sz s =
     (if wid \<ge> try_commit_begin s then Inr s
      else let num_chunks = unat sz div PAGE_SIZE + (if unat sz mod PAGE_SIZE \<noteq> 0 then 1 else 0)
           in rfold (broadcast_chunk_at wid a) [0..<num_chunks] s)"

definition broadcast_event :: "wid \<Rightarrow> addr \<Rightarrow> 32 word \<Rightarrow> 64 word \<Rightarrow> int \<Rightarrow> ptype \<Rightarrow> 'a comm_state_scheme \<Rightarrow>
    'a comm_state_scheme res" where
  "broadcast_event wid a sz v w ty s =
     (if wid \<ge> try_commit_begin s then Inr s
      else rbind (rfold (send wid a v sz w ty) (broadcast_chans wid s) s)
             (\<lambda>s. rfold (send wid a v sz w ty) (try_chans wid s) s))"

definition to_try_commit :: "wid \<Rightarrow> addr \<Rightarrow> 32 word \<Rightarrow> 64 word \<Rightarrow> int \<Rightarrow> ptype \<Rightarrow> 'a comm_state_scheme \<Rightarrow>
    'a comm_state_scheme res" where
  "to_try_commit wid a sz v w ty s = rfold (send wid a v sz w ty) (try_chans wid s) s"

definition commit_queue_broadcast_event :: "wid \<Rightarrow> addr \<Rightarrow> 32 word \<Rightarrow> 64 word \<Rightarrow> int \<Rightarrow> ptype \<Rightarrow>
    'a comm_state_scheme \<Rightarrow> 'a comm_state_scheme res" where
  "commit_queue_broadcast_event wid a sz v w ty s =
     rfold (send wid a v sz w ty) (map Reverse [0..<try_commit_begin s]) s"

text \<open>A worker clears the existing queues from lower-numbered workers, a try-commit unit all its queues.\<close>

definition clear_incoming_queues :: "wid \<Rightarrow> 'a comm_state_scheme \<Rightarrow> 'a comm_state_scheme res" where
  "clear_incoming_queues wid s =
     (if wid < try_commit_begin s
      then Inr (s\<lparr>chan := fold (\<lambda>i ch. ch(Ucvf i wid := map_option sw_queue_clear (ch (Ucvf i wid)))) [0..<wid] (chan s)\<rparr>)
      else rfold (\<lambda>i s. case chan s (ToTry i (wid - try_commit_begin s)) of
               None \<Rightarrow> Inl OutOfRange
             | Some q \<Rightarrow> Inr (s\<lparr>chan := (chan s)(ToTry i (wid - try_commit_begin s) \<mapsto> sw_queue_clear q)\<rparr>))
             [0..<try_commit_begin s] s)"

subsection \<open>What a send does\<close>

text \<open>\<open>chans_rep s L\<close>: every existing queue \<open>c\<close> holds the packet addresses \<open>L c\<close>.\<close>

definition chans_rep :: "'a comm_state_scheme \<Rightarrow> (chan \<Rightarrow> addr list) \<Rightarrow> bool" where
  "chans_rep s L \<longleftrightarrow> (\<forall>c. case chan s c of None \<Rightarrow> L c = [] | Some q \<Rightarrow> sw_repr q (L c))"

text \<open>Everything but the packet and chunk pools and the queues.\<close>

definition same_rest :: "'a comm_state_scheme \<Rightarrow> 'a comm_state_scheme \<Rightarrow> bool" where
  "same_rest s s' \<longleftrightarrow>
     s' = s\<lparr>packet_nexts := packet_nexts s', packet_chunk_nexts := packet_chunk_nexts s',
            commit_process_packet_next := commit_process_packet_next s',
            packets := packets s', chunks := chunks s', chan := chan s'\<rparr>"

lemma same_rest_refl [simp]: "same_rest s s"
  by (simp add: same_rest_def)

lemma same_restD:
  assumes "same_rest s s'"
  shows "packet_begins s' = packet_begins s" "packet_ends s' = packet_ends s"
    "packet_chunk_begins s' = packet_chunk_begins s" "packet_chunk_ends s' = packet_chunk_ends s"
    "commit_process_packet_begin s' = commit_process_packet_begin s"
    "commit_process_packet_end s' = commit_process_packet_end s"
    "try_commit_begin s' = try_commit_begin s" "num_aux_workers s' = num_aux_workers s"
    "pmem s' = pmem s" "num_stages s' = num_stages s" "stage2rep s' = stage2rep s"
    "wid2stage s' = wid2stage s" "stage2firstwid s' = stage2firstwid s" "comm_state.more s' = comm_state.more s"
proof -
  have *: "s' = s\<lparr>packet_nexts := packet_nexts s', packet_chunk_nexts := packet_chunk_nexts s',
            commit_process_packet_next := commit_process_packet_next s',
            packets := packets s', chunks := chunks s', chan := chan s'\<rparr>"
    using assms by (simp add: same_rest_def)
  show "packet_begins s' = packet_begins s" by (subst *) simp
  show "packet_ends s' = packet_ends s" by (subst *) simp
  show "packet_chunk_begins s' = packet_chunk_begins s" by (subst *) simp
  show "packet_chunk_ends s' = packet_chunk_ends s" by (subst *) simp
  show "commit_process_packet_begin s' = commit_process_packet_begin s" by (subst *) simp
  show "commit_process_packet_end s' = commit_process_packet_end s" by (subst *) simp
  show "try_commit_begin s' = try_commit_begin s" by (subst *) simp
  show "num_aux_workers s' = num_aux_workers s" by (subst *) simp
  show "pmem s' = pmem s" by (subst *) simp
  show "num_stages s' = num_stages s" by (subst *) simp
  show "stage2rep s' = stage2rep s" by (subst *) simp
  show "wid2stage s' = wid2stage s" by (subst *) simp
  show "stage2firstwid s' = stage2firstwid s" by (subst *) simp
  show "comm_state.more s' = comm_state.more s" by (subst *) simp
qed

lemma same_rest_trans: "same_rest s t \<Longrightarrow> same_rest t u \<Longrightarrow> same_rest s u"
  by (cases s; cases t; cases u) (simp add: same_rest_def)

lemma chans_rep_upd:
  assumes "chans_rep s L" "sw_repr q xs"
  shows "chans_rep (s\<lparr>chan := (chan s)(c \<mapsto> q)\<rparr>) (L(c := xs))"
  unfolding chans_rep_def
proof
  fix d
  from assms(1) have "case chan s d of None \<Rightarrow> L d = [] | Some q \<Rightarrow> sw_repr q (L d)"
    by (simp add: chans_rep_def)
  with assms(2) show "case chan (s\<lparr>chan := (chan s)(c \<mapsto> q)\<rparr>) d of None \<Rightarrow> (L(c := xs)) d = []
      | Some q \<Rightarrow> sw_repr q ((L(c := xs)) d)"
    by (cases "d = c"; cases "chan s d") auto
qed

lemma chan_produce_ok:
  assumes "chans_rep s L" "chan_produce c v s = Inr s'"
  shows "chans_rep s' (L(c := L c @ [v])) \<and> s' = s\<lparr>chan := chan s'\<rparr> \<and>
         (\<forall>d. chan s' d = None \<longleftrightarrow> chan s d = None)"
proof -
  from assms(2) obtain q q' where q: "chan s c = Some q" "sw_queue_produce q v = Inr q'"
      "s' = s\<lparr>chan := (chan s)(c \<mapsto> q')\<rparr>"
    by (auto simp: chan_produce_def rbind_eq_Inr split: option.splits)
  from assms(1) q(1) have "sw_repr q (L c)" unfolding chans_rep_def by (metis option.simps(5))
  from swq.produce_cases[OF this q(2)] have "sw_repr q' (L c @ [v])" by simp
  from chans_rep_upd[OF assms(1) this, of c] q show ?thesis by auto
qed

lemma chan_consume_ok:
  assumes "chans_rep s L" "chan_consume c s = Inr (v, s')"
  shows "\<exists>vs. L c = v # vs \<and> chans_rep s' (L(c := vs)) \<and> s' = s\<lparr>chan := chan s'\<rparr>"
proof -
  from assms(2) obtain q q' where q: "chan s c = Some q" "sw_queue_consume q = Inr (v, q')"
      "s' = s\<lparr>chan := (chan s)(c \<mapsto> q')\<rparr>"
    by (auto simp: chan_consume_def rbind_eq_Inr split: option.splits)
  from assms(1) q(1) have "sw_repr q (L c)" unfolding chans_rep_def by (metis option.simps(5))
  from swq.consume_cases[OF this q(2)] obtain vs where "L c = v # vs" "sw_repr q' vs" by auto
  with chans_rep_upd[OF assms(1) this(2), of c] q show ?thesis by auto
qed

lemma chan_produce_fault:
  assumes "chans_rep s L" "chan s c \<noteq> None" "chan_produce c v s = Inl f"
  shows "f = Spin \<and> length (L c) = QUEUE_SIZE div 2"
proof -
  from assms(2) obtain q where q: "chan s c = Some q" by auto
  with assms(1) have r: "sw_repr q (L c)" unfolding chans_rep_def by (metis option.simps(5))
  have "\<not> length (L c) < slots" using swq.produce_room[OF r, of v] assms(3) q
    by (auto simp: chan_produce_def)
  with swq.repr_cap[OF r] have len: "length (L c) = slots" by simp
  with swq.produce_full[OF r, of v] assms(3) q show ?thesis by (simp add: chan_produce_def)
qed

text \<open>One send by worker \<open>w\<close>: a free packet of its pool is filled and queued.\<close>

lemma send_ok:
  assumes wf: "packets_wf s" and w: "w < length (packet_begins s)" "w \<noteq> MAIN_PROCESS_WID"
    and rep: "chans_rep s L" and s': "send w a v sz wr ty c s = Inr s'"
  shows "\<exists>p \<in> packet_slots s w. ptr (packets s p) = 0 \<and>
           packets s' = (packets s)(p := fill_packet a v sz wr ty (packets s p)) \<and>
           chans_rep s' (L(c := L c @ [p])) \<and> packets_wf s' \<and> same_rest s s' \<and>
           chunks s' = chunks s \<and> packet_chunk_nexts s' = packet_chunk_nexts s \<and>
           (\<forall>d. chan s' d = None \<longleftrightarrow> chan s d = None)"
proof -
  from s' w(2) obtain p t where g: "get_available_packet w s = Inr (p, t)"
      and pr: "chan_produce c p (t\<lparr>packets := (packets t)(p := fill_packet a v sz wr ty (packets t p))\<rparr>) = Inr s'"
    by (auto simp: send_def create_packet_def rbind_eq_Inr)
  from get_available_packet_ok[OF wf w(1)] g obtain nx where p: "p \<in> packet_slots s w" "ptr (packets s p) = 0"
      "packets_wf t" "t = s\<lparr>packet_nexts := (packet_nexts s)[w := nx]\<rparr>"
    by auto
  let ?u = "t\<lparr>packets := (packets t)(p := fill_packet a v sz wr ty (packets t p))\<rparr>"
  have "chans_rep ?u L" using rep p(4) by (simp add: chans_rep_def)
  from chan_produce_ok[OF this pr]
  have k: "chans_rep s' (L(c := L c @ [p]))" "s' = ?u\<lparr>chan := chan s'\<rparr>"
      "\<forall>d. chan s' d = None \<longleftrightarrow> chan ?u d = None" by auto
  have "packets s' = (packets s)(p := fill_packet a v sz wr ty (packets s p))"
    by (subst k(2)) (simp add: p(4))
  moreover have "packets_wf s'" using p(3) by (subst k(2)) (simp add: packets_wf_def)
  moreover have "same_rest s s'" by (subst k(2)) (simp add: same_rest_def p(4))
  moreover have "chunks s' = chunks s" by (subst k(2)) (simp add: p(4))
  moreover have "packet_chunk_nexts s' = packet_chunk_nexts s" by (subst k(2)) (simp add: p(4))
  ultimately show ?thesis using p(1,2) k(1,3) p(4) by auto
qed

lemma send_fault:
  assumes wf: "packets_wf s" and w: "w < length (packet_begins s)" "w \<noteq> MAIN_PROCESS_WID"
    and rep: "chans_rep s L" and c: "chan s c \<noteq> None" and s': "send w a v sz wr ty c s = Inl f"
  shows "f = Spin"
proof (cases "get_available_packet w s")
  case (Inl g)
  with get_available_packet_ok[OF wf w(1)] s' w(2) show ?thesis by (simp add: send_def create_packet_def)
next
  case (Inr r)
  obtain p t where r: "r = (p, t)" by (cases r)
  with get_available_packet_ok[OF wf w(1)] Inr obtain nx where t: "t = s\<lparr>packet_nexts := (packet_nexts s)[w := nx]\<rparr>"
    by auto
  let ?u = "t\<lparr>packets := (packets t)(p := fill_packet a v sz wr ty (packets t p))\<rparr>"
  have u: "chans_rep ?u L" "chan ?u c \<noteq> None" using rep c t by (simp_all add: chans_rep_def)
  have "chan_produce c p ?u = Inl f" using s' w(2) Inr r by (simp add: send_def create_packet_def)
  from chan_produce_fault[OF u this] show ?thesis by simp
qed

text \<open>Whatever is sent, only pools and queues change.\<close>

lemma send_frame:
  assumes "send w a v sz wr ty c s = Inr s'"
  shows "same_rest s s'"
  using assms
  by (auto simp: send_def create_packet_def rbind_eq_Inr get_available_packet_def chan_produce_def Let_def
      get_available_commit_process_packet_def same_rest_def split: if_splits option.splits)

lemma create_packet_chunk_frame:
  assumes "create_packet_chunk w a s = Inr (c, s')"
  shows "same_rest s s'"
  using assms
  by (auto simp: create_packet_chunk_def rbind_eq_Inr get_available_packet_chunk_def Let_def same_rest_def
      split: if_splits)

lemma send_all_frame: "rfold (send w a v sz wr ty) cs s = Inr s' \<Longrightarrow> same_rest s s'"
  by (rule rfold_invariant[where P = "same_rest s"]) (auto intro: same_rest_trans send_frame)

lemma broadcast_malloc_chunk_frame:
  assumes "broadcast_malloc_chunk w a sz s = Inr s'"
  shows "same_rest s s'"
proof -
  have step: "same_rest t t'" if "broadcast_chunk_at w a c t = Inr t'" for c t t'
    using that by (auto simp: broadcast_chunk_at_def rbind_eq_Inr
        dest!: create_packet_chunk_frame send_all_frame) (blast intro: same_rest_trans)
  show ?thesis
  proof (cases "try_commit_begin s \<le> w")
    case True
    then show ?thesis using assms by (simp add: broadcast_malloc_chunk_def)
  next
    case False
    then obtain n where "rfold (broadcast_chunk_at w a) [0..<n] s = Inr s'"
      using assms by (auto simp: broadcast_malloc_chunk_def Let_def)
    then show ?thesis
      by (rule rfold_invariant[where P = "same_rest s", rotated 2]) (auto intro: same_rest_trans step)
  qed
qed

lemma broadcast_event_frame: "broadcast_event w a sz v wr ty s = Inr s' \<Longrightarrow> same_rest s s'"
  by (auto simp: broadcast_event_def rbind_eq_Inr split: if_splits intro: same_rest_trans send_all_frame)

lemma to_try_commit_frame: "to_try_commit w a sz v wr ty s = Inr s' \<Longrightarrow> same_rest s s'"
  by (simp add: to_try_commit_def send_all_frame)

lemma commit_queue_broadcast_frame: "commit_queue_broadcast_event w a sz v wr ty s = Inr s' \<Longrightarrow> same_rest s s'"
  by (simp add: commit_queue_broadcast_event_def send_all_frame)

lemma forward_page_frame: "forward_page w iter a check s = Inr s' \<Longrightarrow> same_rest s s'"
  by (auto simp: forward_page_def rbind_eq_Inr split: if_splits
      dest!: create_packet_chunk_frame send_all_frame send_frame) (blast intro: same_rest_trans)

lemma forward_packet_frame: "forward_packet w iter a v sz check s = Inr s' \<Longrightarrow> same_rest s s'"
  by (auto simp: forward_packet_def rbind_eq_Inr split: if_splits
      intro: same_rest_trans send_all_frame send_frame)

text \<open>
  A sending loop over distinct queues with a non-null \<open>ptr\<close>: every queue gets one more packet,
  each packet is a free one of the sender's pool, and no two queues share a packet.
\<close>

definition sent :: "addr \<Rightarrow> 64 word \<Rightarrow> 32 word \<Rightarrow> int \<Rightarrow> ptype \<Rightarrow> packet \<Rightarrow> bool" where
  "sent a v sz w ty p \<longleftrightarrow> ptr p = a \<and> pval p = v \<and> psize p = sz \<and> is_write p = w \<and> pkind p = ty"

lemma sent_fill [simp]: "sent a v sz w ty (fill_packet a v sz w ty p)"
  by (simp add: sent_def fill_packet_def)

definition delivered :: "wid \<Rightarrow> (packet \<Rightarrow> bool) \<Rightarrow> chan set \<Rightarrow> 'a comm_state_scheme \<Rightarrow> (chan \<Rightarrow> addr list) \<Rightarrow>
    (chan \<Rightarrow> addr) \<Rightarrow> 'a comm_state_scheme \<Rightarrow> bool" where
  "delivered w ok cs s L P s' \<longleftrightarrow>
     chans_rep s' (\<lambda>c. if c \<in> cs then L c @ [P c] else L c) \<and> inj_on P cs \<and>
     (\<forall>c \<in> cs. P c \<in> packet_slots s w \<and> ptr (packets s (P c)) = 0 \<and> ok (packets s' (P c))) \<and>
     (\<forall>a. a \<notin> P ` cs \<longrightarrow> packets s' a = packets s a)"

definition pools_kept :: "'a comm_state_scheme \<Rightarrow> 'a comm_state_scheme \<Rightarrow> bool" where
  "pools_kept s s' \<longleftrightarrow> packets_wf s' \<and> same_rest s s' \<and> chunks s' = chunks s \<and>
     packet_chunk_nexts s' = packet_chunk_nexts s \<and> (\<forall>d. chan s' d = None \<longleftrightarrow> chan s d = None)"

lemma send_all_delivers:
  assumes wf: "packets_wf s" and w: "w < length (packet_begins s)" "w \<noteq> MAIN_PROCESS_WID"
    and rep: "chans_rep s L" and a: "a \<noteq> 0" and d: "distinct cs"
    and s': "rfold (send w a v sz wr ty) cs s = Inr s'"
  shows "\<exists>P. delivered w (sent a v sz wr ty) (set cs) s L P s' \<and> pools_kept s s'"
  using wf w(1) rep d s'
proof (induction cs arbitrary: s L)
  case Nil
  then show ?case by (auto simp: delivered_def pools_kept_def)
next
  case (Cons c cs)
  from Cons.prems(5) obtain t where t: "send w a v sz wr ty c s = Inr t" "rfold (send w a v sz wr ty) cs t = Inr s'"
    by (auto simp: rbind_eq_Inr)
  from send_ok[OF Cons.prems(1,2) w(2) Cons.prems(3) t(1)] obtain p where
    p: "p \<in> packet_slots s w" "ptr (packets s p) = 0"
      "packets t = (packets s)(p := fill_packet a v sz wr ty (packets s p))"
      "chans_rep t (L(c := L c @ [p]))" and k: "packets_wf t" "same_rest s t" "chunks t = chunks s"
      "packet_chunk_nexts t = packet_chunk_nexts s" "\<forall>d. chan t d = None \<longleftrightarrow> chan s d = None"
    by blast
  note sd = same_restD[OF k(2)]
  have "w < length (packet_begins t)" "distinct cs" using Cons.prems(2,4) sd by simp_all
  from Cons.IH[OF k(1) this(1) p(4) this(2) t(2)] obtain P where
    P: "delivered w (sent a v sz wr ty) (set cs) t (L(c := L c @ [p])) P s'" "pools_kept t s'" by blast
  have slots: "packet_slots t w = packet_slots s w" by (simp add: packet_slots_def sd)
  have "ptr (packets t p) \<noteq> 0" using a p(3) by (simp add: fill_packet_def)
  then have pn: "p \<notin> P ` set cs" using P(1) unfolding delivered_def by auto
  have cn: "c \<notin> set cs" using Cons.prems(4) by simp
  have Pc: "P d \<noteq> p" if "d \<in> set cs" for d using pn that by auto
  have "chans_rep s' (\<lambda>d. if d \<in> set (c # cs) then L d @ [(P(c := p)) d] else L d)"
  proof -
    have "(\<lambda>d. if d \<in> set cs then (L(c := L c @ [p])) d @ [P d] else (L(c := L c @ [p])) d) =
          (\<lambda>d. if d \<in> set (c # cs) then L d @ [(P(c := p)) d] else L d)"
      using cn by (auto simp: fun_eq_iff)
    then show ?thesis using P(1) by (simp add: delivered_def)
  qed
  moreover have "inj_on (P(c := p)) (set (c # cs))"
    using P(1) cn pn by (auto simp: delivered_def inj_on_def)
  moreover have "\<forall>d \<in> set (c # cs). (P(c := p)) d \<in> packet_slots s w \<and> ptr (packets s ((P(c := p)) d)) = 0 \<and>
                   sent a v sz wr ty (packets s' ((P(c := p)) d))"
  proof
    fix d assume d: "d \<in> set (c # cs)"
    show "(P(c := p)) d \<in> packet_slots s w \<and> ptr (packets s ((P(c := p)) d)) = 0 \<and>
                   sent a v sz wr ty (packets s' ((P(c := p)) d))"
    proof (cases "d = c")
      case True
      have "packets s' p = packets t p" using P(1) pn by (auto simp: delivered_def)
      then show ?thesis using True p by simp
    next
      case False
      with d have dc: "d \<in> set cs" by simp
      with P(1) Pc[OF dc] p(3) slots False show ?thesis by (auto simp: delivered_def)
    qed
  qed
  moreover have "\<forall>x. x \<notin> (P(c := p)) ` set (c # cs) \<longrightarrow> packets s' x = packets s x"
    using P(1) p(3) cn by (auto simp: delivered_def)
  moreover have "pools_kept s s'"
    using P(2) k by (auto simp: pools_kept_def dest: same_rest_trans)
  ultimately show ?case unfolding delivered_def by blast
qed

lemma send_all_fault:
  assumes wf: "packets_wf s" and w: "w < length (packet_begins s)" "w \<noteq> MAIN_PROCESS_WID"
    and rep: "chans_rep s L" and c: "\<forall>c \<in> set cs. chan s c \<noteq> None"
    and f: "rfold (send w a v sz wr ty) cs s = Inl f"
  shows "f = Spin"
  using wf w(1) rep c f
proof (induction cs arbitrary: s L)
  case (Cons c cs)
  show ?case
  proof (cases "send w a v sz wr ty c s")
    case (Inl g)
    with send_fault[OF Cons.prems(1,2) w(2) Cons.prems(3) _ Inl] Cons.prems(4,5) show ?thesis by simp
  next
    case (Inr t)
    from send_ok[OF Cons.prems(1,2) w(2) Cons.prems(3) Inr] obtain p where
      p: "chans_rep t (L(c := L c @ [p]))" "packets_wf t" "same_rest s t" "\<forall>d. chan t d = None \<longleftrightarrow> chan s d = None"
      by blast
    have "w < length (packet_begins t)" using Cons.prems(2) same_restD[OF p(3)] by simp
    from Cons.IH[OF p(2) this p(1)] p(4) Cons.prems(4,5) Inr show ?thesis by simp
  qed
qed simp

text \<open>The queues a forward uses are distinct, because the workers belong to different stages.\<close>

lemma strategy_wf_of_wf:
  assumes "strategy_wf s" "st < num_stages s"
  shows "GET_MY_STAGE s (GET_FIRST_WID_OF_STAGE s st + n mod GET_REPLICATION_FACTOR s st) = st"
  using strat.worker_in_block(2)[OF assms] by simp

lemma forward_chans_distinct:
  assumes "strategy_wf s"
  shows "distinct (forward_chans w iter s)"
proof -
  let ?f = "\<lambda>i. GET_FIRST_WID_OF_STAGE s i + wid_of_iter iter mod GET_REPLICATION_FACTOR s i"
  have "inj_on (\<lambda>i. Ucvf w (?f i)) (set [GET_MY_STAGE s w + 1..<GET_NUM_STAGES s])"
  proof (rule inj_onI)
    fix i j assume *: "i \<in> set [GET_MY_STAGE s w + 1..<GET_NUM_STAGES s]" "j \<in> set [GET_MY_STAGE s w + 1..<GET_NUM_STAGES s]"
      "Ucvf w (?f i) = Ucvf w (?f j)"
    then have ij: "i < num_stages s" "j < num_stages s" and eq: "?f i = ?f j" by (simp_all add: GET_NUM_STAGES_def)
    from strategy_wf_of_wf[OF assms ij(1), of "wid_of_iter iter"]
    have "GET_MY_STAGE s (?f j) = i" unfolding eq .
    with strategy_wf_of_wf[OF assms ij(2), of "wid_of_iter iter"] show "i = j" by (simp only:)
  qed
  then show ?thesis unfolding forward_chans_def by (simp add: distinct_map)
qed

lemma create_packet_chunk_ok:
  assumes wf: "packets_wf s" and w: "w < length (packet_chunk_begins s)"
    and r: "create_packet_chunk w a s = Inr (c, s')"
  shows "c \<in> chunk_slots s w \<and> is_chunk_available (chunks s c) \<and>
         (\<forall>i < PAGE_SIZE. cdata (chunks s' c) i = pmem s (a + of_nat i)) \<and>
         (\<forall>i. i < 64 \<longrightarrow> (csign (chunks s' c) i \<noteq> 0 \<longleftrightarrow>
            i = 0 \<or> (w < try_commit_begin s \<and> GET_MY_STAGE s w < i \<and> i < GET_NUM_STAGES s))) \<and>
         (\<forall>d. d \<noteq> c \<longrightarrow> chunks s' d = chunks s d) \<and> packets_wf s' \<and> same_rest s s' \<and>
         packets s' = packets s \<and> chan s' = chan s \<and> packet_nexts s' = packet_nexts s"
proof -
  from r obtain t where g: "get_available_packet_chunk w s = Inr (c, t)"
      and s': "s' = t\<lparr>chunks := (chunks t)(c := (chunks t c)\<lparr>
         csign := (if w < try_commit_begin t
                    then fold (\<lambda>i f. f(i := 1)) [GET_MY_STAGE t w + 1..<GET_NUM_STAGES t] ((csign (chunks t c))(0 := 1))
                    else (csign (chunks t c))(0 := 1)),
         cdata := (\<lambda>i. if i < PAGE_SIZE then pmem t (a + of_nat i) else cdata (chunks t c) i)\<rparr>)\<rparr>"
    by (auto simp: create_packet_chunk_def rbind_eq_Inr Let_def)
  from get_available_chunk_ok[OF wf w] g obtain nx where c: "c \<in> chunk_slots s w" "is_chunk_available (chunks s c)"
      "packets_wf t" "t = s\<lparr>packet_chunk_nexts := (packet_chunk_nexts s)[w := nx]\<rparr>"
    by auto
  have fold_sign: "fold (\<lambda>i f. f(i := (1 :: byte))) xs g i = (if i \<in> set xs then 1 else g i)" for xs g i
    by (induction xs arbitrary: g) auto
  have z: "\<forall>i < 64. csign (chunks s c) i = 0" using c(2) is_chunk_available_iff by blast
  have sign: "csign (chunks s' c) i \<noteq> 0 \<longleftrightarrow>
      i = 0 \<or> (w < try_commit_begin s \<and> GET_MY_STAGE s w < i \<and> i < GET_NUM_STAGES s)" if "i < 64" for i
    using z that unfolding s' c(4) by (simp add: fold_sign get_defs Suc_le_eq)
  have "packets_wf s'" using c(3) unfolding s' by (simp add: packets_wf_def)
  moreover have "same_rest s s'" unfolding s' c(4) by (simp add: same_rest_def)
  moreover have "\<forall>i < PAGE_SIZE. cdata (chunks s' c) i = pmem s (a + of_nat i)" unfolding s' c(4) by simp
  moreover have "\<forall>d. d \<noteq> c \<longrightarrow> chunks s' d = chunks s d" unfolding s' c(4) by simp
  moreover have "packets s' = packets s" "chan s' = chan s" "packet_nexts s' = packet_nexts s"
    unfolding s' c(4) by simp_all
  ultimately show ?thesis using c(1,2) sign by blast
qed

text \<open>A forward sends to the same queues before and after the chunk was made.\<close>

lemma forward_chans_same: "same_rest s s' \<Longrightarrow> forward_chans w iter s' = forward_chans w iter s"
  by (simp add: forward_chans_def get_defs same_restD)

lemma try_commit_target_same: "same_rest s s' \<Longrightarrow> try_commit_target a s' = try_commit_target a s"
  by (simp add: try_commit_target_def same_restD)

lemma strategy_wf_same: "same_rest s s' \<Longrightarrow> strategy_wf s \<Longrightarrow> strategy_wf s'"
  by (simp add: strategy_wf_def same_restD)

text \<open>The loop over the workers and the send to the try-commit unit are one sending loop.\<close>

lemma rfold_snoc: "rbind (rfold f xs s) (f x) = rfold f (xs @ [x]) s"
proof -
  have "rfold f [x] = f x" by (rule ext) (simp add: rbind_def split: sum.splits)
  then show ?thesis by (simp add: rfold_append)
qed

lemma forward_sends:
  assumes "rbind (rfold (send w a v sz wr ty) (forward_chans w iter s) s) (\<lambda>s.
        if num_aux_workers s = 0 then Inl OutOfRange
        else send w a v sz wr ty (ToTry w (try_commit_target a s)) s) = Inr s'"
    and wf: "packets_wf s" and w: "w < length (packet_begins s)" "w \<noteq> MAIN_PROCESS_WID"
    and rep: "chans_rep s L" and a: "a \<noteq> 0" and d: "strategy_wf s"
  shows "\<exists>P. delivered w (sent a v sz wr ty) (set (forward_chans w iter s) \<union> {ToTry w (try_commit_target a s)}) s L P s' \<and>
           pools_kept s s'"
proof -
  from assms(1) obtain t where t: "rfold (send w a v sz wr ty) (forward_chans w iter s) s = Inr t"
      "send w a v sz wr ty (ToTry w (try_commit_target a t)) t = Inr s'"
    by (auto simp: rbind_eq_Inr split: if_splits)
  from send_all_delivers[OF wf w rep a forward_chans_distinct[OF d] t(1)] have "same_rest s t"
    by (auto simp: pools_kept_def)
  from try_commit_target_same[OF this, of a] t
  have "rfold (send w a v sz wr ty) (forward_chans w iter s @ [ToTry w (try_commit_target a s)]) s = Inr s'"
    by (simp flip: rfold_snoc)
  moreover have "distinct (forward_chans w iter s @ [ToTry w (try_commit_target a s)])"
    using forward_chans_distinct[OF d] by (auto simp: forward_chans_def)
  ultimately show ?thesis using send_all_delivers[OF wf w rep a] by fastforce
qed

subsection \<open>When a send returns\<close>

definition free_packets :: "'a comm_state_scheme \<Rightarrow> wid \<Rightarrow> addr set" where
  "free_packets s w = {a \<in> packet_slots s w. ptr (packets s a) = 0}"

lemma finite_free [simp]: "finite (free_packets s w)"
  by (simp add: free_packets_def packet_slots_def)

text \<open>Queue \<open>c\<close> exists and has room.\<close>

definition has_room :: "'a comm_state_scheme \<Rightarrow> (chan \<Rightarrow> addr list) \<Rightarrow> chan \<Rightarrow> bool" where
  "has_room s L c \<longleftrightarrow> chan s c \<noteq> None \<and> length (L c) < QUEUE_SIZE div 2"

lemma send_returns:
  assumes wf: "packets_wf s" and w: "w < length (packet_begins s)" "w \<noteq> MAIN_PROCESS_WID"
    and rep: "chans_rep s L" and room: "has_room s L c" and free: "free_packets s w \<noteq> {}"
  shows "\<exists>s'. send w a v sz wr ty c s = Inr s'"
proof -
  from free obtain x where x: "x \<in> packet_slots s w" "ptr (packets s x) = 0" by (auto simp: free_packets_def)
  with get_available_packet_ok[OF wf w(1)] obtain p t nx where g: "get_available_packet w s = Inr (p, t)"
      and t: "t = s\<lparr>packet_nexts := (packet_nexts s)[w := nx]\<rparr>"
    by (cases "get_available_packet w s") auto
  let ?u = "t\<lparr>packets := (packets t)(p := fill_packet a v sz wr ty (packets t p))\<rparr>"
  have u: "chans_rep ?u L" "chan ?u c \<noteq> None" using rep room t by (simp_all add: chans_rep_def has_room_def)
  have "chan_produce c p ?u \<noteq> Inl f" for f
    using chan_produce_fault[OF u, of p f] room by (auto simp: has_room_def)
  then show ?thesis using w(2) g by (cases "chan_produce c p ?u") (auto simp: send_def create_packet_def)
qed

lemma send_all_returns:
  assumes wf: "packets_wf s" and w: "w < length (packet_begins s)" "w \<noteq> MAIN_PROCESS_WID"
    and rep: "chans_rep s L" and d: "distinct cs" and room: "\<forall>c \<in> set cs. has_room s L c"
    and free: "length cs \<le> card (free_packets s w)" and a: "a \<noteq> 0"
  shows "\<exists>s'. rfold (send w a v sz wr ty) cs s = Inr s'"
  using wf w(1) rep d room free
proof (induction cs arbitrary: s L)
  case (Cons c cs)
  have "free_packets s w \<noteq> {}" using Cons.prems(6) by auto
  with send_returns[OF Cons.prems(1,2) w(2) Cons.prems(3), of c a v sz wr ty] Cons.prems(5)
  obtain t where t: "send w a v sz wr ty c s = Inr t" by auto
  from send_ok[OF Cons.prems(1,2) w(2) Cons.prems(3) t] obtain p where
    p: "p \<in> packet_slots s w" "ptr (packets s p) = 0"
      "packets t = (packets s)(p := fill_packet a v sz wr ty (packets s p))"
      "chans_rep t (L(c := L c @ [p]))" "packets_wf t" "same_rest s t" "\<forall>d. chan t d = None \<longleftrightarrow> chan s d = None"
    by blast
  note sd = same_restD[OF p(6)]
  have "free_packets t w = free_packets s w - {p}"
    using p(3) a by (auto simp: free_packets_def packet_slots_def sd fill_packet_def)
  moreover have "p \<in> free_packets s w" using p(1,2) by (simp add: free_packets_def)
  ultimately have "length cs \<le> card (free_packets t w)" using Cons.prems(6) by simp
  moreover have "\<forall>d \<in> set cs. has_room t (L(c := L c @ [p])) d"
    using Cons.prems(4,5) p(7) by (auto simp: has_room_def)
  moreover have "w < length (packet_begins t)" "distinct cs" using Cons.prems(2,4) sd by simp_all
  ultimately have "\<exists>s'. rfold (send w a v sz wr ty) cs t = Inr s'" using Cons.IH[OF p(5) _ p(4)] by blast
  then show ?case using t by simp
qed simp

lemma create_packet_chunk_returns:
  assumes wf: "packets_wf s" and w: "w < length (packet_chunk_begins s)"
    and free: "\<exists>c \<in> chunk_slots s w. is_chunk_available (chunks s c)"
  shows "\<exists>c s'. create_packet_chunk w a s = Inr (c, s')"
  using get_available_chunk_ok[OF wf w] free
  by (cases "get_available_packet_chunk w s") (auto simp: create_packet_chunk_def Let_def)

lemma forward_page_returns_aux:
  assumes wf: "packets_wf s" "strategy_wf s" and w: "w < length (packet_begins s)" "w < length (packet_chunk_begins s)"
    and main: "w \<noteq> MAIN_PROCESS_WID" and rep: "chans_rep s L" and a: "a \<noteq> 0"
    and chunk: "\<exists>c \<in> chunk_slots s w. is_chunk_available (chunks s c)"
    and free: "length (forward_chans w iter s) < card (free_packets s w)"
    and room: "\<forall>c \<in> set (forward_chans w iter s) \<union> {ToTry w (try_commit_target a s)}. has_room s L c"
    and aux: "0 < num_aux_workers s"
  shows "\<exists>s'. forward_page w iter a check s = Inr s'"
proof -
  from create_packet_chunk_returns[OF wf(1) w(2) chunk, of a] obtain c t where c: "create_packet_chunk w a s = Inr (c, t)"
    by blast
  note k = create_packet_chunk_ok[OF wf(1) w(2) c]
  have sr: "same_rest s t" and wt: "packets_wf t" and p: "packets t = packets s" and ch: "chan t = chan s"
    using k by auto
  let ?cs = "forward_chans w iter s @ [ToTry w (try_commit_target a s)]"
  have t: "w < length (packet_begins t)" "chans_rep t L"
    using w rep ch by (simp_all add: same_restD[OF sr] chans_rep_def)
  have d: "distinct ?cs" using forward_chans_distinct[OF wf(2)] by (auto simp: forward_chans_def)
  have r: "\<forall>c \<in> set ?cs. has_room t L c" using room by (simp add: has_room_def ch)
  have f: "length ?cs \<le> card (free_packets t w)"
    using free by (simp add: free_packets_def packet_slots_def p same_restD[OF sr])
  let ?f = "send w a c (of_nat sizeof_packet_chunk) (check_num check) SUPER"
  from send_all_returns[OF wt t(1) main t(2) d r f a] obtain s' where "rfold ?f ?cs t = Inr s'" by blast
  then obtain u where u: "rfold ?f (forward_chans w iter s) t = Inr u" "?f (ToTry w (try_commit_target a s)) u = Inr s'"
    by (auto simp: rbind_eq_Inr simp flip: rfold_snoc)
  have d1: "distinct (forward_chans w iter s)" using d by simp
  from send_all_delivers[OF wt t(1) main t(2) a d1 u(1)] have "same_rest t u" by (auto simp: pools_kept_def)
  then have "num_aux_workers u \<noteq> 0" "try_commit_target a u = try_commit_target a s"
    using aux by (simp_all add: try_commit_target_def same_restD[OF sr] same_restD[of t u])
  then show ?thesis using c u by (auto simp: forward_page_def forward_chans_same[OF sr])
qed

text \<open>The queues of a broadcast, as a set.\<close>

lemma broadcast_chans_set:
  assumes "strategy_wf s" "w < strategy_workers s"
  shows "set (broadcast_chans w s) =
         {Ucvf w j | j. j < strategy_workers s \<and> GET_MY_STAGE s w < GET_MY_STAGE s j}"
proof -
  have "(\<exists>i. GET_MY_STAGE s w < i \<and> i < num_stages s \<and> GET_FIRST_WID_OF_STAGE s i \<le> j \<and>
            j < GET_FIRST_WID_OF_STAGE s i + GET_REPLICATION_FACTOR s i) \<longleftrightarrow>
        j < strategy_workers s \<and> GET_MY_STAGE s w < GET_MY_STAGE s j" for j
  proof (intro iffI; (elim exE conjE)?)
    fix i assume i: "GET_MY_STAGE s w < i" "i < num_stages s" "GET_FIRST_WID_OF_STAGE s i \<le> j"
      "j < GET_FIRST_WID_OF_STAGE s i + GET_REPLICATION_FACTOR s i"
    then have "j < strategy_workers s" using strat.block_bound[OF assms(1) i(2)] by linarith
    with strat.stage_iff[OF assms(1) i(2) this] i
    show "j < strategy_workers s \<and> GET_MY_STAGE s w < GET_MY_STAGE s j" by simp
  next
    assume j: "j < strategy_workers s" "GET_MY_STAGE s w < GET_MY_STAGE s j"
    have "GET_MY_STAGE s j < num_stages s" using strat.stage_bound[OF assms(1) j(1)] .
    with strat.stage_iff[OF assms(1) this j(1)] j
    show "\<exists>i. GET_MY_STAGE s w < i \<and> i < num_stages s \<and> GET_FIRST_WID_OF_STAGE s i \<le> j \<and>
            j < GET_FIRST_WID_OF_STAGE s i + GET_REPLICATION_FACTOR s i" by blast
  qed
  moreover have "set (broadcast_chans w s) = {Ucvf w j | j. \<exists>i. GET_MY_STAGE s w < i \<and> i < num_stages s \<and>
      GET_FIRST_WID_OF_STAGE s i \<le> j \<and> j < GET_FIRST_WID_OF_STAGE s i + GET_REPLICATION_FACTOR s i}"
    by (fastforce simp: broadcast_chans_def GET_NUM_STAGES_def Suc_le_eq)
  ultimately show ?thesis by (simp only:)
qed

lemma broadcast_chans_distinct:
  assumes "strategy_wf s" "w < strategy_workers s"
  shows "distinct (broadcast_chans w s @ try_chans w s)"
proof -
  have "distinct (concat (map (\<lambda>i. [GET_FIRST_WID_OF_STAGE s i..<GET_FIRST_WID_OF_STAGE s i + GET_REPLICATION_FACTOR s i])
          [m..<n]))" if "n \<le> num_stages s" for m n
    using that
  proof (induction n)
    case (Suc n)
    have "j \<notin> set (concat (map (\<lambda>i. [GET_FIRST_WID_OF_STAGE s i..<GET_FIRST_WID_OF_STAGE s i + GET_REPLICATION_FACTOR s i])
          [m..<n]))" if "GET_FIRST_WID_OF_STAGE s n \<le> j" for j
    proof
      assume "j \<in> set (concat (map (\<lambda>i. [GET_FIRST_WID_OF_STAGE s i..<GET_FIRST_WID_OF_STAGE s i + GET_REPLICATION_FACTOR s i])
          [m..<n]))"
      then obtain i where i: "i < n" "j < GET_FIRST_WID_OF_STAGE s i + GET_REPLICATION_FACTOR s i" by auto
      have "n < num_stages s" using Suc.prems by simp
      from first_wid_mono[OF assms(1) i(1) this] i(2) that show False by linarith
    qed
    then show ?case using Suc by (cases "m \<le> n") auto
  qed simp
  from this[of "GET_NUM_STAGES s" "GET_MY_STAGE s w + 1"]
  have "distinct (map (Ucvf w) (concat (map (\<lambda>i. [GET_FIRST_WID_OF_STAGE s i..<GET_FIRST_WID_OF_STAGE s i + GET_REPLICATION_FACTOR s i])
          [GET_MY_STAGE s w + 1..<GET_NUM_STAGES s])))"
    by (simp only: distinct_map inj_on_def chan.inject) (simp add: GET_NUM_STAGES_def)
  then have "distinct (broadcast_chans w s)"
    by (simp add: broadcast_chans_def map_concat comp_def)
  then show ?thesis by (auto simp: broadcast_chans_def try_chans_def distinct_map inj_on_def)
qed

lemma try_chans_same: "same_rest s s' \<Longrightarrow> try_chans w s' = try_chans w s"
  by (simp add: try_chans_def same_restD)

subsection \<open>A started pipeline\<close>

text \<open>The state after \<open>init_packets\<close> and \<open>init_queues\<close>, for the concrete instances below.\<close>

definition start :: "strategy \<Rightarrow> nat \<Rightarrow> addr list \<Rightarrow> addr \<Rightarrow> addr list \<Rightarrow> mem \<Rightarrow> comm_state" where
  "start st na pkb cm ckb m =
     init_queues (strategy_workers st) na
       (init_packets (strategy_workers st + na) pkb cm ckb
          \<lparr>num_stages = num_stages st, stage2rep = stage2rep st, wid2stage = wid2stage st,
           stage2firstwid = stage2firstwid st,
           packet_begins = [], packet_ends = [], packet_nexts = [], packet_chunk_begins = [],
           packet_chunk_ends = [], packet_chunk_nexts = [], commit_process_packet_begin = 0,
           commit_process_packet_end = 0, commit_process_packet_next = 0,
           packets = (\<lambda>_. zero_packet), chunks = (\<lambda>_. zero_chunk), chan = (\<lambda>_. None),
           try_commit_begin = strategy_workers st, num_aux_workers = na, pmem = m\<rparr>)"

lemma start_simps [simp]:
  "num_stages (start st na pkb cm ckb m) = num_stages st" "stage2rep (start st na pkb cm ckb m) = stage2rep st"
  "wid2stage (start st na pkb cm ckb m) = wid2stage st" "stage2firstwid (start st na pkb cm ckb m) = stage2firstwid st"
  "try_commit_begin (start st na pkb cm ckb m) = strategy_workers st"
  "num_aux_workers (start st na pkb cm ckb m) = na" "pmem (start st na pkb cm ckb m) = m"
  "packet_begins (start st na pkb cm ckb m) = take (strategy_workers st + na) pkb"
  "packet_chunk_begins (start st na pkb cm ckb m) = take (strategy_workers st + na) ckb"
  "packets (start st na pkb cm ckb m) = (\<lambda>_. zero_packet)" "chunks (start st na pkb cm ckb m) = (\<lambda>_. zero_chunk)"
  by (simp_all add: start_def init_queues_def init_packets_def Let_def)

lemma packets_wf_queues: "packets_wf (init_queues n na s) = packets_wf s"
  by (simp add: init_queues_def packets_wf_def)

lemma start_ok:
  assumes "strategy_wf st" "length pkb = strategy_workers st + na" "length ckb = strategy_workers st + na"
    and "\<forall>b \<in> set (cm # pkb). pool_fits sizeof_packet PACKET_POOL_SIZE b"
    and "\<forall>b \<in> set ckb. pool_fits sizeof_packet_chunk PACKET_POOL_SIZE b"
  shows "packets_wf (start st na pkb cm ckb m)" "strategy_wf (start st na pkb cm ckb m)"
    "chans_rep (start st na pkb cm ckb m) (\<lambda>_. [])"
proof -
  show "packets_wf (start st na pkb cm ckb m)"
    unfolding start_def packets_wf_queues using init_packets_ok[OF assms(2-5)] by blast
  show "strategy_wf (start st na pkb cm ckb m)" using assms(1) by (simp add: strategy_wf_def)
  show "chans_rep (start st na pkb cm ckb m) (\<lambda>_. [])"
    using swq.create_repr by (auto simp: chans_rep_def start_def init_queues_def split: chan.splits option.splits)
qed

lemma start_free:
  assumes "w < length pkb" "w < strategy_workers st + na" "pool_fits sizeof_packet PACKET_POOL_SIZE (pkb ! w)"
  shows "card (free_packets (start st na pkb cm ckb m) w) = PACKET_POOL_SIZE"
proof -
  have "inj_on (slot_at sizeof_packet (pkb ! w)) {..<PACKET_POOL_SIZE}"
    using pk.slot_inj[OF assms(3)] by (simp add: inj_on_def)
  moreover have "free_packets (start st na pkb cm ckb m) w = slot_at sizeof_packet (pkb ! w) ` {..<PACKET_POOL_SIZE}"
    using assms by (auto simp: free_packets_def packet_slots_def zero_packet_def)
  ultimately show ?thesis by (simp add: card_image)
qed

definition two_stages :: strategy where
  "two_stages = \<lparr>num_stages = 2, stage2rep = [1, 1], wid2stage = [0, 1], stage2firstwid = [0, 1]\<rparr>"

lemma two_stages [simp]: "strategy_wf two_stages" "strategy_workers two_stages = 2"
  by (simp_all add: two_stages_def strategy_wf_def strategy_workers_def less_2_cases_iff upt_conv_Cons numeral_2_eq_2 less_Suc_eq)

definition demo :: "mem \<Rightarrow> comm_state" where
  "demo = start two_stages 1 [0x10000000, 0x20000000, 0x30000000] 0x40000000
             [0x1000000000, 0x2000000000, 0x3000000000]"

lemma demo_ok:
  "packets_wf (demo m)" "strategy_wf (demo m)" "chans_rep (demo m) (\<lambda>_. [])"
  "w < 3 \<Longrightarrow> card (free_packets (demo m) w) = PACKET_POOL_SIZE"
proof -
  let ?pk = "[0x10000000, 0x20000000, 0x30000000] :: addr list"
  let ?ck = "[0x1000000000, 0x2000000000, 0x3000000000] :: addr list"
  have l: "length ?pk = strategy_workers two_stages + 1" "length ?ck = strategy_workers two_stages + 1" by simp_all
  have f: "\<forall>b \<in> set (0x40000000 # ?pk). pool_fits sizeof_packet PACKET_POOL_SIZE b"
      "\<forall>b \<in> set ?ck. pool_fits sizeof_packet_chunk PACKET_POOL_SIZE b"
    by (simp_all add: pool_fits_def sizeof_packet_def sizeof_packet_chunk_def PAGE_SIZE_def PACKET_POOL_SIZE_def)
  show "packets_wf (demo m)" "strategy_wf (demo m)" "chans_rep (demo m) (\<lambda>_. [])"
    unfolding demo_def by (rule start_ok[OF two_stages(1) l f])+
  show "card (free_packets (demo m) w) = PACKET_POOL_SIZE" if "w < 3"
    unfolding demo_def
  proof (rule start_free)
    show "pool_fits sizeof_packet PACKET_POOL_SIZE (?pk ! w)"
      using f(1) that by (auto simp: numeral_3_eq_3 less_Suc_eq)
  qed (use that in simp_all)
qed

lemma demo_simps [simp]:
  "forward_chans 0 iter (demo m) = [Ucvf 0 (Suc 0)]" "num_aux_workers (demo m) = 1" "try_commit_begin (demo m) = 2"
  "try_commit_target a (demo m) = 0" "length (packet_begins (demo m)) = 3" "length (packet_chunk_begins (demo m)) = 3"
  "chan (demo m) (Ucvf 0 (Suc 0)) = Some sw_queue_create" "chan (demo m) (ToTry 0 0) = Some sw_queue_create"
  "pmem (demo m) = m"
  by (simp_all add: demo_def forward_chans_def try_commit_target_def get_defs two_stages_def
      strategy_workers_def start_def init_queues_def init_packets_def Let_def numeral_2_eq_2)

lemma demo_forward: "\<exists>s'. forward_page 0 iter 0x5000 check (demo m) = Inr s'"
proof (rule forward_page_returns_aux[OF demo_ok(1,2) _ _ _ demo_ok(3)])
  show "0 \<noteq> MAIN_PROCESS_WID" by (simp add: MAIN_PROCESS_WID_def)
  have "slot_at sizeof_packet_chunk (packet_chunk_begins (demo m) ! 0) 0 \<in> chunk_slots (demo m) 0"
    unfolding chunk_slots_def using ck.n_pos by blast
  moreover have "is_chunk_available (chunks (demo m) c)" for c
    by (simp add: demo_def is_chunk_available_iff zero_chunk_def)
  ultimately show "\<exists>c \<in> chunk_slots (demo m) 0. is_chunk_available (chunks (demo m) c)" by blast
  show "length (forward_chans 0 iter (demo m)) < card (free_packets (demo m) 0)"
    by (simp add: demo_ok(4) PACKET_POOL_SIZE_def)
qed (simp_all add: has_room_def QUEUE_SIZE_def)

lemma demo_broadcast: "\<exists>s'. broadcast_event 0 0xDEADBEEF 0 0 WRITE EOI (demo m) = Inr s'"
proof -
  let ?f = "send 0 0xDEADBEEF 0 0 WRITE EOI"
  have main: "(0 :: nat) \<noteq> MAIN_PROCESS_WID" by (simp add: MAIN_PROCESS_WID_def)
  have c: "broadcast_chans 0 (demo m) = [Ucvf 0 (Suc 0)]" "try_chans 0 (demo m) = [ToTry 0 0]"
    by (simp_all add: broadcast_chans_def try_chans_def demo_def get_defs two_stages_def numeral_2_eq_2)
  have "\<exists>s'. rfold ?f [Ucvf 0 (Suc 0), ToTry 0 0] (demo m) = Inr s'"
    by (rule send_all_returns[OF demo_ok(1) _ main demo_ok(3)])
       (simp_all add: has_room_def QUEUE_SIZE_def demo_ok(4) PACKET_POOL_SIZE_def)
  then obtain t s' where t: "?f (Ucvf 0 (Suc 0)) (demo m) = Inr t" "?f (ToTry 0 0) t = Inr s'"
    by (auto simp: rbind_eq_Inr)
  from send_ok[OF demo_ok(1) _ main demo_ok(3) t(1)] have "same_rest (demo m) t" by auto
  then show ?thesis using t c by (simp add: broadcast_event_def try_chans_same)
qed

text \<open>Flipping the shadow bit moves the page number by $2^{33}$.\<close>

lemma shadow_page_number:
  "unat (drop_bit 12 (get_shadow_of a)) = unat (drop_bit 12 a) + 2 ^ 33 \<or>
   unat (drop_bit 12 a) = unat (drop_bit 12 (get_shadow_of a)) + 2 ^ 33"
proof -
  have len: "33 < LENGTH(64)" by simp
  let ?y = "drop_bit 12 a"
  have x: "drop_bit 12 (get_shadow_of a) = ?y XOR 2 ^ 33"
    unfolding get_shadow_of_def SHADOW_MASK_exp by (rule bit_word_eqI) (auto simp: bit_simps)
  have small: "unat ?y < 2 ^ 52"
  proof -
    have "unat a < 2 ^ 64" using unsigned_less[of a, where 'a = nat] by simp
    then have "unat a div 2 ^ 12 < 2 ^ 52" by (simp add: less_mult_imp_div_less)
    then show ?thesis unfolding unat_drop_bit_eq by (simp add: drop_bit_eq_div)
  qed
  show ?thesis
  proof (cases "bit ?y 33")
    case True
    then have "odd (unat ?y div 2 ^ 33)"
      using bit_unsigned_iff[of ?y 33, where 'a = nat] bit_iff_odd[of "unat ?y" 33] by simp
    then have ge: "2 ^ 33 \<le> unat ?y" by (metis div_less even_zero not_less)
    have "unat (2 ^ 33 :: addr) = 2 ^ 33" by simp
    then have "unat (?y - 2 ^ 33) = unat ?y - 2 ^ 33" using ge by (simp add: unat_sub word_le_nat_alt)
    then show ?thesis using ge True unfolding x xor_exp_eq[OF len] by simp
  next
    case False
    have "unat (?y + of_nat (2 ^ 33)) = unat ?y + 2 ^ 33"
      unfolding unat_add_of_nat using small by simp
    then show ?thesis using False unfolding x xor_exp_eq[OF len] by simp
  qed
qed

lemma mod_shift_iff: "(x + k) mod n = x mod n \<longleftrightarrow> n dvd k" for x k n :: nat
  using mod_eq_dvd_iff_nat[of x "x + k" n] by auto

lemma mod_shift_iff': "x mod n = (x + k) mod n \<longleftrightarrow> n dvd k" for x k n :: nat
  using mod_shift_iff[of x k n] by auto

subsection \<open>Properties\<close>

lemma forward_page_delivered:
  assumes "packets_wf s" "strategy_wf s" "w < length (packet_begins s)" "w < length (packet_chunk_begins s)"
    and "w < try_commit_begin s" "try_commit_begin s \<le> MAX_WORKERS" "chans_rep s L" "a \<noteq> 0"
    and "forward_page w iter a check s = Inr s'"
  shows "\<exists>chunk P.
           delivered w (sent a chunk (of_nat sizeof_packet_chunk) (check_num check) SUPER)
             (set (forward_chans w iter s) \<union> {ToTry w (try_commit_target a s)}) s L P s' \<and>
           chunk \<in> chunk_slots s w \<and> is_chunk_available (chunks s chunk) \<and>
           (\<forall>i < PAGE_SIZE. cdata (chunks s' chunk) i = pmem s (a + of_nat i)) \<and>
           (\<forall>i < MAX_STAGE_NUM. csign (chunks s' chunk) i \<noteq> 0 \<longleftrightarrow>
              i = 0 \<or> GET_MY_STAGE s w < i \<and> i < GET_NUM_STAGES s) \<and>
           (\<forall>d. d \<noteq> chunk \<longrightarrow> chunks s' d = chunks s d) \<and> packets_wf s' \<and> pmem s' = pmem s \<and>
           same_rest s s' \<and> (\<forall>d. chan s' d = None \<longleftrightarrow> chan s d = None)"
proof -
  from assms(9) obtain chunk t where c: "create_packet_chunk w a s = Inr (chunk, t)"
    and f: "rbind (rfold (send w a chunk (of_nat sizeof_packet_chunk) (check_num check) SUPER)
              (forward_chans w iter t) t) (\<lambda>s.
       if num_aux_workers s = 0 then Inl OutOfRange
       else send w a chunk (of_nat sizeof_packet_chunk) (check_num check) SUPER
              (ToTry w (try_commit_target a s)) s) = Inr s'"
    by (auto simp: forward_page_def rbind_eq_Inr)
  note k = create_packet_chunk_ok[OF assms(1,4) c]
  have main: "w \<noteq> MAIN_PROCESS_WID" using assms(5,6) by (simp add: MAIN_PROCESS_WID_def MAX_WORKERS_def)
  have sr: "same_rest s t" and wt: "packets_wf t" and p: "packets t = packets s" and ch: "chan t = chan s"
    using k by auto
  have "w < length (packet_begins t)" "chans_rep t L"
    using assms(3,7) ch by (simp_all add: same_restD[OF sr] chans_rep_def)
  from forward_sends[OF f wt this(1) main this(2) assms(8) strategy_wf_same[OF sr assms(2)]] obtain P where
    P: "delivered w (sent a chunk (of_nat sizeof_packet_chunk) (check_num check) SUPER)
          (set (forward_chans w iter s) \<union> {ToTry w (try_commit_target a s)}) t L P s'" "pools_kept t s'"
    by (auto simp: forward_chans_same[OF sr] try_commit_target_same[OF sr])
  have "delivered w (sent a chunk (of_nat sizeof_packet_chunk) (check_num check) SUPER)
          (set (forward_chans w iter s) \<union> {ToTry w (try_commit_target a s)}) s L P s'"
    using P(1) by (simp add: delivered_def p packet_slots_def same_restD[OF sr])
  moreover have "chunks s' = chunks t" "packets_wf s'" "pmem s' = pmem s"
    "same_rest s s'" "\<forall>d. chan s' d = None \<longleftrightarrow> chan s d = None"
    using P(2) same_restD[OF sr] same_restD[of t s'] same_rest_trans[OF sr] ch by (auto simp: pools_kept_def)
  ultimately show ?thesis using k assms(5) by (auto simp: MAX_STAGE_NUM_def)
qed



text \<open>C30. \<open>forward_page\<close> returns whenever the worker has a free chunk and one free packet per consumer and
  the queues of the consumers exist and have room: the only things it waits for are other processes
  returning chunks and packets or emptying queues.\<close>

theorem forward_page_returns:
  assumes "packets_wf s" "strategy_wf s" "w < length (packet_begins s)" "w < length (packet_chunk_begins s)"
    and "w \<noteq> MAIN_PROCESS_WID" "chans_rep s L" "a \<noteq> 0"
    and "\<exists>c \<in> chunk_slots s w. is_chunk_available (chunks s c)"
    and "length (forward_chans w iter s) < card (free_packets s w)"
    and "\<forall>c \<in> set (forward_chans w iter s) \<union> {ToTry w (try_commit_target a s)}. has_room s L c"
    and "0 < num_aux_workers s"
  shows "\<exists>s'. forward_page w iter a check s = Inr s'"
  by (rule forward_page_returns_aux[OF assms])

theorem forward_page_returns_witness:
  "\<exists>s'. forward_page 0 3 0x5000 CHECK_REQUIRED (demo (\<lambda>_. 9)) = Inr s'"
proof (rule forward_page_returns[OF demo_ok(1,2) _ _ _ demo_ok(3)])
  show "0 \<noteq> MAIN_PROCESS_WID" by (simp add: MAIN_PROCESS_WID_def)
  have "slot_at sizeof_packet_chunk (packet_chunk_begins (demo (\<lambda>_. 9)) ! 0) 0 \<in> chunk_slots (demo (\<lambda>_. 9)) 0"
    unfolding chunk_slots_def using ck.n_pos by blast
  moreover have "is_chunk_available (chunks (demo (\<lambda>_. 9)) c)" for c
    by (simp add: demo_def is_chunk_available_iff zero_chunk_def)
  ultimately show "\<exists>c \<in> chunk_slots (demo (\<lambda>_. 9)) 0. is_chunk_available (chunks (demo (\<lambda>_. 9)) c)" by blast
  show "length (forward_chans 0 3 (demo (\<lambda>_. 9))) < card (free_packets (demo (\<lambda>_. 9)) 0)"
    by (simp add: demo_ok(4) PACKET_POOL_SIZE_def)
qed (simp_all add: has_room_def QUEUE_SIZE_def)

text \<open>Whatever worker \<open>w\<close> and later stage \<open>st\<close>, and whatever iteration: after \<open>init_queues\<close> the queue to
  the worker of \<open>st\<close> that runs the iteration exists, so do the queues to every try-commit unit, from
  each of them to the commit process and back to every worker; all of them are empty.\<close>

theorem init_queues_complete:
  assumes "strategy_wf s" "w < strategy_workers s" "GET_MY_STAGE s w < st" "st < num_stages s" "j < na"
  shows "let s' = init_queues (strategy_workers s) na s in
           chan s' (Ucvf w (worker_of s st iter)) = Some sw_queue_create \<and>
           chan s' (ToTry w j) = Some sw_queue_create \<and> chan s' (ToCommit j) = Some sw_queue_create \<and>
           chan s' (Reverse w) = Some sw_queue_create \<and> chans_rep s' (\<lambda>_. [])"
proof -
  let ?v = "worker_of s st iter"
  have v: "?v < strategy_workers s" "GET_MY_STAGE s ?v = st"
    using strat.worker_in_block[OF assms(1,4), of "wid_of_iter iter"] by (simp_all add: worker_of_def)
  have "GET_FIRST_WID_OF_STAGE s (GET_MY_STAGE s w) + GET_REPLICATION_FACTOR s (GET_MY_STAGE s w) \<le>
        GET_FIRST_WID_OF_STAGE s (GET_MY_STAGE s ?v)"
    unfolding v(2) by (rule first_wid_mono[OF assms(1,3,4)])
  from strat.later_stage_later_wid[OF assms(1,2) v(1) this] have "w < ?v" .
  moreover have "chans_rep (init_queues (strategy_workers s) na s) (\<lambda>_. [])"
    using swq.create_repr by (auto simp: chans_rep_def init_queues_def split: chan.splits option.splits)
  ultimately show ?thesis using assms v by (simp add: init_queues_def Let_def)
qed

theorem init_queues_complete_witness:
  "chan (init_queues 2 1 (demo (\<lambda>_. 0))) (Ucvf 0 (worker_of (demo (\<lambda>_. 0)) 1 5)) = Some sw_queue_create"
proof -
  have "strategy_workers (demo (\<lambda>_. 0)) = 2" by (simp add: demo_def strategy_workers_def two_stages_def)
  moreover have "GET_MY_STAGE (demo (\<lambda>_. 0)) 0 = 0" "num_stages (demo (\<lambda>_. 0)) = 2"
    by (simp_all add: demo_def get_defs two_stages_def)
  ultimately show ?thesis
    using init_queues_complete[OF demo_ok(2), of 0 "\<lambda>_. 0" 1 0 1 5] by (simp add: Let_def)
qed

lemma broadcast_event_delivered:
  assumes "packets_wf s" "strategy_wf s" "w < length (packet_begins s)" "w < strategy_workers s"
    and "try_commit_begin s \<le> MAX_WORKERS" "chans_rep s L" "a \<noteq> 0"
    and "broadcast_event w a sz v wr ty s = Inr s'"
  shows "(try_commit_begin s \<le> w \<longrightarrow> s' = s) \<and>
         (w < try_commit_begin s \<longrightarrow>
           (\<exists>P. delivered w (sent a v sz wr ty)
              ({Ucvf w j | j. j < strategy_workers s \<and> GET_MY_STAGE s w < GET_MY_STAGE s j} \<union>
               {ToTry w i | i. i < num_aux_workers s}) s L P s' \<and> pools_kept s s'))"
proof (cases "w < try_commit_begin s")
  case True
  then have main: "w \<noteq> MAIN_PROCESS_WID" using assms(5) by (simp add: MAIN_PROCESS_WID_def MAX_WORKERS_def)
  from assms(8) True obtain t where t: "rfold (send w a v sz wr ty) (broadcast_chans w s) s = Inr t"
      "rfold (send w a v sz wr ty) (try_chans w t) t = Inr s'"
    by (auto simp: broadcast_event_def rbind_eq_Inr)
  note d = broadcast_chans_distinct[OF assms(2,4)]
  have "distinct (broadcast_chans w s)" using d by simp
  from send_all_delivers[OF assms(1,3) main assms(6,7) this t(1)] have "same_rest s t" by (auto simp: pools_kept_def)
  with t have "rfold (send w a v sz wr ty) (broadcast_chans w s @ try_chans w s) s = Inr s'"
    by (simp add: rfold_append try_chans_same)
  from send_all_delivers[OF assms(1,3) main assms(6,7) d this]
  obtain P where P: "delivered w (sent a v sz wr ty) (set (broadcast_chans w s @ try_chans w s)) s L P s'" "pools_kept s s'"
    by blast
  have "set (broadcast_chans w s @ try_chans w s) =
      {Ucvf w j | j. j < strategy_workers s \<and> GET_MY_STAGE s w < GET_MY_STAGE s j} \<union> {ToTry w i | i. i < num_aux_workers s}"
    using broadcast_chans_set[OF assms(2,4)] by (auto simp: try_chans_def)
  with P True show ?thesis by auto
next
  case False
  then show ?thesis using assms(8) by (auto simp: broadcast_event_def)
qed

text \<open>C29. A broadcast reaches every worker of every later stage and every try-commit unit, each exactly
  once and in its own packet, and nobody else; a call by a try-commit unit does nothing.\<close>

theorem broadcast_event_delivers:
  assumes "packets_wf s" "strategy_wf s" "w < length (packet_begins s)" "w < strategy_workers s"
    and "try_commit_begin s \<le> MAX_WORKERS" "chans_rep s L" "a \<noteq> 0"
    and "broadcast_event w a sz v wr ty s = Inr s'"
  shows "(try_commit_begin s \<le> w \<longrightarrow> s' = s) \<and>
         (w < try_commit_begin s \<longrightarrow>
           (\<exists>P. delivered w (sent a v sz wr ty)
              ({Ucvf w j | j. j < strategy_workers s \<and> GET_MY_STAGE s w < GET_MY_STAGE s j} \<union>
               {ToTry w i | i. i < num_aux_workers s}) s L P s' \<and> pools_kept s s'))"
  by (rule broadcast_event_delivered[OF assms])

theorem broadcast_event_delivers_witness:
  "\<exists>s'. broadcast_event 0 0xDEADBEEF 0 0 WRITE EOI (demo (\<lambda>_. 0)) = Inr s' \<and>
     (\<exists>p. chans_rep s' (\<lambda>c. if c = Ucvf 0 1 \<or> c = ToTry 0 0 then [p c] else []) \<and> pkind (packets s' (p (Ucvf 0 1))) = EOI)"
proof -
  have sw: "strategy_workers (demo (\<lambda>_. 0)) = 2" by (simp add: demo_def strategy_workers_def two_stages_def)
  have w: "(0 :: nat) < length (packet_begins (demo (\<lambda>_. 0)))" "(0 :: nat) < strategy_workers (demo (\<lambda>_. 0))"
      "try_commit_begin (demo (\<lambda>_. 0)) \<le> MAX_WORKERS"
    by (simp_all add: sw MAX_WORKERS_def)
  obtain s' where s': "broadcast_event 0 0xDEADBEEF 0 0 WRITE EOI (demo (\<lambda>_. 0)) = Inr s'"
    using demo_broadcast by blast
  have st: "GET_MY_STAGE (demo (\<lambda>_. 0)) 0 = 0" "GET_MY_STAGE (demo (\<lambda>_. 0)) (Suc 0) = Suc 0"
    by (simp_all add: demo_def get_defs two_stages_def)
  have set: "{Ucvf 0 j | j. j < strategy_workers (demo (\<lambda>_. 0)) \<and> GET_MY_STAGE (demo (\<lambda>_. 0)) 0 < GET_MY_STAGE (demo (\<lambda>_. 0)) j} \<union>
               {ToTry 0 i | i. i < num_aux_workers (demo (\<lambda>_. 0))} = {Ucvf 0 1, ToTry 0 0}"
    unfolding sw by (auto simp: less_2_cases_iff st)
  from broadcast_event_delivers[OF demo_ok(1,2) w demo_ok(3) _ s'] obtain P where
    "delivered 0 (sent 0xDEADBEEF 0 0 WRITE EOI) {Ucvf 0 1, ToTry 0 0} (demo (\<lambda>_. 0)) (\<lambda>_. []) P s'"
    unfolding set by auto
  then have "chans_rep s' (\<lambda>c. if c = Ucvf 0 1 \<or> c = ToTry 0 0 then [P c] else []) \<and> pkind (packets s' (P (Ucvf 0 1))) = EOI"
    by (simp add: delivered_def sent_def cong: if_cong)
  with s' show ?thesis by blast
qed

text \<open>C34. A page and its metadata page go to the same try-commit unit exactly when the number of units
  divides $2^{33}$: for any other number the two packets of a pair land in different queues.\<close>

theorem page_pair_routing:
  "try_commit_target (get_shadow_of a) s = try_commit_target a s \<longleftrightarrow> num_aux_workers s dvd 2 ^ 33"
  using shadow_page_number[of a]
proof
  assume *: "unat (drop_bit 12 (get_shadow_of a)) = unat (drop_bit 12 a) + 2 ^ 33"
  show ?thesis unfolding try_commit_target_def PAGE_SHIFT_def * by (rule mod_shift_iff)
next
  assume *: "unat (drop_bit 12 a) = unat (drop_bit 12 (get_shadow_of a)) + 2 ^ 33"
  show ?thesis unfolding try_commit_target_def PAGE_SHIFT_def * by (rule mod_shift_iff')
qed

text \<open>C35. A packet sent with a null \<open>ptr\<close> (every \<open>ALLOC\<close> packet of \<open>broadcast_malloc_chunk\<close> and the
  metadata packet of every \<open>NORMAL\<close> pair) still counts as free while it is in flight: if no other packet
  of the pool is free, the next send reuses it, and the earlier queue entry then reads the later
  packet's contents.\<close>

theorem null_packet_overwritten:
  assumes "packets_wf s" "w < length (packet_begins s)" "w \<noteq> MAIN_PROCESS_WID" "chans_rep s L"
    and "free_packets s w = {p}" "c \<noteq> d"
    and "send w 0 v sz wr ty c s = Inr s1" "send w a v' sz' wr' ty' d s1 = Inr s2"
  shows "chans_rep s2 (L(c := L c @ [p], d := L d @ [p])) \<and> sent a v' sz' wr' ty' (packets s2 p)"
proof -
  from send_ok[OF assms(1-4,7)] obtain q where q: "q \<in> packet_slots s w" "ptr (packets s q) = 0"
      "packets s1 = (packets s)(q := fill_packet 0 v sz wr ty (packets s q))"
      "chans_rep s1 (L(c := L c @ [q]))" "packets_wf s1" "same_rest s s1" by blast
  have qp: "q = p" using q(1,2) assms(5) by (auto simp: free_packets_def)
  have w1: "w < length (packet_begins s1)" using assms(2) same_restD[OF q(6)] by simp
  from send_ok[OF q(5) w1 assms(3) q(4) assms(8)] obtain r where r: "r \<in> packet_slots s1 w" "ptr (packets s1 r) = 0"
      "packets s2 = (packets s1)(r := fill_packet a v' sz' wr' ty' (packets s1 r))"
      "chans_rep s2 ((L(c := L c @ [q]))(d := (L(c := L c @ [q])) d @ [r]))" by blast
  have "packet_slots s1 w = packet_slots s w" by (simp add: packet_slots_def same_restD[OF q(6)])
  with r(1,2) q(3) assms(5) have "r \<in> free_packets s w \<or> r = p"
    by (auto simp: free_packets_def qp split: if_splits)
  then have "r = p" using assms(5) by auto
  with r qp assms(6) show ?thesis by simp
qed

lemma one_free:
  defines "s \<equiv> (demo (\<lambda>_. 0))\<lparr>packets := (\<lambda>a. if a = 0x10000000 then zero_packet else zero_packet\<lparr>ptr := 1\<rparr>)\<rparr>"
  shows "packets_wf s" "0 < length (packet_begins s)" "chans_rep s (\<lambda>_. [])" "free_packets s 0 = {0x10000000}"
    "chan s (Ucvf 0 (Suc 0)) = Some sw_queue_create" "chan s (ToTry 0 0) = Some sw_queue_create"
proof -
  show "packets_wf s" using demo_ok(1)[of "\<lambda>_. 0"] by (simp add: s_def packets_wf_def)
  show "0 < length (packet_begins s)" by (simp add: s_def)
  show "chans_rep s (\<lambda>_. [])" using demo_ok(3)[of "\<lambda>_. 0"] by (simp add: s_def chans_rep_def)
  have b: "packet_begins s ! 0 = 0x10000000" by (simp add: s_def demo_def)
  have "slot_at sizeof_packet (packet_begins s ! 0) 0 \<in> packet_slots s 0"
    unfolding packet_slots_def using pk.n_pos by blast
  then have "0x10000000 \<in> packet_slots s 0" unfolding b by (simp add: slot_at_def)
  then show "free_packets s 0 = {0x10000000}"
    by (auto simp: free_packets_def s_def zero_packet_def split: if_splits)
  show "chan s (Ucvf 0 (Suc 0)) = Some sw_queue_create" "chan s (ToTry 0 0) = Some sw_queue_create"
    by (simp_all add: s_def)
qed

theorem null_packet_overwritten_witness:
  "\<exists>s s1 s2 :: comm_state. send 0 0 7 8 1 NORMAL (Ucvf 0 1) s = Inr s1 \<and> send 0 0x5000 9 8 1 NORMAL (ToTry 0 0) s1 = Inr s2 \<and>
     chans_rep s2 ((\<lambda>_. [])(Ucvf 0 1 := [0x10000000], ToTry 0 0 := [0x10000000])) \<and>
     pval (packets s2 0x10000000) = 9"
proof -
  define s where "s = (demo (\<lambda>_. 0))\<lparr>packets := (\<lambda>a. if a = 0x10000000 then zero_packet else zero_packet\<lparr>ptr := 1\<rparr>)\<rparr>"
  note o = one_free[folded s_def]
  have main: "(0 :: nat) \<noteq> MAIN_PROCESS_WID" by (simp add: MAIN_PROCESS_WID_def)
  obtain s1 where s1: "send 0 0 7 8 1 NORMAL (Ucvf 0 1) s = Inr s1"
    using send_returns[OF o(1,2) main o(3), of "Ucvf 0 1" 0 7 8 1 NORMAL] o(4,5) by (auto simp: has_room_def QUEUE_SIZE_def)
  from send_ok[OF o(1,2) main o(3) s1] obtain q where q: "q \<in> packet_slots s 0"
      "packets s1 = (packets s)(q := fill_packet 0 7 8 1 NORMAL (packets s q))"
      "chans_rep s1 ((\<lambda>_. [])(Ucvf 0 1 := [q]))" "packets_wf s1" "same_rest s s1"
      "\<forall>d. chan s1 d = None \<longleftrightarrow> chan s d = None" by auto
  note sd = same_restD[OF q(5)]
  have "q \<in> free_packets s1 0" using q(1,2) by (simp add: free_packets_def packet_slots_def sd fill_packet_def)
  then have f: "free_packets s1 0 \<noteq> {}" by blast
  have r: "has_room s1 ((\<lambda>_. [])(Ucvf 0 1 := [q])) (ToTry 0 0)" using q(6) o(6) by (simp add: has_room_def QUEUE_SIZE_def)
  have w1: "0 < length (packet_begins s1)" using o(2) sd by simp
  obtain s2 where s2: "send 0 0x5000 9 8 1 NORMAL (ToTry 0 0) s1 = Inr s2"
    using send_returns[OF q(4) w1 main q(3) r f] by blast
  from null_packet_overwritten[OF o(1,2) main o(3,4) _ s1 s2]
  have "chans_rep s2 ((\<lambda>_. [])(Ucvf 0 1 := [0x10000000], ToTry 0 0 := [0x10000000])) \<and> pval (packets s2 0x10000000) = 9"
    by (simp add: sent_def)
  with s1 s2 show ?thesis by blast
qed

end
