(* ===== verification/Ver_Malloc.thy ===== *)
theory Ver_Malloc
  imports Communicate Memops
begin

unbundle bit_operations_syntax

section \<open>Versioned allocation\<close>

text \<open>
  Models \<open>smtx/malloc.cpp\<close> and \<open>malloc.h\<close>. Every process keeps, for every worker, a bump allocator over
  that worker's share of the range \<open>[VER_MALLOC_CHUNK_BEGIN, VER_MALLOC_CHUNK_BOUND)\<close>; a worker allocates
  from its own share with \<open>ver_malloc\<close>, buffers a record of the allocation and broadcasts the records,
  and the other processes replay them with \<open>update_ver_malloc\<close>, so that all replicas agree on the
  layout of the heap.

  Pages are mapped on demand with \<open>mmap(MAP_FIXED)\<close>: the parameter \<open>mm\<close> says at which addresses a
  mapping succeeds, and a successful mapping zeroes the pages. \<open>ver_malloc_buffer[w].elem\<close> is memory of
  the process at the address \<open>vm_elem w\<close>. \<open>shadow_malloc\<close> and its relatives belong to the allocator the
  runtime is linked with: their result is an argument.
\<close>

record ver_malloc_chunk =
  vbegin :: addr
  vend :: addr
  vnext :: addr
  vnextchunk :: addr

record malloc_state = comm_state +
  ver_malloc_chunks :: "ver_malloc_chunk list"
  vm_elem :: "wid \<Rightarrow> addr"
  vm_index :: "wid \<Rightarrow> nat"
  shadow_heaps :: "addr set"
  heap_size_map :: "addr \<rightharpoonup> 64 word"
  my_wid :: wid

definition sizeof_instance :: nat where "sizeof_instance = 16"

subsection \<open>Setting up\<close>

text \<open>The loop of \<open>ver_malloc_init\<close>: worker \<open>i\<close> gets \<open>chunks_per_worker\<close> chunks, the first \<open>rem\<close> one more.\<close>

fun vm_split :: "nat \<Rightarrow> nat \<Rightarrow> nat \<Rightarrow> nat \<Rightarrow> nat \<Rightarrow> ver_malloc_chunk list" where
  "vm_split i 0 per rem n = []"
| "vm_split i (Suc k) per rem n =
     (let sz = per * VER_MALLOC_CHUNKSIZE + (if i < rem then VER_MALLOC_CHUNKSIZE else 0)
      in \<lparr>vbegin = of_nat n, vend = of_nat (n + sz), vnext = of_nat n, vnextchunk = of_nat n\<rparr>
         # vm_split (Suc i) k per rem (n + sz))"

definition ver_malloc_init :: "'a malloc_state_scheme \<Rightarrow> 'a malloc_state_scheme" where
  "ver_malloc_init s =
     (let num_chunks = (VER_MALLOC_CHUNK_BOUND - VER_MALLOC_CHUNK_BEGIN) div VER_MALLOC_CHUNKSIZE
      in s\<lparr>ver_malloc_chunks := vm_split 0 MAX_WORKERS (num_chunks div MAX_WORKERS) (num_chunks mod MAX_WORKERS)
             VER_MALLOC_CHUNK_BEGIN,
           vm_index := (\<lambda>_. 0)\<rparr>)"

subsection \<open>Records of allocations\<close>

definition zero_range :: "addr \<Rightarrow> nat \<Rightarrow> mem \<Rightarrow> mem" where
  "zero_range a n m = (\<lambda>x. if unat (x - a) < n then 0 else m x)"

text \<open>\<open>elem->ptr = ptr; elem->size = size; elem->heap = heap\<close>.\<close>

definition store_instance :: "addr \<Rightarrow> addr \<Rightarrow> 32 word \<Rightarrow> 32 word \<Rightarrow> mem \<Rightarrow> mem" where
  "store_instance e p sz h m = store_le 4 (store_le 4 (store_le 8 m e p) (e + 8) sz) (e + 12) h"

definition buffer_ver_malloc :: "wid \<Rightarrow> addr \<Rightarrow> 32 word \<Rightarrow> 32 word \<Rightarrow> 'a malloc_state_scheme \<Rightarrow> 'a malloc_state_scheme res" where
  "buffer_ver_malloc wid p sz h s =
     rbind (if vm_index s wid = PAGE_SIZE
            then rbind (broadcast_malloc_chunk wid (vm_elem s wid) (of_nat (PAGE_SIZE * sizeof_instance)) s)
                   (\<lambda>s. Inr (s\<lparr>pmem := zero_range (vm_elem s wid) (PAGE_SIZE * sizeof_instance) (pmem s),
                               vm_index := (vm_index s)(wid := 0)\<rparr>))
            else Inr s)
       (\<lambda>s. Inr (s\<lparr>pmem := store_instance (vm_elem s wid + of_nat (sizeof_instance * vm_index s wid)) p sz h (pmem s),
                   vm_index := (vm_index s)(wid := vm_index s wid + 1)\<rparr>))"

subsection \<open>Allocating\<close>

text \<open>
  The mapping loop. It returns the new \<open>nextchunk\<close> and memory, and whether all mappings succeeded;
  an address that would wrap around is never reached below \<open>next\<close>, the loop would not end there.
\<close>

function vm_map :: "(addr \<Rightarrow> bool) \<Rightarrow> addr \<Rightarrow> addr \<Rightarrow> mem \<Rightarrow> (bool \<times> addr \<times> mem) res" where
  "vm_map mm nextchunk nxt m =
     (if nextchunk < nxt then
        if unat nextchunk + VER_MALLOC_CHUNKSIZE < 2 ^ 64 then
          if \<not> mm nextchunk then Inr (False, nextchunk, m)
          else if \<not> mm (get_shadow_of nextchunk) then Inr (False, nextchunk, m)
          else vm_map mm (nextchunk + of_nat VER_MALLOC_CHUNKSIZE) nxt
                 (zero_range (get_shadow_of nextchunk) VER_MALLOC_CHUNKSIZE
                    (zero_range nextchunk VER_MALLOC_CHUNKSIZE m))
        else Inl Spin
      else Inr (True, nextchunk, m))"
  by pat_completeness auto
termination
proof (relation "measure (\<lambda>(mm, nc, nxt, m). unat nxt - unat nc)", goal_cases)
  case (2 mm nc nxt m)
  have "unat (nc + of_nat VER_MALLOC_CHUNKSIZE) = unat nc + VER_MALLOC_CHUNKSIZE"
    unfolding unat_add_of_nat using 2(2) by (rule mod_less)
  moreover have "0 < VER_MALLOC_CHUNKSIZE" by (simp add: VER_MALLOC_CHUNKSIZE_def)
  ultimately show ?case using 2(1) by (simp add: word_less_nat_alt)
qed simp

declare vm_map.simps [simp del]

definition set_vm :: "wid \<Rightarrow> ver_malloc_chunk \<Rightarrow> 'a malloc_state_scheme \<Rightarrow> 'a malloc_state_scheme" where
  "set_vm wid c s = s\<lparr>ver_malloc_chunks := (ver_malloc_chunks s)[wid := c]\<rparr>"

text \<open>\<open>ver_malloc(wid, size)\<close>; the result 0 is \<open>NULL\<close>. A failed mapping leaves the pages mapped so far.\<close>

definition ver_malloc :: "(addr \<Rightarrow> bool) \<Rightarrow> wid \<Rightarrow> 64 word \<Rightarrow> 'a malloc_state_scheme \<Rightarrow> (addr \<times> 'a malloc_state_scheme) res" where
  "ver_malloc mm wid sz0 s =
     (if wid < length (ver_malloc_chunks s) then
        let c = ver_malloc_chunks s ! wid;
            ret = vnext c;
            sz = ROUND_UP sz0 (of_nat ALIGNMENT);
            nxt = ret + sz
        in if \<not> nxt < vend c then Inl AssertFailed
           else rbind (vm_map mm (vnextchunk c) nxt (pmem s)) (\<lambda>(ok, nc, m).
             if \<not> ok then Inr (0, set_vm wid (c\<lparr>vnextchunk := nc\<rparr>) (s\<lparr>pmem := m\<rparr>))
             else
               rbind (buffer_ver_malloc wid ret (ucast sz) (- 1)
                        (set_vm wid (c\<lparr>vnext := nxt, vnextchunk := nc\<rparr>) (s\<lparr>pmem := m\<rparr>))) (\<lambda>s.
                 let shadow = get_shadow_of (ret AND PAGE_MASK)
                 in Inr (ret, s\<lparr>pmem := (pmem s)(shadow := pmem s shadow OR 0x80)\<rparr>)))
      else Inl OutOfRange)"

text \<open>The values of \<open>page_shadow_begin\<close> in the loop of \<open>insert_shadow_heap_pages\<close>.\<close>

definition shadow_pages :: "addr \<Rightarrow> 64 word \<Rightarrow> addr list" where
  "shadow_pages p sz =
     (let b = get_shadow_of (p AND PAGE_MASK);
          e = get_shadow_of ((p + sz - 1) AND PAGE_MASK)
      in map (\<lambda>k. b + of_nat (k * PAGE_SIZE)) [0..<if b \<le> e then (unat e - unat b) div PAGE_SIZE + 1 else 0])"

definition insert_shadow_heap_pages :: "addr \<Rightarrow> 64 word \<Rightarrow> 'a malloc_state_scheme \<Rightarrow> 'a malloc_state_scheme" where
  "insert_shadow_heap_pages p sz s = s\<lparr>shadow_heaps := shadow_heaps s \<union> set (shadow_pages p sz)\<rparr>"

definition update_ver_malloc :: "(addr \<Rightarrow> bool) \<Rightarrow> wid \<Rightarrow> 64 word \<Rightarrow> addr \<Rightarrow> 'a malloc_state_scheme \<Rightarrow>
    (addr \<times> 'a malloc_state_scheme) res" where
  "update_ver_malloc mm wid sz0 p s =
     (if wid < length (ver_malloc_chunks s) then
        let c = ver_malloc_chunks s ! wid;
            ret = vnext c;
            sz = ROUND_UP sz0 (of_nat ALIGNMENT);
            nxt = ret + sz
        in if ret \<noteq> p then Inl AssertFailed
           else if \<not> nxt < vend c then Inl AssertFailed
           else if vnextchunk c < nxt then
             if \<not> mm (vnextchunk c) then Inl AssertFailed
             else if \<not> mm (get_shadow_of (vnextchunk c)) then Inl AssertFailed
             else Inr (ret, insert_shadow_heap_pages ret sz
               (set_vm wid (c\<lparr>vnext := nxt, vnextchunk := vnextchunk c + of_nat VER_MALLOC_CHUNKSIZE\<rparr>)
                 (s\<lparr>pmem := zero_range (get_shadow_of (vnextchunk c)) VER_MALLOC_CHUNKSIZE
                    (zero_range (vnextchunk c) VER_MALLOC_CHUNKSIZE (pmem s))\<rparr>)))
           else Inr (ret, insert_shadow_heap_pages ret sz (set_vm wid (c\<lparr>vnext := nxt\<rparr>) s))
      else Inl OutOfRange)"

definition ver_free :: "wid \<Rightarrow> addr \<Rightarrow> 'a malloc_state_scheme \<Rightarrow> 'a malloc_state_scheme res" where
  "ver_free wid p s = broadcast_event wid p 0 0 WRITE FREE s"

definition update_ver_free :: "wid \<Rightarrow> addr \<Rightarrow> 'a malloc_state_scheme \<Rightarrow> 'a malloc_state_scheme" where
  "update_ver_free wid p s = s"

subsection \<open>The entry points the compiler calls\<close>

definition is_in_special_region :: "addr \<Rightarrow> bool" where
  "is_in_special_region p \<longleftrightarrow>
     VER_MALLOC_CHUNK_BEGIN \<le> unat p \<and> unat p < VER_MALLOC_CHUNK_BOUND \<or>
     SEPARATION_HEAP_BEGIN \<le> unat p \<and> unat p < SEPARATION_HEAP_BOUND \<or>
     VER_SEPARATION_HEAP_BEGIN \<le> unat p \<and> unat p < VER_SEPARATION_HEAP_BOUND"

definition note_block :: "addr \<Rightarrow> 64 word \<Rightarrow> 'a malloc_state_scheme \<Rightarrow> 'a malloc_state_scheme" where
  "note_block p sz s =
     insert_shadow_heap_pages p sz (s\<lparr>heap_size_map := (heap_size_map s)(p \<mapsto> sz)\<rparr>)"

definition prefix_ver_malloc :: "(addr \<Rightarrow> bool) \<Rightarrow> 64 word \<Rightarrow> 'a malloc_state_scheme \<Rightarrow> (addr \<times> 'a malloc_state_scheme) res" where
  "prefix_ver_malloc mm sz s =
     rbind (ver_malloc mm (my_wid s) sz s) (\<lambda>(ret, s).
       Inr (ret, note_block ret sz (s\<lparr>pmem := ver_write ret (ucast sz) (pmem s)\<rparr>)))"

definition prefix_ver_calloc :: "(addr \<Rightarrow> bool) \<Rightarrow> 64 word \<Rightarrow> 64 word \<Rightarrow> 'a malloc_state_scheme \<Rightarrow> (addr \<times> 'a malloc_state_scheme) res" where
  "prefix_ver_calloc mm num sz s = prefix_ver_malloc mm (num * sz) s"

text \<open>\<open>memcpy(dst, src, n)\<close> of blocks that do not overlap.\<close>

definition copy_range :: "addr \<Rightarrow> addr \<Rightarrow> nat \<Rightarrow> mem \<Rightarrow> mem" where
  "copy_range dst src n m = (\<lambda>x. if unat (x - dst) < n then m (src + (x - dst)) else m x)"

definition prefix_ver_realloc :: "(addr \<Rightarrow> bool) \<Rightarrow> addr \<Rightarrow> 64 word \<Rightarrow> 'a malloc_state_scheme \<Rightarrow> (addr \<times> 'a malloc_state_scheme) res" where
  "prefix_ver_realloc mm p sz s =
     rbind (ver_malloc mm (my_wid s) sz s) (\<lambda>(ret, s).
     rbind (if p \<noteq> 0 \<and> p \<noteq> ret then
              case heap_size_map s p of
                None \<Rightarrow> Inl AssertFailed
              | Some oldsize \<Rightarrow>
                  Inr (s\<lparr>pmem := copy_range ret p (unat oldsize) (ver_read p (ucast oldsize) (pmem s)),
                         heap_size_map := (heap_size_map s)(p := None)\<rparr>)
            else Inr s) (\<lambda>s.
       Inr (ret, note_block ret sz (s\<lparr>pmem := ver_write ret (ucast sz) (pmem s)\<rparr>))))"

text \<open>
  \<open>ver_free\<close> and \<open>free\<close> have the same body. The second component says whether the block is handed to
  \<open>shadow_free\<close>.
\<close>

definition prefix_free :: "addr \<Rightarrow> 'a malloc_state_scheme \<Rightarrow> bool \<times> 'a malloc_state_scheme" where
  "prefix_free p s =
     (\<not> is_in_special_region p, if p \<noteq> 0 then s\<lparr>heap_size_map := (heap_size_map s)(p := None)\<rparr> else s)"

definition prefix_malloc :: "addr \<Rightarrow> 64 word \<Rightarrow> 'a malloc_state_scheme \<Rightarrow> 'a malloc_state_scheme" where
  "prefix_malloc ret sz s = note_block ret sz s"

definition prefix_calloc :: "addr \<Rightarrow> 64 word \<Rightarrow> 64 word \<Rightarrow> 'a malloc_state_scheme \<Rightarrow> 'a malloc_state_scheme" where
  "prefix_calloc ret num sz s = note_block ret (num * sz) s"

definition prefix_realloc :: "addr \<Rightarrow> addr \<Rightarrow> 64 word \<Rightarrow> 'a malloc_state_scheme \<Rightarrow> 'a malloc_state_scheme" where
  "prefix_realloc ret p sz s =
     note_block ret sz
       (if p \<noteq> 0 \<and> p \<noteq> ret then s\<lparr>heap_size_map := (heap_size_map s)(p := None)\<rparr> else s)"

subsection \<open>The bump allocator\<close>

definition vm_ok :: "ver_malloc_chunk \<Rightarrow> bool" where
  "vm_ok c \<longleftrightarrow>
     unat (vbegin c) \<le> unat (vnext c) \<and> unat (vnext c) \<le> unat (vnextchunk c) \<and>
     unat (vnextchunk c) \<le> unat (vend c) \<and> unat (vend c) < 2 ^ 62 \<and>
     unat (vnext c) mod ALIGNMENT = 0 \<and> unat (vnextchunk c) mod VER_MALLOC_CHUNKSIZE = 0 \<and>
     unat (vend c) mod VER_MALLOC_CHUNKSIZE = 0"

text \<open>A size rounded up to the alignment.\<close>

definition rounded :: "64 word \<Rightarrow> nat" where
  "rounded sz = (unat sz + 63) div 64 * 64"

lemma rounded_ge: "unat sz \<le> rounded sz"
  unfolding rounded_def by (simp add: mult.commute)

lemma rounded_mod [simp]: "rounded sz mod ALIGNMENT = 0"
  by (simp add: rounded_def ALIGNMENT_def)

lemma unat_rounded:
  assumes "unat sz < 2 ^ 62"
  shows "unat (ROUND_UP sz (of_nat ALIGNMENT)) = rounded sz"
proof -
  have "(of_nat ALIGNMENT :: addr) = 2 ^ 6" by (simp add: ALIGNMENT_def)
  moreover have "unat sz + (2 ^ 6 - 1) < 2 ^ 64"
  proof -
    have "(2 :: nat) ^ 62 + (2 ^ 6 - 1) < 2 ^ 64" by simp
    with assms show ?thesis by linarith
  qed
  ultimately show ?thesis using unat_round_up[of 6 sz] by (simp add: rounded_def)
qed

lemma rounded_bound: "unat sz < 2 ^ 62 \<Longrightarrow> rounded sz < 2 ^ 63"
proof -
  assume "unat sz < 2 ^ 62"
  moreover have "rounded sz \<le> unat sz + 63" by (simp add: rounded_def)
  moreover have "(2 :: nat) ^ 62 + 63 < 2 ^ 63" by simp
  ultimately show ?thesis by linarith
qed

lemma unat_plus_rounded:
  assumes "unat p < 2 ^ 62" "unat sz < 2 ^ 62"
  shows "unat (p + ROUND_UP sz (of_nat ALIGNMENT)) = unat p + rounded sz"
proof -
  have "(2 :: nat) ^ 62 + 2 ^ 63 < 2 ^ 64" by simp
  then have "unat p + rounded sz < 2 ^ 64" using assms(1) rounded_bound[OF assms(2)] by linarith
  then show ?thesis using unat_rounded[OF assms(2)] by (simp add: unat_word_ariths)
qed

lemma vm_map_ok:
  assumes "unat nxt < 2 ^ 62" "unat nc mod VER_MALLOC_CHUNKSIZE = 0"
  shows "\<exists>ok nc' m'. vm_map mm nc nxt m = Inr (ok, nc', m') \<and> unat nc \<le> unat nc' \<and>
           unat nc' mod VER_MALLOC_CHUNKSIZE = 0 \<and> (ok \<longrightarrow> unat nxt \<le> unat nc') \<and>
           unat nc' < max (unat nc + 1) (unat nxt + VER_MALLOC_CHUNKSIZE) \<and>
           ((\<forall>a. mm a) \<longrightarrow> ok)"
  using assms
proof (induction mm nc nxt m rule: vm_map.induct)
  case (1 mm nc nxt m)
  show ?case
  proof (cases "nc < nxt")
    case False
    then have "vm_map mm nc nxt m = Inr (True, nc, m)" by (simp add: vm_map.simps[of mm nc nxt m])
    moreover have "unat nxt \<le> unat nc" using False by (simp add: word_less_nat_alt)
    ultimately show ?thesis using 1(3) by (intro exI[of _ True] exI[of _ nc] exI[of _ m]) simp
  next
    case True
    have "(2 :: nat) ^ 62 + VER_MALLOC_CHUNKSIZE < 2 ^ 64" by (simp add: VER_MALLOC_CHUNKSIZE_def)
    then have lt: "unat nc + VER_MALLOC_CHUNKSIZE < 2 ^ 64" using True 1(2) by (simp add: word_less_nat_alt)
    then have u: "unat (nc + of_nat VER_MALLOC_CHUNKSIZE) = unat nc + VER_MALLOC_CHUNKSIZE"
      unfolding unat_add_of_nat by (rule mod_less)
    show ?thesis
    proof (cases "mm nc \<and> mm (get_shadow_of nc)")
      case False
      then have "vm_map mm nc nxt m = Inr (False, nc, m)" using True lt by (simp add: vm_map.simps[of mm nc nxt m])
      then show ?thesis using False 1(3) by (intro exI[of _ False] exI[of _ nc] exI[of _ m]) auto
    next
      case ok: True
      have nn: "\<not> \<not> mm nc" "\<not> \<not> mm (get_shadow_of nc)" using ok by simp_all
      have "unat (nc + of_nat VER_MALLOC_CHUNKSIZE) mod VER_MALLOC_CHUNKSIZE = 0" using 1(3) u by simp
      from 1(1)[OF True lt nn 1(2) this] obtain k nc' m' where r:
        "vm_map mm (nc + of_nat VER_MALLOC_CHUNKSIZE) nxt
           (zero_range (get_shadow_of nc) VER_MALLOC_CHUNKSIZE (zero_range nc VER_MALLOC_CHUNKSIZE m)) = Inr (k, nc', m')"
        "unat nc + VER_MALLOC_CHUNKSIZE \<le> unat nc'" "unat nc' mod VER_MALLOC_CHUNKSIZE = 0"
        "k \<longrightarrow> unat nxt \<le> unat nc'" "(\<forall>a. mm a) \<longrightarrow> k"
        "unat nc' < max (unat nc + VER_MALLOC_CHUNKSIZE + 1) (unat nxt + VER_MALLOC_CHUNKSIZE)"
        unfolding u by (elim exE conjE) (rule that; assumption)
      have "unat nc < unat nxt" using True by (simp add: word_less_nat_alt)
      with r(6) have "unat nc' < max (unat nc + 1) (unat nxt + VER_MALLOC_CHUNKSIZE)" by (simp add: max_def split: if_splits)
      moreover have "vm_map mm nc nxt m = Inr (k, nc', m')"
        using r(1) True lt ok by (simp add: vm_map.simps[of mm nc nxt m])
      ultimately show ?thesis using r(2-5) by (intro exI[of _ k] exI[of _ nc'] exI[of _ m']) simp
    qed
  qed
qed

lemma mult_below_next:
  assumes "a < b + k" "b mod k = 0" "a mod k = (0 :: nat)"
  shows "a \<le> b"
proof -
  from assms(2,3) obtain p q where "a = k * p" "b = k * q" by (metis mod_0_imp_dvd dvdE)
  with assms(1) have "k * p < k * Suc q" by simp
  then have "p < Suc q" using mult_less_cancel1 by blast
  with \<open>a = k * p\<close> \<open>b = k * q\<close> show ?thesis by simp
qed

lemma same_rest_malloc:
  assumes "same_rest s (s' :: 'a malloc_state_scheme)"
  shows "ver_malloc_chunks s' = ver_malloc_chunks s" "vm_elem s' = vm_elem s" "vm_index s' = vm_index s"
    "shadow_heaps s' = shadow_heaps s" "heap_size_map s' = heap_size_map s" "my_wid s' = my_wid s"
proof -
  have *: "s' = s\<lparr>packet_nexts := packet_nexts s', packet_chunk_nexts := packet_chunk_nexts s',
            commit_process_packet_next := commit_process_packet_next s',
            packets := packets s', chunks := chunks s', chan := chan s'\<rparr>"
    using assms by (simp add: same_rest_def)
  show "ver_malloc_chunks s' = ver_malloc_chunks s" by (subst *) simp
  show "vm_elem s' = vm_elem s" by (subst *) simp
  show "vm_index s' = vm_index s" by (subst *) simp
  show "shadow_heaps s' = shadow_heaps s" by (subst *) simp
  show "heap_size_map s' = heap_size_map s" by (subst *) simp
  show "my_wid s' = my_wid s" by (subst *) simp
qed

lemma buffer_ver_malloc_frame:
  assumes "buffer_ver_malloc w p sz h s = Inr s'"
  shows "ver_malloc_chunks s' = ver_malloc_chunks s" "shadow_heaps s' = shadow_heaps s"
    "heap_size_map s' = heap_size_map s" "my_wid s' = my_wid s"
  using assms
  by (auto simp: buffer_ver_malloc_def rbind_eq_Inr same_rest_malloc dest!: broadcast_malloc_chunk_frame split: if_splits)

text \<open>
  The step all allocation routines share: bump \<open>next\<close> by the rounded size and map what is missing.
\<close>

lemma bump_step:
  assumes c: "vm_ok c" and sz: "unat sz < 2 ^ 62" and lt: "vnext c + ROUND_UP sz (of_nat ALIGNMENT) < vend c"
    and v: "vm_map mm (vnextchunk c) (vnext c + ROUND_UP sz (of_nat ALIGNMENT)) m = Inr (True, nc, m')"
  shows "vm_ok (c\<lparr>vnext := vnext c + ROUND_UP sz (of_nat ALIGNMENT), vnextchunk := nc\<rparr>)"
    "unat (vnext c + ROUND_UP sz (of_nat ALIGNMENT)) = unat (vnext c) + rounded sz"
    "unat (vnext c) + rounded sz < unat (vend c)"
proof -
  let ?nxt = "vnext c + ROUND_UP sz (of_nat ALIGNMENT)"
  have l62: "unat (vnext c) < 2 ^ 62" using c by (simp add: vm_ok_def)
  show n: "unat ?nxt = unat (vnext c) + rounded sz" by (rule unat_plus_rounded[OF l62 sz])
  show "unat (vnext c) + rounded sz < unat (vend c)" using lt n by (simp add: word_less_nat_alt)
  have end62: "unat ?nxt < 2 ^ 62" using lt c by (simp add: vm_ok_def word_less_nat_alt)
  from vm_map_ok[OF end62, of "vnextchunk c" mm m] c v have nc: "unat (vnextchunk c) \<le> unat nc"
      "unat nc mod VER_MALLOC_CHUNKSIZE = 0" "unat ?nxt \<le> unat nc"
      "unat nc < max (unat (vnextchunk c) + 1) (unat ?nxt + VER_MALLOC_CHUNKSIZE)"
    by (auto simp: vm_ok_def)
  have "unat nc \<le> unat (vend c)"
  proof -
    have "unat nc < unat (vend c) + VER_MALLOC_CHUNKSIZE"
      using nc(4) lt c by (auto simp: vm_ok_def word_less_nat_alt max_def VER_MALLOC_CHUNKSIZE_def split: if_splits)
    moreover have "unat (vend c) mod VER_MALLOC_CHUNKSIZE = 0" using c by (simp add: vm_ok_def)
    ultimately show ?thesis using nc(2) by (rule mult_below_next)
  qed
  moreover have "(unat (vnext c) + rounded sz) mod ALIGNMENT = 0"
    using c by (simp add: vm_ok_def mod_add_eq[symmetric])
  ultimately show "vm_ok (c\<lparr>vnext := ?nxt, vnextchunk := nc\<rparr>)"
    using c nc(2,3) n by (simp add: vm_ok_def)
qed

lemma ver_malloc_ok:
  assumes w: "w < length (ver_malloc_chunks s)" and c: "vm_ok (ver_malloc_chunks s ! w)" and sz: "unat sz < 2 ^ 62"
    and r: "ver_malloc mm w sz s = Inr (ret, s')" and ret: "ret \<noteq> 0"
  shows "ret = vnext (ver_malloc_chunks s ! w)"
    "\<exists>nc. ver_malloc_chunks s' = (ver_malloc_chunks s)[w := (ver_malloc_chunks s ! w)\<lparr>
        vnext := ret + ROUND_UP sz (of_nat ALIGNMENT), vnextchunk := nc\<rparr>]"
    "vm_ok (ver_malloc_chunks s' ! w)"
    "unat (vnext (ver_malloc_chunks s' ! w)) = unat ret + rounded sz"
    "unat ret + rounded sz < unat (vend (ver_malloc_chunks s ! w))"
proof -
  let ?c = "ver_malloc_chunks s ! w"
  let ?nxt = "vnext ?c + ROUND_UP sz (of_nat ALIGNMENT)"
  have lt: "?nxt < vend ?c" by (rule ccontr) (use r w in \<open>simp add: ver_malloc_def Let_def\<close>)
  obtain ok nc m where v0: "vm_map mm (vnextchunk ?c) ?nxt (pmem s) = Inr (ok, nc, m)"
    using r w lt by (cases "vm_map mm (vnextchunk ?c) ?nxt (pmem s)") (auto simp: ver_malloc_def Let_def)
  have v: "vm_map mm (vnextchunk ?c) ?nxt (pmem s) = Inr (True, nc, m)"
    using r w lt v0 ret by (cases ok) (simp_all add: ver_malloc_def Let_def)
  obtain t where b: "buffer_ver_malloc w (vnext ?c) (ucast (ROUND_UP sz (of_nat ALIGNMENT))) (- 1)
         (set_vm w (?c\<lparr>vnext := ?nxt, vnextchunk := nc\<rparr>) (s\<lparr>pmem := m\<rparr>)) = Inr t"
      and s': "ret = vnext ?c" "ver_malloc_chunks s' = ver_malloc_chunks t"
    using r w lt v by (auto simp: ver_malloc_def Let_def rbind_eq_Inr)
  note st = bump_step[OF c sz lt v]
  show "ret = vnext ?c" by (rule s'(1))
  have vc: "ver_malloc_chunks s' = (ver_malloc_chunks s)[w := ?c\<lparr>vnext := ?nxt, vnextchunk := nc\<rparr>]"
    using buffer_ver_malloc_frame(1)[OF b] s'(2) by (simp add: set_vm_def)
  then show "\<exists>nc. ver_malloc_chunks s' = (ver_malloc_chunks s)[w := ?c\<lparr>
        vnext := ret + ROUND_UP sz (of_nat ALIGNMENT), vnextchunk := nc\<rparr>]" using s'(1) by auto
  have c': "ver_malloc_chunks s' ! w = ?c\<lparr>vnext := ?nxt, vnextchunk := nc\<rparr>" using vc w by simp
  show "vm_ok (ver_malloc_chunks s' ! w)" unfolding c' by (rule st(1))
  show "unat (vnext (ver_malloc_chunks s' ! w)) = unat ret + rounded sz" using c' st(2) s'(1) by simp
  show "unat ret + rounded sz < unat (vend ?c)" using st(3) s'(1) by simp
qed

subsection \<open>The shares of the workers\<close>

definition vm_start :: "nat \<Rightarrow> nat \<Rightarrow> nat \<Rightarrow> nat \<Rightarrow> nat \<Rightarrow> nat" where
  "vm_start i per rem n j = n + (j * per + (min (i + j) rem - min i rem)) * VER_MALLOC_CHUNKSIZE"

lemma vm_start_Suc: "vm_start i per rem n (Suc j) =
    vm_start (Suc i) per rem (n + per * VER_MALLOC_CHUNKSIZE + (if i < rem then VER_MALLOC_CHUNKSIZE else 0)) j"
proof -
  define d where "d = min (Suc i + j) rem - min (Suc i) rem"
  have "min (i + Suc j) rem - min i rem = d + (if i < rem then 1 else 0)"
    by (auto simp: d_def min_def)
  then show ?thesis unfolding vm_start_def d_def[symmetric] by (simp add: add_mult_distrib)
qed

lemma length_vm_split [simp]: "length (vm_split i k per rem n) = k"
  by (induction k arbitrary: i n) (auto simp: Let_def)

lemma vm_split_nth:
  assumes "j < k"
  shows "vm_split i k per rem n ! j =
    \<lparr>vbegin = of_nat (vm_start i per rem n j), vend = of_nat (vm_start i per rem n (Suc j)),
     vnext = of_nat (vm_start i per rem n j), vnextchunk = of_nat (vm_start i per rem n j)\<rparr>"
  using assms
proof (induction k arbitrary: i n j)
  case (Suc k)
  show ?case
  proof (cases j)
    case 0
    then show ?thesis unfolding 0 vm_start_Suc by (simp add: Let_def vm_start_def ac_simps)
  next
    case (Suc l)
    with Suc.prems have "l < k" by simp
    from Suc.IH[OF this, of "Suc i" "n + per * VER_MALLOC_CHUNKSIZE + (if i < rem then VER_MALLOC_CHUNKSIZE else 0)"]
    show ?thesis unfolding Suc vm_start_Suc by (simp only: vm_split.simps Let_def nth_Cons_Suc add.assoc)
  qed
qed simp

lemma vm_start_mono: "j \<le> k \<Longrightarrow> vm_start i per rem n j \<le> vm_start i per rem n k"
  unfolding vm_start_def by (intro add_left_mono mult_right_mono add_mono mult_right_mono diff_le_mono) auto

lemma vm_start_total: "0 < k \<Longrightarrow> vm_start 0 (t div k) (t mod k) n k = n + t * VER_MALLOC_CHUNKSIZE"
proof -
  assume "0 < k"
  then have "min (0 + k) (t mod k) - min 0 (t mod k) = t mod k" by (simp add: min_absorb2 less_imp_le)
  then show ?thesis unfolding vm_start_def by (simp add: add.commute mult.commute)
qed

lemma vm_start_0 [simp]: "vm_start i per rem n 0 = n"
  by (simp add: vm_start_def)

text \<open>A range of whole chunks split evenly: consecutive, well-formed, empty heaps that fill the range.\<close>

lemma vm_split_ok:
  assumes k: "0 < k" and b: "n + t * VER_MALLOC_CHUNKSIZE < 2 ^ 62" and n: "n mod VER_MALLOC_CHUNKSIZE = 0"
    and hs: "hs = vm_split 0 k (t div k) (t mod k) n" and j: "j < k"
  shows "vm_ok (hs ! j)" "vnext (hs ! j) = vbegin (hs ! j)" "n \<le> unat (vbegin (hs ! j))"
    "unat (vend (hs ! j)) \<le> n + t * VER_MALLOC_CHUNKSIZE"
    "i < j \<Longrightarrow> unat (vend (hs ! i)) \<le> unat (vbegin (hs ! j))"
proof -
  let ?st = "vm_start 0 (t div k) (t mod k) n"
  have le: "?st i \<le> n + t * VER_MALLOC_CHUNKSIZE" if "i \<le> k" for i
    using vm_start_mono[OF that, of 0 "t div k" "t mod k" n] vm_start_total[OF k, of t n] by simp
  have u: "unat (of_nat (?st i) :: addr) = ?st i" if "i \<le> k" for i
  proof -
    have "(2 :: nat) ^ 62 < 2 ^ 64" by simp
    then have "?st i < 2 ^ 64" using le[OF that] b by linarith
    then show ?thesis by (simp only: unat_of_nat) simp
  qed
  have ge: "n \<le> ?st i" for i by (simp add: vm_start_def)
  have m: "?st i mod VER_MALLOC_CHUNKSIZE = 0" for i
    unfolding vm_start_def using n by (simp add: mod_add_eq[symmetric])
  have a: "?st i mod ALIGNMENT = 0" for i
  proof -
    have "ALIGNMENT dvd VER_MALLOC_CHUNKSIZE" by (simp add: ALIGNMENT_def VER_MALLOC_CHUNKSIZE_def)
    then show ?thesis using m[of i] by (metis dvd_trans mod_0_imp_dvd mod_greater_zero_iff_not_dvd not_gr0)
  qed
  have st: "?st j \<le> ?st (Suc j)" by (rule vm_start_mono) simp
  note nth = vm_split_nth[of _ k 0 "t div k" "t mod k" n, folded hs]
  have uj: "unat (of_nat (?st j) :: addr) = ?st j" "unat (of_nat (?st (Suc j)) :: addr) = ?st (Suc j)"
    using u j by simp_all
  have b62: "?st (Suc j) < 2 ^ 62" using le[of "Suc j"] j b by linarith
  show "vm_ok (hs ! j)" unfolding nth[OF j] vm_ok_def using st m a uj b62 by simp
  show "vnext (hs ! j) = vbegin (hs ! j)" unfolding nth[OF j] by simp
  show "n \<le> unat (vbegin (hs ! j))" unfolding nth[OF j] using uj ge by simp
  show "unat (vend (hs ! j)) \<le> n + t * VER_MALLOC_CHUNKSIZE" unfolding nth[OF j] using uj le[of "Suc j"] j by simp
  show "unat (vend (hs ! i)) \<le> unat (vbegin (hs ! j))" if "i < j"
  proof -
    have i: "i < k" "Suc i \<le> k" using that j by simp_all
    have "?st (Suc i) \<le> ?st j" by (rule vm_start_mono) (use that in simp)
    then show ?thesis unfolding nth[OF i(1)] nth[OF j] using uj u[OF i(2)] by simp
  qed
qed

abbreviation vm_per :: nat where "vm_per \<equiv> (VER_MALLOC_CHUNK_BOUND - VER_MALLOC_CHUNK_BEGIN) div VER_MALLOC_CHUNKSIZE div MAX_WORKERS"
abbreviation vm_rem :: nat where "vm_rem \<equiv> (VER_MALLOC_CHUNK_BOUND - VER_MALLOC_CHUNK_BEGIN) div VER_MALLOC_CHUNKSIZE mod MAX_WORKERS"

abbreviation vm_share :: "nat \<Rightarrow> nat" where
  "vm_share j \<equiv> vm_start 0 vm_per vm_rem VER_MALLOC_CHUNK_BEGIN j"

lemma vm_share_ends: "vm_share 0 = VER_MALLOC_CHUNK_BEGIN" "vm_share MAX_WORKERS = VER_MALLOC_CHUNK_BOUND"
  by (simp_all add: vm_start_def layout_defs)

lemma unat_vm_share: "j \<le> MAX_WORKERS \<Longrightarrow> unat (of_nat (vm_share j) :: addr) = vm_share j"
proof -
  assume "j \<le> MAX_WORKERS"
  then have "vm_share j \<le> VER_MALLOC_CHUNK_BOUND" using vm_start_mono vm_share_ends(2) by metis
  also have "VER_MALLOC_CHUNK_BOUND < 2 ^ 64" by (simp add: VER_MALLOC_CHUNK_BOUND_def)
  finally show ?thesis by (simp only: unat_of_nat) simp
qed

lemma init_chunks: "ver_malloc_chunks (ver_malloc_init s) = vm_split 0 MAX_WORKERS vm_per vm_rem VER_MALLOC_CHUNK_BEGIN"
  by (simp add: ver_malloc_init_def Let_def)

lemma vm_share_ok:
  assumes "j < MAX_WORKERS"
  shows "vm_ok (ver_malloc_chunks (ver_malloc_init s) ! j)"
proof -
  have b: "vm_share (Suc j) \<le> VER_MALLOC_CHUNK_BOUND" using vm_start_mono vm_share_ends(2) assms by (metis Suc_leI)
  have m: "vm_share i mod VER_MALLOC_CHUNKSIZE = 0" for i
    unfolding vm_start_def by (simp add: VER_MALLOC_CHUNK_BEGIN_def VER_MALLOC_CHUNKSIZE_def mod_add_eq[symmetric])
  then have "vm_share i mod ALIGNMENT = 0" for i
  proof -
    have "ALIGNMENT dvd VER_MALLOC_CHUNKSIZE" by (simp add: ALIGNMENT_def VER_MALLOC_CHUNKSIZE_def)
    then show ?thesis using m[of i] by (metis dvd_trans mod_0_imp_dvd mod_greater_zero_iff_not_dvd not_gr0)
  qed
  moreover have "VER_MALLOC_CHUNK_BOUND < 2 ^ 62" by (simp add: VER_MALLOC_CHUNK_BOUND_def)
  moreover have "vm_share j \<le> vm_share (Suc j)" by (rule vm_start_mono) simp
  ultimately show ?thesis
    unfolding init_chunks vm_split_nth[OF assms] vm_ok_def using assms b m by (simp add: unat_vm_share del: of_nat_add)
qed

subsection \<open>The contract of a bump allocator\<close>

text \<open>A run of allocations with any allocator: the addresses in order.\<close>

fun allocate :: "(64 word \<Rightarrow> 's \<Rightarrow> (addr \<times> 's) res) \<Rightarrow> 64 word list \<Rightarrow> 's \<Rightarrow> (addr list \<times> 's) res" where
  "allocate alloc [] s = Inr ([], s)"
| "allocate alloc (sz # szs) s =
     rbind (alloc sz s) (\<lambda>(p, s). rbind (allocate alloc szs s) (\<lambda>(ps, s). Inr (p # ps, s)))"

text \<open>
  What every allocation routine promises of the share it works on; the three heaps of the runtime
  (versioned, separation, versioned separation) are instances.
\<close>

locale bump_heap =
  fixes alloc :: "64 word \<Rightarrow> 's \<Rightarrow> (addr \<times> 's) res"
    and share :: "'s \<Rightarrow> ver_malloc_chunk"
    and ready :: "'s \<Rightarrow> bool"
  assumes bump: "ready s \<Longrightarrow> vm_ok (share s) \<Longrightarrow> unat sz < 2 ^ 62 \<Longrightarrow> alloc sz s = Inr (p, s') \<Longrightarrow> p \<noteq> 0 \<Longrightarrow>
      ready s' \<and> vm_ok (share s') \<and> p = vnext (share s) \<and> unat (vnext (share s')) = unat p + rounded sz \<and>
      unat p + rounded sz < unat (vend (share s)) \<and> vend (share s') = vend (share s)"
begin

lemma allocate_run:
  assumes "allocate alloc szs s = Inr (ps, s')" "ready s" "vm_ok (share s)"
    and "\<forall>sz \<in> set szs. unat sz < 2 ^ 62" "0 \<notin> set ps"
  shows "length ps = length szs \<and>
         (\<forall>i < length ps. unat (vnext (share s)) \<le> unat (ps ! i) \<and> unat (ps ! i) mod ALIGNMENT = 0 \<and>
            unat (ps ! i) + rounded (szs ! i) < unat (vend (share s))) \<and>
         (\<forall>i j. i < j \<and> j < length ps \<longrightarrow> unat (ps ! i) + rounded (szs ! i) \<le> unat (ps ! j))"
  using assms
proof (induction szs arbitrary: s ps)
  case Nil
  then show ?case by simp
next
  case (Cons sz szs)
  from Cons.prems(1) obtain p t qs where a: "alloc sz s = Inr (p, t)" "allocate alloc szs t = Inr (qs, s')"
      and ps: "ps = p # qs"
    by (auto simp: rbind_eq_Inr)
  have p0: "p \<noteq> 0" and q0: "0 \<notin> set qs" using Cons.prems(5) ps by auto
  have sz: "unat sz < 2 ^ 62" using Cons.prems(4) by simp
  note v = bump[OF Cons.prems(2,3) sz a(1) p0]
  have v': "ready t" "vm_ok (share t)" "p = vnext (share s)" "unat (vnext (share t)) = unat p + rounded sz"
      "unat p + rounded sz < unat (vend (share s))" "vend (share t) = vend (share s)" using v by blast+
  from Cons.IH[OF a(2) v'(1,2) _ q0] Cons.prems(4) have IH: "length qs = length szs"
      "\<forall>i < length qs. unat p + rounded sz \<le> unat (qs ! i) \<and> unat (qs ! i) mod ALIGNMENT = 0 \<and>
            unat (qs ! i) + rounded (szs ! i) < unat (vend (share s))"
      "\<forall>i j. i < j \<and> j < length qs \<longrightarrow> unat (qs ! i) + rounded (szs ! i) \<le> unat (qs ! j)"
    unfolding v'(4,6) by auto
  have pa: "unat p mod ALIGNMENT = 0" using Cons.prems(3) v'(3) by (simp add: vm_ok_def)
  have "\<forall>i < length ps. unat (vnext (share s)) \<le> unat (ps ! i) \<and> unat (ps ! i) mod ALIGNMENT = 0 \<and>
            unat (ps ! i) + rounded ((sz # szs) ! i) < unat (vend (share s))"
  proof (intro allI impI)
    fix i assume i: "i < length ps"
    show "unat (vnext (share s)) \<le> unat (ps ! i) \<and> unat (ps ! i) mod ALIGNMENT = 0 \<and>
            unat (ps ! i) + rounded ((sz # szs) ! i) < unat (vend (share s))"
    proof (cases i)
      case 0
      then show ?thesis using ps v'(3,5) pa by simp
    next
      case (Suc k)
      with i ps have "k < length qs" by simp
      with IH(2) have "unat p + rounded sz \<le> unat (qs ! k) \<and> unat (qs ! k) mod ALIGNMENT = 0 \<and>
            unat (qs ! k) + rounded (szs ! k) < unat (vend (share s))" by blast
      then show ?thesis unfolding Suc ps v'(3)[symmetric] by simp
    qed
  qed
  moreover have "unat (ps ! i) + rounded ((sz # szs) ! i) \<le> unat (ps ! j)" if ij: "i < j" "j < length ps" for i j
  proof -
    obtain l where l: "j = Suc l" "l < length qs" using ij ps by (cases j) auto
    show ?thesis
    proof (cases i)
      case 0
      then show ?thesis using l IH(2) ps by simp
    next
      case (Suc k)
      then show ?thesis using l IH(3) ps ij(1) by simp
    qed
  qed
  ultimately show ?case using IH(1) ps by simp
qed

text \<open>Blocks of a run are aligned, inside the share and pairwise disjoint.\<close>

lemma blocks_disjoint:
  assumes "allocate alloc szs s = Inr (ps, s')" "ready s" "vm_ok (share s)"
    and "\<forall>sz \<in> set szs. unat sz < 2 ^ 62" "0 \<notin> set ps" "i < j" "j < length szs"
  shows "unat (ps ! i) + unat (szs ! i) \<le> unat (ps ! j) \<and> unat (ps ! j) mod ALIGNMENT = 0 \<and>
         unat (vbegin (share s)) \<le> unat (ps ! i) \<and> unat (ps ! j) + unat (szs ! j) \<le> unat (vend (share s))"
proof -
  note a = allocate_run[OF assms(1-5)]
  have i: "i < length ps" "j < length ps" using assms(6,7) a by auto
  have "unat (vbegin (share s)) \<le> unat (vnext (share s))"
    using assms(3) by (simp add: vm_ok_def)
  with a i assms(6) rounded_ge[of "szs ! i"] rounded_ge[of "szs ! j"] show ?thesis
    by (meson le_trans add_left_mono less_imp_le)
qed

end

lemma ver_malloc_length:
  assumes "ver_malloc mm w sz s = Inr (ret, s')"
  shows "length (ver_malloc_chunks s') = length (ver_malloc_chunks s)"
  using assms by (auto simp: ver_malloc_def Let_def rbind_eq_Inr set_vm_def buffer_ver_malloc_frame split: if_splits)

interpretation vm: bump_heap "ver_malloc mm w" "\<lambda>s. ver_malloc_chunks s ! w" "\<lambda>s. w < length (ver_malloc_chunks s)"
  for mm w
proof (unfold_locales, intro conjI)
  fix s :: "'a malloc_state_scheme" and sz p s'
  assume a: "w < length (ver_malloc_chunks s)" "vm_ok (ver_malloc_chunks s ! w)" "unat sz < 2 ^ 62"
    "ver_malloc mm w sz s = Inr (p, s')" "p \<noteq> 0"
  note v = ver_malloc_ok[OF a]
  show "w < length (ver_malloc_chunks s')" using ver_malloc_length[OF a(4)] a(1) by simp
  show "vm_ok (ver_malloc_chunks s' ! w)" "p = vnext (ver_malloc_chunks s ! w)"
    "unat (vnext (ver_malloc_chunks s' ! w)) = unat p + rounded sz"
    "unat p + rounded sz < unat (vend (ver_malloc_chunks s ! w))" by (rule v)+
  show "vend (ver_malloc_chunks s' ! w) = vend (ver_malloc_chunks s ! w)" using v(2) a(1) by auto
qed

text \<open>The size field of a record has 32 bits and was rounded already.\<close>

lemma transmitted_size:
  assumes "rounded sz \<le> VER_MALLOC_CHUNKSIZE"
  shows "ROUND_UP (ucast (ucast (ROUND_UP sz (of_nat ALIGNMENT)) :: 32 word)) (of_nat ALIGNMENT) = ROUND_UP sz (of_nat ALIGNMENT)"
proof -
  let ?x = "ROUND_UP sz (of_nat ALIGNMENT)"
  have sz: "unat sz < 2 ^ 62" using rounded_ge[of sz] assms by (simp add: VER_MALLOC_CHUNKSIZE_def)
  note u = unat_rounded[OF sz]
  have small: "unat ?x \<le> 4096" using u assms by (simp add: VER_MALLOC_CHUNKSIZE_def)
  have "unat (ucast (ucast ?x :: 32 word) :: addr) = unat ?x"
  proof -
    have "unat (ucast (ucast ?x :: 32 word) :: addr) = unat (take_bit 32 ?x)"
      by (simp add: unsigned_ucast_eq)
    also have "\<dots> = unat ?x mod 2 ^ 32" unfolding unsigned_take_bit_eq by (simp add: take_bit_eq_mod)
    also have "\<dots> = unat ?x" using small by simp
    finally show ?thesis .
  qed
  then have e: "(ucast (ucast ?x :: 32 word) :: addr) = ?x" by (rule unsigned_word_eqI)
  have "rounded ?x = rounded sz" unfolding rounded_def[of ?x] u by (simp add: rounded_def)
  moreover have "unat (ROUND_UP ?x (of_nat ALIGNMENT)) = rounded ?x" using small by (intro unat_rounded) simp
  ultimately have "ROUND_UP ?x (of_nat ALIGNMENT) = ?x" using u by (metis unsigned_word_eqI)
  with e show ?thesis by simp
qed

lemma chunk_step:
  assumes "unat (a :: addr) < 2 ^ 62"
  shows "unat (a + of_nat VER_MALLOC_CHUNKSIZE) = unat a + VER_MALLOC_CHUNKSIZE"
proof -
  have "(2 :: nat) ^ 62 + VER_MALLOC_CHUNKSIZE < 2 ^ 64" by (simp add: VER_MALLOC_CHUNKSIZE_def)
  then have "unat a + VER_MALLOC_CHUNKSIZE < 2 ^ 64" using assms by linarith
  then show ?thesis unfolding unat_add_of_nat by (rule mod_less)
qed

lemma mult_below_next':
  assumes "a < b" "b mod k = 0" "a mod k = (0 :: nat)"
  shows "a + k \<le> b"
proof -
  from assms(2,3) obtain p q where "a = k * p" "b = k * q" by (metis mod_0_imp_dvd dvdE)
  with assms(1) have "p < q" using mult_less_cancel1 by blast
  then have "k * Suc p \<le> k * q" by (intro mult_le_mono2) simp
  with \<open>a = k * p\<close> \<open>b = k * q\<close> show ?thesis by simp
qed

text \<open>Up to one chunk beyond the mapped part, the mapping loop runs at most once.\<close>

lemma vm_map_one:
  assumes c: "vm_ok c" and n: "unat nxt = unat (vnext c) + r" and r: "r \<le> VER_MALLOC_CHUNKSIZE"
    and v: "vm_map mm (vnextchunk c) nxt m = Inr (True, nc, m')"
  shows "nc = (if vnextchunk c < nxt then vnextchunk c + of_nat VER_MALLOC_CHUNKSIZE else vnextchunk c)"
proof (cases "vnextchunk c < nxt")
  case False
  then show ?thesis using v by (simp add: vm_map.simps[of mm "vnextchunk c" nxt m])
next
  case True
  have l62: "unat (vnextchunk c) < 2 ^ 62" using c by (simp add: vm_ok_def)
  note st = chunk_step[OF l62]
  have "unat (vnextchunk c) + VER_MALLOC_CHUNKSIZE < 2 ^ 64"
  proof -
    have "(2 :: nat) ^ 62 + VER_MALLOC_CHUNKSIZE < 2 ^ 64" by (simp add: VER_MALLOC_CHUNKSIZE_def)
    then show ?thesis using l62 by linarith
  qed
  moreover have "\<not> vnextchunk c + of_nat VER_MALLOC_CHUNKSIZE < nxt"
    using c n r st by (simp add: vm_ok_def word_less_nat_alt)
  ultimately show ?thesis using v True
    by (auto simp: vm_map.simps[of mm "vnextchunk c" nxt m] vm_map.simps[of mm "vnextchunk c + of_nat VER_MALLOC_CHUNKSIZE" nxt]
        split: if_splits)
qed

text \<open>When an allocation returns.\<close>

lemma ver_malloc_returns:
  assumes w: "w < length (ver_malloc_chunks s)" and c: "vm_ok (ver_malloc_chunks s ! w)" and sz: "unat sz < 2 ^ 62"
    and mm: "\<forall>a. mm a" and ix: "vm_index s w < PAGE_SIZE"
    and fit: "unat (vnext (ver_malloc_chunks s ! w)) + rounded sz < unat (vend (ver_malloc_chunks s ! w))"
  shows "\<exists>s'. ver_malloc mm w sz s = Inr (vnext (ver_malloc_chunks s ! w), s') \<and> vm_index s' w = Suc (vm_index s w)"
proof -
  let ?c = "ver_malloc_chunks s ! w"
  let ?nxt = "vnext ?c + ROUND_UP sz (of_nat ALIGNMENT)"
  have l62: "unat (vnext ?c) < 2 ^ 62" using c by (simp add: vm_ok_def)
  have n: "unat ?nxt = unat (vnext ?c) + rounded sz" by (rule unat_plus_rounded[OF l62 sz])
  then have lt: "?nxt < vend ?c" using fit by (simp add: word_less_nat_alt)
  have end62: "unat ?nxt < 2 ^ 62" using fit n c by (simp add: vm_ok_def)
  from vm_map_ok[OF end62, of "vnextchunk ?c" mm "pmem s"] c mm obtain nc m
    where "vm_map mm (vnextchunk ?c) ?nxt (pmem s) = Inr (True, nc, m)" by (auto simp: vm_ok_def)
  then show ?thesis using w lt ix by (simp add: ver_malloc_def Let_def buffer_ver_malloc_def set_vm_def)
qed

definition mdemo :: malloc_state where
  "mdemo = ver_malloc_init (comm_state.extend (demo (\<lambda>_. 0))
     (malloc_state.fields [] (\<lambda>w. 0x7f0000000000) (\<lambda>_. 0) {} Map.empty 0))"

lemma mdemo_ok: "0 < length (ver_malloc_chunks mdemo)" "vm_ok (ver_malloc_chunks mdemo ! 0)" "vm_index mdemo w = 0"
  using vm_share_ok[of 0] by (simp_all add: mdemo_def init_chunks MAX_WORKERS_def) (simp add: ver_malloc_init_def Let_def)

lemma mdemo_share:
  "unat (vnext (ver_malloc_chunks mdemo ! 0)) = VER_MALLOC_CHUNK_BEGIN"
  "VER_MALLOC_CHUNK_BEGIN + 2 ^ 30 < unat (vend (ver_malloc_chunks mdemo ! 0))"
proof -
  have n: "(0 :: nat) < MAX_WORKERS" by (simp add: MAX_WORKERS_def)
  show "unat (vnext (ver_malloc_chunks mdemo ! 0)) = VER_MALLOC_CHUNK_BEGIN"
    unfolding mdemo_def init_chunks vm_split_nth[OF n] using unat_vm_share[of 0] vm_share_ends(1) by simp
  have "vm_share (Suc 0) = VER_MALLOC_CHUNK_BEGIN + (vm_per + 1) * VER_MALLOC_CHUNKSIZE"
    by (simp add: vm_start_def layout_defs)
  then show "VER_MALLOC_CHUNK_BEGIN + 2 ^ 30 < unat (vend (ver_malloc_chunks mdemo ! 0))"
    unfolding mdemo_def init_chunks vm_split_nth[OF n] using unat_vm_share[of "Suc 0"] n
    by (simp add: layout_defs)
qed

lemma mdemo_allocate: "\<exists>ps s'. allocate (ver_malloc (\<lambda>_. True) 0) [100, 200] mdemo = Inr (ps, s') \<and> 0 \<notin> set ps"
proof -
  have r: "rounded 100 = 128" "rounded 200 = 256" by (simp_all add: rounded_def)
  have nz: "vnext (ver_malloc_chunks mdemo ! 0) \<noteq> 0"
    using mdemo_share(1) by (auto simp: VER_MALLOC_CHUNK_BEGIN_def)
  have "\<exists>s'. ver_malloc (\<lambda>_. True) 0 100 mdemo = Inr (vnext (ver_malloc_chunks mdemo ! 0), s') \<and>
          vm_index s' 0 = Suc (vm_index mdemo 0)"
    by (rule ver_malloc_returns) (use mdemo_ok mdemo_share r in \<open>auto simp: PAGE_SIZE_def\<close>)
  then obtain t where t: "ver_malloc (\<lambda>_. True) 0 100 mdemo = Inr (vnext (ver_malloc_chunks mdemo ! 0), t)"
      "vm_index t 0 = 1" using mdemo_ok(3) by auto
  note v = ver_malloc_ok[OF mdemo_ok(1,2) _ t(1) nz]
  have e: "vend (ver_malloc_chunks t ! 0) = vend (ver_malloc_chunks mdemo ! 0)" using v(2) mdemo_ok(1) by auto
  have "\<exists>s'. ver_malloc (\<lambda>_. True) 0 200 t = Inr (vnext (ver_malloc_chunks t ! 0), s') \<and>
          vm_index s' 0 = Suc (vm_index t 0)"
  proof (rule ver_malloc_returns)
    show "0 < length (ver_malloc_chunks t)" using ver_malloc_length[OF t(1)] mdemo_ok(1) by simp
    show "vm_ok (ver_malloc_chunks t ! 0)" using v(3) by simp
    show "unat (vnext (ver_malloc_chunks t ! 0)) + rounded 200 < unat (vend (ver_malloc_chunks t ! 0))"
      using v(4) e mdemo_share r by simp
  qed (use t(2) in \<open>simp_all add: PAGE_SIZE_def\<close>)
  then obtain u where "ver_malloc (\<lambda>_. True) 0 200 t = Inr (vnext (ver_malloc_chunks t ! 0), u)" by auto
  moreover have "vnext (ver_malloc_chunks t ! 0) \<noteq> 0"
  proof
    assume "vnext (ver_malloc_chunks t ! 0) = 0"
    then show False using v(4) mdemo_share(1) by (simp add: VER_MALLOC_CHUNK_BEGIN_def)
  qed
  ultimately show ?thesis using t(1) nz by simp
qed

subsection \<open>Properties\<close>

text \<open>\<open>ver_malloc_init\<close> cuts the reserved range into one share per worker: the first starts at the
  begin of the range, each starts where the previous one ends, the last ends at the bound of the
  range, and every share is a well-formed empty bump allocator.\<close>

theorem ver_malloc_init_partition:
  "let cs = ver_malloc_chunks (ver_malloc_init s) in
     length cs = MAX_WORKERS \<and> unat (vbegin (cs ! 0)) = VER_MALLOC_CHUNK_BEGIN \<and>
     unat (vend (cs ! (MAX_WORKERS - 1))) = VER_MALLOC_CHUNK_BOUND \<and>
     (j < MAX_WORKERS \<longrightarrow> vm_ok (cs ! j) \<and> vnext (cs ! j) = vbegin (cs ! j) \<and> unat (vbegin (cs ! j)) < unat (vend (cs ! j))) \<and>
     (Suc j < MAX_WORKERS \<longrightarrow> vend (cs ! j) = vbegin (cs ! Suc j))"
proof -
  have n: "(0 :: nat) < MAX_WORKERS" "MAX_WORKERS - 1 < MAX_WORKERS" "Suc (MAX_WORKERS - 1) = MAX_WORKERS"
    by (simp_all add: MAX_WORKERS_def)
  have lt: "vm_share j < vm_share (Suc j)" for j
  proof -
    have "0 < vm_per" "0 < VER_MALLOC_CHUNKSIZE" by (simp_all add: layout_defs)
    then show ?thesis unfolding vm_start_def by (intro add_strict_left_mono mult_strict_right_mono) auto
  qed
  have "unat (of_nat (vm_share 0) :: addr) = VER_MALLOC_CHUNK_BEGIN" "unat (of_nat (vm_share MAX_WORKERS) :: addr) = VER_MALLOC_CHUNK_BOUND"
    using unat_vm_share[of 0] unat_vm_share[of MAX_WORKERS] vm_share_ends by simp_all
  moreover have "unat (of_nat (vm_share j) :: addr) < unat (of_nat (vm_share (Suc j)) :: addr)" if "j < MAX_WORKERS"
    using lt[of j] that unat_vm_share[of j] unat_vm_share[of "Suc j"] by simp
  ultimately show ?thesis
    using n vm_share_ok[of j s] unfolding Let_def init_chunks by (simp add: vm_split_nth)
qed

theorem ver_malloc_init_partition_witness:
  "\<exists>s :: malloc_state. vend (ver_malloc_chunks (ver_malloc_init s) ! 3) = vbegin (ver_malloc_chunks (ver_malloc_init s) ! 4)"
proof -
  obtain s :: malloc_state where True by simp
  show ?thesis using ver_malloc_init_partition[of s 3] by (auto simp: Let_def MAX_WORKERS_def)
qed



text \<open>C25. Replaying an allocation on another process: if its copy of the worker's share equals the
  worker's own and the rounded size is at most one mapping chunk, then replaying the record that
  \<open>ver_malloc\<close> buffered (whose size field has 32 bits) succeeds, returns the same address and leaves the
  copy equal to the worker's share again.\<close>

theorem replay_agrees:
  assumes "w < length (ver_malloc_chunks s)" "w < length (ver_malloc_chunks t)"
    and "ver_malloc_chunks t ! w = ver_malloc_chunks s ! w" "vm_ok (ver_malloc_chunks s ! w)"
    and "rounded sz \<le> VER_MALLOC_CHUNKSIZE" "ver_malloc mm w sz s = Inr (ret, s')" "ret \<noteq> 0" "\<forall>a. mm' a"
  shows "\<exists>t'. update_ver_malloc mm' w (ucast (ucast (ROUND_UP sz (of_nat ALIGNMENT)) :: 32 word)) ret t = Inr (ret, t') \<and>
           ver_malloc_chunks t' ! w = ver_malloc_chunks s' ! w"
proof -
  let ?c = "ver_malloc_chunks s ! w" and ?x = "ROUND_UP sz (of_nat ALIGNMENT)"
  have sz: "unat sz < 2 ^ 62" using rounded_ge[of sz] assms(5) by (simp add: VER_MALLOC_CHUNKSIZE_def)
  note x = transmitted_size[OF assms(5)]
  have l62: "unat (vnext ?c) < 2 ^ 62" using assms(4) by (simp add: vm_ok_def)
  have n: "unat (vnext ?c + ?x) = unat (vnext ?c) + rounded sz" by (rule unat_plus_rounded[OF l62 sz])
  note one = vm_map_one[OF assms(4) n assms(5)]
  from assms(1,6,7) obtain nc m b where lt: "vnext ?c + ?x < vend ?c" and ret: "ret = vnext ?c"
      and v: "vm_map mm (vnextchunk ?c) (vnext ?c + ?x) (pmem s) = Inr (True, nc, m)"
      and b: "buffer_ver_malloc w (vnext ?c) (ucast ?x) (- 1)
         (set_vm w (?c\<lparr>vnext := vnext ?c + ?x, vnextchunk := nc\<rparr>) (s\<lparr>pmem := m\<rparr>)) = Inr b"
         "ver_malloc_chunks s' = ver_malloc_chunks b"
    by (auto simp: ver_malloc_def Let_def rbind_eq_Inr split: if_splits)
  have vc: "ver_malloc_chunks s' ! w = ?c\<lparr>vnext := vnext ?c + ?x, vnextchunk := nc\<rparr>"
    using buffer_ver_malloc_frame(1)[OF b(1)] b(2) assms(1) by (simp add: set_vm_def)
  have nc: "nc = (if vnextchunk ?c < vnext ?c + ?x then vnextchunk ?c + of_nat VER_MALLOC_CHUNKSIZE else vnextchunk ?c)"
    using one v by (auto split: if_splits)
  show ?thesis
    using assms(2,3,8) lt ret x
    by (auto simp: update_ver_malloc_def Let_def insert_shadow_heap_pages_def set_vm_def vc nc)
qed

theorem replay_agrees_witness:
  "\<exists>s' t'. ver_malloc (\<lambda>_. True) 0 100 mdemo = Inr (vnext (ver_malloc_chunks mdemo ! 0), s') \<and>
     update_ver_malloc (\<lambda>_. True) 0 128 (vnext (ver_malloc_chunks mdemo ! 0)) mdemo = Inr (vnext (ver_malloc_chunks mdemo ! 0), t') \<and>
     ver_malloc_chunks t' ! 0 = ver_malloc_chunks s' ! 0"
proof -
  have r: "rounded 100 = 128" by (simp add: rounded_def)
  have nz: "vnext (ver_malloc_chunks mdemo ! 0) \<noteq> 0"
    using mdemo_share(1) by (auto simp: VER_MALLOC_CHUNK_BEGIN_def)
  have "\<exists>s'. ver_malloc (\<lambda>_. True) 0 100 mdemo = Inr (vnext (ver_malloc_chunks mdemo ! 0), s') \<and>
          vm_index s' 0 = Suc (vm_index mdemo 0)"
    by (rule ver_malloc_returns) (use mdemo_ok mdemo_share r in \<open>auto simp: PAGE_SIZE_def\<close>)
  then obtain s' where s': "ver_malloc (\<lambda>_. True) 0 100 mdemo = Inr (vnext (ver_malloc_chunks mdemo ! 0), s')" by blast
  have "rounded 100 \<le> VER_MALLOC_CHUNKSIZE" by (simp add: r VER_MALLOC_CHUNKSIZE_def)
  from replay_agrees[OF mdemo_ok(1,1) refl mdemo_ok(2) this s' nz, of "\<lambda>_. True"] s'
  show ?thesis by (auto simp: ROUND_UP_def ROUND_DOWN_def ALIGNMENT_def)
qed

text \<open>C36. A replay maps at most one chunk: after a successful \<open>update_ver_malloc\<close> the copy is well-formed
  (everything handed out is mapped) exactly if the new end of the allocated part is at most one
  chunk beyond the part that was mapped before. A larger block is left partly unmapped.\<close>

theorem replay_maps_one_chunk:
  assumes "w < length (ver_malloc_chunks t)" "vm_ok (ver_malloc_chunks t ! w)" "unat sz < 2 ^ 62"
    and "update_ver_malloc mm w sz p t = Inr (p, t')"
  shows "vm_ok (ver_malloc_chunks t' ! w) \<longleftrightarrow>
         unat (vnext (ver_malloc_chunks t ! w)) + rounded sz
           \<le> unat (vnextchunk (ver_malloc_chunks t ! w)) + VER_MALLOC_CHUNKSIZE"
proof -
  let ?c = "ver_malloc_chunks t ! w"
  let ?nxt = "vnext ?c + ROUND_UP sz (of_nat ALIGNMENT)"
  have l62: "unat (vnext ?c) < 2 ^ 62" "unat (vnextchunk ?c) < 2 ^ 62" using assms(2) by (simp_all add: vm_ok_def)
  have n: "unat ?nxt = unat (vnext ?c) + rounded sz" by (rule unat_plus_rounded[OF l62(1) assms(3)])
  have big: "unat (vnextchunk ?c + of_nat VER_MALLOC_CHUNKSIZE) = unat (vnextchunk ?c) + VER_MALLOC_CHUNKSIZE"
    using chunk_step[OF l62(2)] .
  have al: "(unat (vnext ?c) + rounded sz) mod ALIGNMENT = 0" using assms(2) by (simp add: vm_ok_def mod_add_eq[symmetric])
  from assms(1,4) have lt: "?nxt < vend ?c"
      and c': "ver_malloc_chunks t' ! w = (if vnextchunk ?c < ?nxt
        then ?c\<lparr>vnext := ?nxt, vnextchunk := vnextchunk ?c + of_nat VER_MALLOC_CHUNKSIZE\<rparr> else ?c\<lparr>vnext := ?nxt\<rparr>)"
    by (auto simp: update_ver_malloc_def Let_def insert_shadow_heap_pages_def set_vm_def split: if_splits)
  show ?thesis
  proof (cases "vnextchunk ?c < ?nxt")
    case True
    then have "unat (vnextchunk ?c) + VER_MALLOC_CHUNKSIZE \<le> unat (vend ?c)"
    proof -
      have "unat (vnextchunk ?c) < unat (vend ?c)" using True lt by (simp add: word_less_nat_alt)
      then show ?thesis using assms(2) mult_below_next'[of "unat (vnextchunk ?c)" "unat (vend ?c)" VER_MALLOC_CHUNKSIZE]
        by (simp add: vm_ok_def)
    qed
    then show ?thesis using True assms(2) al unfolding c' by (simp add: vm_ok_def n big)
  next
    case False
    then show ?thesis using assms(2) al unfolding c' by (simp add: vm_ok_def n word_less_nat_alt)
  qed
qed

lemma mdemo_replay_returns:
  "\<exists>t'. update_ver_malloc (\<lambda>_. True) 0 0x3000 (vnext (ver_malloc_chunks mdemo ! 0)) mdemo =
     Inr (vnext (ver_malloc_chunks mdemo ! 0), t')"
proof -
  have "unat (vnext (ver_malloc_chunks mdemo ! 0) + ROUND_UP 0x3000 (of_nat ALIGNMENT)) = VER_MALLOC_CHUNK_BEGIN + 0x3000"
    using unat_plus_rounded[of "vnext (ver_malloc_chunks mdemo ! 0)" "0x3000"] mdemo_share(1)
    by (simp add: VER_MALLOC_CHUNK_BEGIN_def rounded_def)
  then have "vnext (ver_malloc_chunks mdemo ! 0) + ROUND_UP 0x3000 (of_nat ALIGNMENT) < vend (ver_malloc_chunks mdemo ! 0)"
    using mdemo_share(2) by (simp add: word_less_nat_alt)
  then show ?thesis using mdemo_ok(1) by (simp add: update_ver_malloc_def Let_def)
qed

theorem replay_maps_one_chunk_witness:
  "\<exists>t'. update_ver_malloc (\<lambda>_. True) 0 0x3000 (vnext (ver_malloc_chunks mdemo ! 0)) mdemo =
     Inr (vnext (ver_malloc_chunks mdemo ! 0), t') \<and> \<not> vm_ok (ver_malloc_chunks t' ! 0)"
proof -
  obtain t' where t': "update_ver_malloc (\<lambda>_. True) 0 0x3000 (vnext (ver_malloc_chunks mdemo ! 0)) mdemo =
     Inr (vnext (ver_malloc_chunks mdemo ! 0), t')" using mdemo_replay_returns by blast
  have "vnextchunk (ver_malloc_chunks mdemo ! 0) = vnext (ver_malloc_chunks mdemo ! 0)"
    by (simp add: mdemo_def init_chunks vm_split_nth MAX_WORKERS_def)
  with replay_maps_one_chunk[OF mdemo_ok(1,2) _ t'] t' show ?thesis
    by (auto simp: rounded_def VER_MALLOC_CHUNKSIZE_def)
qed



end
