(* ===== verification/Separation.thy ===== *)
theory Separation
  imports Ver_Malloc
begin

unbundle bit_operations_syntax

section \<open>Separation heaps\<close>

text \<open>
  Models \<open>smtx/separation.cpp\<close> and \<open>separation.h\<close>: heaps in reserved address ranges, one range per heap
  (and per worker, for versioned heaps), so that the class of an object (unclassified, read-only, not
  read before written, private to a stage) follows from its address. A \<open>SeparationHeap\<close> has the fields
  of a \<open>VerMallocChunk\<close>, the allocation routines are the bump allocator of \<open>Ver_Malloc\<close>, and
  \<open>SEPARATION_HEAP_CHUNKSIZE\<close> is the same number as \<open>VER_MALLOC_CHUNKSIZE\<close>, so the record, the mapping
  loop \<open>vm_map\<close> and the splitting loop \<open>vm_split\<close> are shared.

  The region sets are \<open>None\<close> while their pointers are null. \<open>separation_init\<close> stops at \<open>assert(false)\<close> as
  soon as a heap is requested: the shipped runtime has the mechanism switched off. The code behind
  the assertion is \<open>separation_setup\<close>.
\<close>

type_synonym separation_heap = ver_malloc_chunk

record sep_state = malloc_state +
  uc_regions :: "nat set option"
  ver_uc_regions :: "nat set option"
  ro_regions :: "nat set option"
  ver_ro_regions :: "nat set option"
  nrbw_regions :: "nat set option"
  ver_nrbw_regions :: "nat set option"
  stage_private_regions :: "nat set list option"
  ver_stage_private_regions :: "nat set list option"
  separation_heap_size_map :: "addr \<rightharpoonup> 64 word"
  heaps :: "separation_heap list"
  versioned_heaps :: "separation_heap list list"
  nnvh :: nat
  nvh :: nat
  separation_alloc_context :: "32 word"
  invokedepth :: nat

subsection \<open>Setting up and registering\<close>

definition separation_init :: "nat \<Rightarrow> nat \<Rightarrow> 'a sep_state_scheme \<Rightarrow> 'a sep_state_scheme res" where
  "separation_init n_non_versioned n_versioned s =
     (let s = s\<lparr>nnvh := n_non_versioned, nvh := n_versioned\<rparr>
      in if n_non_versioned = 0 \<and> n_versioned = 0 then Inr s else Inl AssertFailed)"

definition separation_setup :: "nat \<Rightarrow> nat \<Rightarrow> 'a sep_state_scheme \<Rightarrow> 'a sep_state_scheme res" where
  "separation_setup n_non_versioned n_versioned s =
     (if n_non_versioned = 0 then Inl OutOfRange
      else
        let num_chunks = (SEPARATION_HEAP_BOUND - SEPARATION_HEAP_BEGIN) div SEPARATION_HEAP_CHUNKSIZE;
            vnum_chunks = (VER_SEPARATION_HEAP_BOUND - VER_SEPARATION_HEAP_BEGIN) div SEPARATION_HEAP_CHUNKSIZE;
            total_heaps = n_versioned * MAX_WORKERS;
            flat = vm_split 0 total_heaps (vnum_chunks div total_heaps) (vnum_chunks mod total_heaps) VER_SEPARATION_HEAP_BEGIN
        in Inr (s\<lparr>uc_regions := Some {}, ver_uc_regions := Some {}, ro_regions := Some {}, ver_ro_regions := Some {},
             nrbw_regions := Some {}, ver_nrbw_regions := Some {},
             stage_private_regions := Some (replicate MAX_STAGE_NUM {}),
             ver_stage_private_regions := Some (replicate MAX_STAGE_NUM {}),
             separation_heap_size_map := Map.empty,
             heaps := vm_split 0 n_non_versioned (num_chunks div n_non_versioned) (num_chunks mod n_non_versioned)
                        SEPARATION_HEAP_BEGIN,
             versioned_heaps := (if n_versioned = 0 then versioned_heaps s
               else map (\<lambda>i. take n_versioned (drop (i * n_versioned) flat)) [0..<MAX_WORKERS])\<rparr>))"

text \<open>Every clear and insert dereferences the pointer to its set.\<close>

definition clear_region :: "nat set option \<Rightarrow> nat set option res" where
  "clear_region r = (case r of None \<Rightarrow> Inl OutOfRange | Some _ \<Rightarrow> Inr (Some {}))"

definition clear_regions :: "nat set list option \<Rightarrow> nat set list option res" where
  "clear_regions r = (case r of None \<Rightarrow> Inl OutOfRange | Some rs \<Rightarrow> Inr (Some (map (\<lambda>_. {}) rs)))"

definition clear_separation_heaps :: "'a sep_state_scheme \<Rightarrow> 'a sep_state_scheme res" where
  "clear_separation_heaps s =
     rbind (clear_region (uc_regions s)) (\<lambda>uc. rbind (clear_region (ver_uc_regions s)) (\<lambda>vuc.
     rbind (clear_region (ro_regions s)) (\<lambda>ro. rbind (clear_region (ver_ro_regions s)) (\<lambda>vro.
     rbind (clear_region (nrbw_regions s)) (\<lambda>nr. rbind (clear_region (ver_nrbw_regions s)) (\<lambda>vnr.
     rbind (clear_regions (stage_private_regions s)) (\<lambda>sp. rbind (clear_regions (ver_stage_private_regions s)) (\<lambda>vsp.
       Inr (s\<lparr>uc_regions := uc, ver_uc_regions := vuc, ro_regions := ro, ver_ro_regions := vro,
              nrbw_regions := nr, ver_nrbw_regions := vnr, stage_private_regions := sp,
              ver_stage_private_regions := vsp\<rparr>)))))))))"

text \<open>The variadic arguments are a list; with no arguments the set is not touched.\<close>

definition insert_all :: "nat list \<Rightarrow> nat set option \<Rightarrow> nat set option res" where
  "insert_all hs r = (if hs = [] then Inr r else case r of None \<Rightarrow> Inl OutOfRange | Some R \<Rightarrow> Inr (Some (R \<union> set hs)))"

definition insert_all_at :: "nat \<Rightarrow> nat list \<Rightarrow> nat set list option \<Rightarrow> nat set list option res" where
  "insert_all_at st hs r =
     (if hs = [] then Inr r
      else case r of None \<Rightarrow> Inl OutOfRange
        | Some rs \<Rightarrow> if st < length rs then Inr (Some (rs[st := rs ! st \<union> set hs])) else Inl OutOfRange)"

definition register_unclassified :: "nat list \<Rightarrow> 'a sep_state_scheme \<Rightarrow> 'a sep_state_scheme res" where
  "register_unclassified hs s = rbind (insert_all hs (uc_regions s)) (\<lambda>r. Inr (s\<lparr>uc_regions := r\<rparr>))"

definition register_versioned_unclassified :: "nat list \<Rightarrow> 'a sep_state_scheme \<Rightarrow> 'a sep_state_scheme res" where
  "register_versioned_unclassified hs s = rbind (insert_all hs (ver_uc_regions s)) (\<lambda>r. Inr (s\<lparr>ver_uc_regions := r\<rparr>))"

definition register_ro :: "nat list \<Rightarrow> 'a sep_state_scheme \<Rightarrow> 'a sep_state_scheme res" where
  "register_ro hs s = rbind (insert_all hs (ro_regions s)) (\<lambda>r. Inr (s\<lparr>ro_regions := r\<rparr>))"

definition register_versioned_ro :: "nat list \<Rightarrow> 'a sep_state_scheme \<Rightarrow> 'a sep_state_scheme res" where
  "register_versioned_ro hs s = rbind (insert_all hs (ver_ro_regions s)) (\<lambda>r. Inr (s\<lparr>ver_ro_regions := r\<rparr>))"

definition register_nrbw :: "nat list \<Rightarrow> 'a sep_state_scheme \<Rightarrow> 'a sep_state_scheme res" where
  "register_nrbw hs s = rbind (insert_all hs (nrbw_regions s)) (\<lambda>r. Inr (s\<lparr>nrbw_regions := r\<rparr>))"

definition register_versioned_nrbw :: "nat list \<Rightarrow> 'a sep_state_scheme \<Rightarrow> 'a sep_state_scheme res" where
  "register_versioned_nrbw hs s = rbind (insert_all hs (ver_nrbw_regions s)) (\<lambda>r. Inr (s\<lparr>ver_nrbw_regions := r\<rparr>))"

definition register_stage_private :: "nat \<Rightarrow> nat list \<Rightarrow> 'a sep_state_scheme \<Rightarrow> 'a sep_state_scheme res" where
  "register_stage_private st hs s =
     rbind (insert_all_at st hs (stage_private_regions s)) (\<lambda>r. Inr (s\<lparr>stage_private_regions := r\<rparr>))"

definition register_versioned_stage_private :: "nat \<Rightarrow> nat list \<Rightarrow> 'a sep_state_scheme \<Rightarrow> 'a sep_state_scheme res" where
  "register_versioned_stage_private st hs s =
     rbind (insert_all_at st hs (ver_stage_private_regions s)) (\<lambda>r. Inr (s\<lparr>ver_stage_private_regions := r\<rparr>))"

subsection \<open>Classifying a page\<close>

text \<open>The allocated part of a heap. Region sets hold numbers of existing heaps.\<close>

definition in_heap :: "separation_heap \<Rightarrow> addr \<Rightarrow> bool" where
  "in_heap h page \<longleftrightarrow> vbegin h \<le> page \<and> page < vnext h"

definition in_regions :: "'a sep_state_scheme \<Rightarrow> nat set option \<Rightarrow> addr \<Rightarrow> bool" where
  "in_regions s r page = (case r of None \<Rightarrow> False | Some R \<Rightarrow> \<exists>i \<in> R. in_heap (heaps s ! i) page)"

definition in_ver_regions :: "'a sep_state_scheme \<Rightarrow> nat set option \<Rightarrow> addr \<Rightarrow> bool" where
  "in_ver_regions s r page =
     (case r of None \<Rightarrow> False | Some R \<Rightarrow> \<exists>i \<in> R. \<exists>j \<in> {..<MAX_WORKERS}. in_heap (versioned_heaps s ! j ! i) page)"

definition is_in_uc :: "addr \<Rightarrow> 'a sep_state_scheme \<Rightarrow> bool" where
  "is_in_uc page s \<longleftrightarrow> in_regions s (uc_regions s) page \<or> in_ver_regions s (ver_uc_regions s) page"

definition is_in_ro :: "addr \<Rightarrow> 'a sep_state_scheme \<Rightarrow> bool" where
  "is_in_ro page s \<longleftrightarrow> in_regions s (ro_regions s) page \<or> in_ver_regions s (ver_ro_regions s) page"

definition is_in_nrbw :: "addr \<Rightarrow> 'a sep_state_scheme \<Rightarrow> bool" where
  "is_in_nrbw page s \<longleftrightarrow> in_regions s (nrbw_regions s) page \<or> in_ver_regions s (ver_nrbw_regions s) page"

fun first_stage :: "(nat \<Rightarrow> bool) \<Rightarrow> nat list \<Rightarrow> int" where
  "first_stage P [] = -1"
| "first_stage P (j # js) = (if P j then int j else first_stage P js)"

definition is_in_stage_private :: "addr \<Rightarrow> 'a sep_state_scheme \<Rightarrow> int" where
  "is_in_stage_private page s =
     first_stage (\<lambda>j. in_regions s (map_option (\<lambda>rs. rs ! j) (stage_private_regions s)) page \<or>
                      in_ver_regions s (map_option (\<lambda>rs. rs ! j) (ver_stage_private_regions s)) page)
       [0..<MAX_STAGE_NUM]"

text \<open>The ranges that \<open>set_separation_heaps_prot_none\<close> passes to \<open>mprotect\<close>, in order.\<close>

definition mapped_range :: "separation_heap \<Rightarrow> (addr \<times> 64 word) list" where
  "mapped_range h = (let sz = vnextchunk h - vbegin h in if sz = 0 then [] else [(vbegin h, sz)])"

definition set_separation_heaps_prot_none :: "'a sep_state_scheme \<Rightarrow> (addr \<times> 64 word) list" where
  "set_separation_heaps_prot_none s =
     concat (map (\<lambda>i. mapped_range (heaps s ! i)) [0..<nnvh s]) @
     concat (map (\<lambda>i. concat (map (\<lambda>j. mapped_range (versioned_heaps s ! i ! j)) [0..<nvh s])) [0..<MAX_WORKERS])"

definition heap_begin :: "nat \<Rightarrow> 'a sep_state_scheme \<Rightarrow> addr" where
  "heap_begin h s = vbegin (heaps s ! h)"

definition heap_bound :: "nat \<Rightarrow> 'a sep_state_scheme \<Rightarrow> addr" where
  "heap_bound h s = vnextchunk (heaps s ! h)"

definition versioned_heap_begin :: "wid \<Rightarrow> nat \<Rightarrow> 'a sep_state_scheme \<Rightarrow> addr" where
  "versioned_heap_begin w h s = vbegin (versioned_heaps s ! w ! h)"

definition versioned_heap_bound :: "wid \<Rightarrow> nat \<Rightarrow> 'a sep_state_scheme \<Rightarrow> addr" where
  "versioned_heap_bound w h s = vnextchunk (versioned_heaps s ! w ! h)"

subsection \<open>Allocating\<close>

definition set_heap :: "nat \<Rightarrow> separation_heap \<Rightarrow> 'a sep_state_scheme \<Rightarrow> 'a sep_state_scheme" where
  "set_heap h c s = s\<lparr>heaps := (heaps s)[h := c]\<rparr>"

definition set_vheap :: "wid \<Rightarrow> nat \<Rightarrow> separation_heap \<Rightarrow> 'a sep_state_scheme \<Rightarrow> 'a sep_state_scheme" where
  "set_vheap w h c s = s\<lparr>versioned_heaps := (versioned_heaps s)[w := (versioned_heaps s ! w)[h := c]]\<rparr>"

definition separation_heap_alloc :: "(addr \<Rightarrow> bool) \<Rightarrow> nat \<Rightarrow> 64 word \<Rightarrow> 'a sep_state_scheme \<Rightarrow> (addr \<times> 'a sep_state_scheme) res" where
  "separation_heap_alloc mm heap sz0 s =
     (if \<not> heap < nnvh s then Inl AssertFailed
      else if \<not> heap < length (heaps s) then Inl OutOfRange
      else
        let c = heaps s ! heap;
            ret = vnext c;
            sz = ROUND_UP sz0 (of_nat ALIGNMENT);
            nxt = ret + sz
        in if \<not> nxt < vend c then Inl AssertFailed
           else rbind (vm_map mm (vnextchunk c) nxt (pmem s)) (\<lambda>(ok, nc, m).
             if \<not> ok then Inr (0, set_heap heap (c\<lparr>vnextchunk := nc\<rparr>) (s\<lparr>pmem := m\<rparr>))
             else Inr (ret, set_heap heap (c\<lparr>vnext := nxt, vnextchunk := nc\<rparr>)
               (s\<lparr>pmem := m, separation_heap_size_map := (separation_heap_size_map s)(ret \<mapsto> sz)\<rparr>))))"

definition separation_malloc :: "(addr \<Rightarrow> bool) \<Rightarrow> 64 word \<Rightarrow> nat \<Rightarrow> 'a sep_state_scheme \<Rightarrow> (addr \<times> 'a sep_state_scheme) res" where
  "separation_malloc mm sz heap s = separation_heap_alloc mm heap sz s"

text \<open>\<open>memset(ret, 0, n)\<close>; a null destination with \<open>n > 0\<close> is an invalid access.\<close>

definition clear_block :: "addr \<Rightarrow> nat \<Rightarrow> 'a sep_state_scheme \<Rightarrow> 'a sep_state_scheme res" where
  "clear_block p n s = (if p = 0 \<and> n \<noteq> 0 then Inl OutOfRange else Inr (s\<lparr>pmem := zero_range p n (pmem s)\<rparr>))"

definition separation_calloc :: "(addr \<Rightarrow> bool) \<Rightarrow> 64 word \<Rightarrow> 64 word \<Rightarrow> nat \<Rightarrow> 'a sep_state_scheme \<Rightarrow>
    (addr \<times> 'a sep_state_scheme) res" where
  "separation_calloc mm num sz heap s =
     rbind (separation_heap_alloc mm heap (num * sz) s) (\<lambda>(ret, s).
     rbind (clear_block ret (unat (num * sz)) s) (\<lambda>s. Inr (ret, s)))"

text \<open>Both \<open>realloc\<close>s: copy data and metadata of the old size (0 if the pointer is unknown), forget the old block.\<close>

definition move_block :: "addr \<Rightarrow> addr \<Rightarrow> 'a sep_state_scheme \<Rightarrow> 'a sep_state_scheme res" where
  "move_block ret p s =
     (let oldsize = (case separation_heap_size_map s p of None \<Rightarrow> 0 | Some z \<Rightarrow> unat z)
      in if ret = 0 \<and> oldsize \<noteq> 0 then Inl OutOfRange
         else Inr (s\<lparr>pmem := copy_range (get_shadow_of ret) (get_shadow_of p) oldsize (copy_range ret p oldsize (pmem s)),
                     separation_heap_size_map := (separation_heap_size_map s)(p := None)\<rparr>))"

definition separation_realloc :: "(addr \<Rightarrow> bool) \<Rightarrow> addr \<Rightarrow> 64 word \<Rightarrow> nat \<Rightarrow> 'a sep_state_scheme \<Rightarrow>
    (addr \<times> 'a sep_state_scheme) res" where
  "separation_realloc mm p sz heap s =
     (if p \<noteq> 0 \<and> sz = 0 then Inr (0, s)
      else rbind (separation_heap_alloc mm heap sz s) (\<lambda>(ret, s).
        if p = 0 then Inr (ret, s) else rbind (move_block ret p s) (\<lambda>s. Inr (ret, s))))"

definition separation_free :: "addr \<Rightarrow> 'a sep_state_scheme \<Rightarrow> 'a sep_state_scheme" where
  "separation_free p s =
     (if p \<noteq> 0 then s\<lparr>separation_heap_size_map := (separation_heap_size_map s)(p := None)\<rparr> else s)"

definition ver_separation_heap_alloc :: "(addr \<Rightarrow> bool) \<Rightarrow> wid \<Rightarrow> nat \<Rightarrow> 64 word \<Rightarrow> 'a sep_state_scheme \<Rightarrow>
    (addr \<times> 'a sep_state_scheme) res" where
  "ver_separation_heap_alloc mm wid heap sz0 s =
     (if \<not> heap < nvh s then Inl AssertFailed
      else if \<not> (wid < length (versioned_heaps s) \<and> heap < length (versioned_heaps s ! wid)) then Inl OutOfRange
      else
        let c = versioned_heaps s ! wid ! heap;
            ret = vnext c;
            sz = ROUND_UP sz0 (of_nat ALIGNMENT);
            nxt = ret + sz
        in if \<not> nxt < vend c then Inl AssertFailed
           else rbind (vm_map mm (vnextchunk c) nxt (pmem s)) (\<lambda>(ok, nc, m).
             if \<not> ok then Inr (0, set_vheap wid heap (c\<lparr>vnextchunk := nc\<rparr>) (s\<lparr>pmem := m\<rparr>))
             else
               rbind (buffer_ver_malloc wid ret (ucast sz) (of_nat heap)
                 (set_vheap wid heap (c\<lparr>vnext := nxt, vnextchunk := nc\<rparr>)
                   (s\<lparr>pmem := m, separation_heap_size_map := (separation_heap_size_map s)(ret \<mapsto> sz)\<rparr>))) (\<lambda>s.
               rbind (broadcast_event wid ret (ucast sz) (of_nat heap) SEPARATION ALLOC s) (\<lambda>s.
                 let shadow = get_shadow_of (ret AND PAGE_MASK)
                 in Inr (ret, s\<lparr>pmem := (pmem s)(shadow := pmem s shadow OR 0x80)\<rparr>)))))"

definition update_ver_separation_malloc :: "(addr \<Rightarrow> bool) \<Rightarrow> 64 word \<Rightarrow> wid \<Rightarrow> nat \<Rightarrow> addr \<Rightarrow> 'a sep_state_scheme \<Rightarrow>
    (addr \<times> 'a sep_state_scheme) res" where
  "update_ver_separation_malloc mm sz0 wid heap p s =
     (if \<not> heap < nvh s then Inl AssertFailed
      else if \<not> (wid < length (versioned_heaps s) \<and> heap < length (versioned_heaps s ! wid)) then Inl OutOfRange
      else
        let c = versioned_heaps s ! wid ! heap;
            ret = vnext c;
            sz = ROUND_UP sz0 (of_nat ALIGNMENT);
            nxt = ret + sz
        in if \<not> nxt < vend c then Inl AssertFailed
           else if vnextchunk c < nxt then
             if \<not> mm (vnextchunk c) then Inl AssertFailed
             else if \<not> mm (get_shadow_of (vnextchunk c)) then Inl AssertFailed
             else Inr (ret,
               set_vheap wid heap (c\<lparr>vnext := nxt, vnextchunk := vnextchunk c + of_nat SEPARATION_HEAP_CHUNKSIZE\<rparr>)
                 (s\<lparr>pmem := zero_range (get_shadow_of (vnextchunk c)) SEPARATION_HEAP_CHUNKSIZE
                    (zero_range (vnextchunk c) SEPARATION_HEAP_CHUNKSIZE (pmem s))\<rparr>))
           else Inr (ret, set_vheap wid heap (c\<lparr>vnext := nxt\<rparr>) s))"

definition ver_separation_malloc :: "(addr \<Rightarrow> bool) \<Rightarrow> 64 word \<Rightarrow> nat \<Rightarrow> 'a sep_state_scheme \<Rightarrow> (addr \<times> 'a sep_state_scheme) res" where
  "ver_separation_malloc mm sz heap s = ver_separation_heap_alloc mm (my_wid s) heap sz s"

definition ver_separation_calloc :: "(addr \<Rightarrow> bool) \<Rightarrow> 64 word \<Rightarrow> 64 word \<Rightarrow> nat \<Rightarrow> 'a sep_state_scheme \<Rightarrow>
    (addr \<times> 'a sep_state_scheme) res" where
  "ver_separation_calloc mm num sz heap s =
     rbind (ver_separation_heap_alloc mm (my_wid s) heap (num * sz) s) (\<lambda>(ret, s).
     rbind (clear_block ret (unat (num * sz)) s) (\<lambda>s. Inr (ret, s)))"

definition ver_separation_realloc :: "(addr \<Rightarrow> bool) \<Rightarrow> addr \<Rightarrow> 64 word \<Rightarrow> nat \<Rightarrow> 'a sep_state_scheme \<Rightarrow>
    (addr \<times> 'a sep_state_scheme) res" where
  "ver_separation_realloc mm p sz heap s =
     (if p \<noteq> 0 \<and> sz = 0 then Inr (0, s)
      else rbind (ver_separation_heap_alloc mm (my_wid s) heap sz s) (\<lambda>(ret, s).
        if p = 0 then Inr (ret, s) else rbind (move_block ret p s) (\<lambda>s. Inr (ret, s))))"

definition ver_separation_free :: "addr \<Rightarrow> 'a sep_state_scheme \<Rightarrow> 'a sep_state_scheme" where
  "ver_separation_free p s =
     (if p \<noteq> 0 then s\<lparr>separation_heap_size_map := (separation_heap_size_map s)(p := None)\<rparr> else s)"

definition push_separation_alloc_context :: "32 word \<Rightarrow> 'a sep_state_scheme \<Rightarrow> 'a sep_state_scheme" where
  "push_separation_alloc_context ctxt s = (if invokedepth s > 1 then s else s\<lparr>separation_alloc_context := ctxt\<rparr>)"

definition pop_separation_alloc_context :: "'a sep_state_scheme \<Rightarrow> 'a sep_state_scheme" where
  "pop_separation_alloc_context s = (if invokedepth s > 1 then s else s\<lparr>separation_alloc_context := 0\<rparr>)"

definition get_separation_alloc_context :: "'a sep_state_scheme \<Rightarrow> 32 word" where
  "get_separation_alloc_context s = separation_alloc_context s"

subsection \<open>Instances of the bump allocator\<close>

interpretation sep: bump_heap "separation_heap_alloc mm h" "\<lambda>s. heaps s ! h" "\<lambda>s. h < nnvh s \<and> h < length (heaps s)"
  for mm h
proof (unfold_locales)
  fix s :: "'a sep_state_scheme" and sz p s'
  assume a: "h < nnvh s \<and> h < length (heaps s)" and c: "vm_ok (heaps s ! h)" and sz: "unat sz < 2 ^ 62"
    and r: "separation_heap_alloc mm h sz s = Inr (p, s')" "p \<noteq> 0"
  let ?c = "heaps s ! h"
  let ?nxt = "vnext ?c + ROUND_UP sz (of_nat ALIGNMENT)"
  have lt: "?nxt < vend ?c" by (rule ccontr) (use r a in \<open>simp add: separation_heap_alloc_def Let_def\<close>)
  obtain ok nc m where v0: "vm_map mm (vnextchunk ?c) ?nxt (pmem s) = Inr (ok, nc, m)"
    using r a lt by (cases "vm_map mm (vnextchunk ?c) ?nxt (pmem s)") (auto simp: separation_heap_alloc_def Let_def)
  have v: "vm_map mm (vnextchunk ?c) ?nxt (pmem s) = Inr (True, nc, m)"
    using r a lt v0 by (cases ok) (simp_all add: separation_heap_alloc_def Let_def)
  have s': "p = vnext ?c" "heaps s' = (heaps s)[h := ?c\<lparr>vnext := ?nxt, vnextchunk := nc\<rparr>]" "nnvh s' = nnvh s"
    using r(1) a lt v by (auto simp: separation_heap_alloc_def Let_def set_heap_def)
  show "(h < nnvh s' \<and> h < length (heaps s')) \<and> vm_ok (heaps s' ! h) \<and> p = vnext (heaps s ! h) \<and>
      unat (vnext (heaps s' ! h)) = unat p + rounded sz \<and> unat p + rounded sz < unat (vend (heaps s ! h)) \<and>
      vend (heaps s' ! h) = vend (heaps s ! h)"
    using bump_step[OF c sz lt v] s' a by simp
qed

lemma same_rest_sep:
  assumes "same_rest s (s' :: 'a sep_state_scheme)"
  shows "versioned_heaps s' = versioned_heaps s" "nvh s' = nvh s" "heaps s' = heaps s" "nnvh s' = nnvh s"
proof -
  have *: "s' = s\<lparr>packet_nexts := packet_nexts s', packet_chunk_nexts := packet_chunk_nexts s',
            commit_process_packet_next := commit_process_packet_next s',
            packets := packets s', chunks := chunks s', chan := chan s'\<rparr>"
    using assms by (simp add: same_rest_def)
  show "versioned_heaps s' = versioned_heaps s" by (subst *) simp
  show "nvh s' = nvh s" by (subst *) simp
  show "heaps s' = heaps s" by (subst *) simp
  show "nnvh s' = nnvh s" by (subst *) simp
qed

lemma buffer_ver_malloc_sep:
  assumes "buffer_ver_malloc w p sz h s = Inr (s' :: 'a sep_state_scheme)"
  shows "versioned_heaps s' = versioned_heaps s" "nvh s' = nvh s"
  using assms
  by (auto simp: buffer_ver_malloc_def rbind_eq_Inr same_rest_sep dest!: broadcast_malloc_chunk_frame split: if_splits)

interpretation vsep: bump_heap "ver_separation_heap_alloc mm w h" "\<lambda>s. versioned_heaps s ! w ! h"
  "\<lambda>s. h < nvh s \<and> w < length (versioned_heaps s) \<and> h < length (versioned_heaps s ! w)"
  for mm w h
proof (unfold_locales)
  fix s :: "'a sep_state_scheme" and sz p s'
  assume a: "h < nvh s \<and> w < length (versioned_heaps s) \<and> h < length (versioned_heaps s ! w)"
    and c: "vm_ok (versioned_heaps s ! w ! h)" and sz: "unat sz < 2 ^ 62"
    and r: "ver_separation_heap_alloc mm w h sz s = Inr (p, s')" "p \<noteq> 0"
  let ?c = "versioned_heaps s ! w ! h"
  let ?x = "ROUND_UP sz (of_nat ALIGNMENT)"
  let ?nxt = "vnext ?c + ?x"
  have lt: "?nxt < vend ?c" by (rule ccontr) (use r a in \<open>simp add: ver_separation_heap_alloc_def Let_def\<close>)
  obtain ok nc m where v0: "vm_map mm (vnextchunk ?c) ?nxt (pmem s) = Inr (ok, nc, m)"
    using r a lt by (cases "vm_map mm (vnextchunk ?c) ?nxt (pmem s)") (auto simp: ver_separation_heap_alloc_def Let_def)
  have v: "vm_map mm (vnextchunk ?c) ?nxt (pmem s) = Inr (True, nc, m)"
    using r a lt v0 by (cases ok) (simp_all add: ver_separation_heap_alloc_def Let_def)
  obtain t u where b: "buffer_ver_malloc w (vnext ?c) (ucast ?x) (of_nat h)
        (set_vheap w h (?c\<lparr>vnext := ?nxt, vnextchunk := nc\<rparr>)
          (s\<lparr>pmem := m, separation_heap_size_map := (separation_heap_size_map s)(vnext ?c \<mapsto> ?x)\<rparr>)) = Inr t"
        "broadcast_event w (vnext ?c) (ucast ?x) (of_nat h) SEPARATION ALLOC t = Inr u"
      and s': "p = vnext ?c" "versioned_heaps s' = versioned_heaps u" "nvh s' = nvh u"
    using r(1) a lt v by (auto simp: ver_separation_heap_alloc_def Let_def rbind_eq_Inr)
  have vh: "versioned_heaps s' = (versioned_heaps s)[w := (versioned_heaps s ! w)[h := ?c\<lparr>vnext := ?nxt, vnextchunk := nc\<rparr>]]"
      "nvh s' = nvh s"
    using same_rest_sep[OF broadcast_event_frame[OF b(2)]] buffer_ver_malloc_sep[OF b(1)] s'
    by (simp_all add: set_vheap_def)
  show "(h < nvh s' \<and> w < length (versioned_heaps s') \<and> h < length (versioned_heaps s' ! w)) \<and>
      vm_ok (versioned_heaps s' ! w ! h) \<and> p = vnext (versioned_heaps s ! w ! h) \<and>
      unat (vnext (versioned_heaps s' ! w ! h)) = unat p + rounded sz \<and>
      unat p + rounded sz < unat (vend (versioned_heaps s ! w ! h)) \<and>
      vend (versioned_heaps s' ! w ! h) = vend (versioned_heaps s ! w ! h)"
    using bump_step[OF c sz lt v] s'(1) vh a by simp
qed

subsection \<open>Disjoint heaps\<close>

text \<open>The well-formedness \<open>separation_setup\<close> establishes: heaps are well-formed and occupy disjoint
  address ranges, versioned ones in their own range.\<close>

definition heaps_wf :: "'a sep_state_scheme \<Rightarrow> bool" where
  "heaps_wf s \<longleftrightarrow>
     (\<forall>i < length (heaps s). vm_ok (heaps s ! i) \<and> SEPARATION_HEAP_BEGIN \<le> unat (vbegin (heaps s ! i)) \<and>
        unat (vend (heaps s ! i)) \<le> SEPARATION_HEAP_BOUND) \<and>
     (\<forall>i j. i < j \<and> j < length (heaps s) \<longrightarrow> unat (vend (heaps s ! i)) \<le> unat (vbegin (heaps s ! j))) \<and>
     (\<forall>w < length (versioned_heaps s). \<forall>h < length (versioned_heaps s ! w).
        vm_ok (versioned_heaps s ! w ! h) \<and> VER_SEPARATION_HEAP_BEGIN \<le> unat (vbegin (versioned_heaps s ! w ! h)) \<and>
        unat (vend (versioned_heaps s ! w ! h)) \<le> VER_SEPARATION_HEAP_BOUND)"

lemma in_heapD:
  assumes "vm_ok c" "in_heap c p"
  shows "unat (vbegin c) \<le> unat p" "unat p < unat (vend c)"
  using assms by (auto simp: in_heap_def vm_ok_def word_le_nat_alt word_less_nat_alt)

lemma heap_unique:
  assumes wf: "heaps_wf s" and i: "i < length (heaps s)" "in_heap (heaps s ! i) p" and j: "j < length (heaps s)" "in_heap (heaps s ! j) p"
  shows "i = j"
proof (rule ccontr)
  assume "i \<noteq> j"
  have ok: "vm_ok (heaps s ! i)" "vm_ok (heaps s ! j)" using wf i(1) j(1) by (auto simp: heaps_wf_def)
  note r = in_heapD[OF ok(1) i(2)] in_heapD[OF ok(2) j(2)]
  from \<open>i \<noteq> j\<close> consider "i < j" | "j < i" by linarith
  then show False
  proof cases
    case 1
    with wf j(1) have "unat (vend (heaps s ! i)) \<le> unat (vbegin (heaps s ! j))" by (auto simp: heaps_wf_def)
    with r show False by linarith
  next
    case 2
    with wf i(1) have "unat (vend (heaps s ! j)) \<le> unat (vbegin (heaps s ! i))" by (auto simp: heaps_wf_def)
    with r show False by linarith
  qed
qed

lemma heap_not_versioned:
  assumes wf: "heaps_wf s" and i: "i < length (heaps s)" "in_heap (heaps s ! i) p"
    and w: "w < length (versioned_heaps s)" "h < length (versioned_heaps s ! w)"
  shows "\<not> in_heap (versioned_heaps s ! w ! h) p"
proof
  assume v: "in_heap (versioned_heaps s ! w ! h) p"
  have ok: "vm_ok (heaps s ! i)" "unat (vend (heaps s ! i)) \<le> SEPARATION_HEAP_BOUND"
      "vm_ok (versioned_heaps s ! w ! h)" "VER_SEPARATION_HEAP_BEGIN \<le> unat (vbegin (versioned_heaps s ! w ! h))"
    using wf i(1) w by (auto simp: heaps_wf_def)
  have "SEPARATION_HEAP_BOUND \<le> VER_SEPARATION_HEAP_BEGIN" by (simp add: layout_defs)
  with in_heapD[OF ok(1) i(2)] in_heapD[OF ok(3) v] ok(2,4) show False by linarith
qed

subsubsection \<open>The ranges set up\<close>

abbreviation sep_chunks :: nat where
  "sep_chunks \<equiv> (SEPARATION_HEAP_BOUND - SEPARATION_HEAP_BEGIN) div SEPARATION_HEAP_CHUNKSIZE"
abbreviation vsep_chunks :: nat where
  "vsep_chunks \<equiv> (VER_SEPARATION_HEAP_BOUND - VER_SEPARATION_HEAP_BEGIN) div SEPARATION_HEAP_CHUNKSIZE"

abbreviation flat_heaps :: "nat \<Rightarrow> separation_heap list" where
  "flat_heaps n \<equiv> vm_split 0 (n * MAX_WORKERS) (vsep_chunks div (n * MAX_WORKERS)) (vsep_chunks mod (n * MAX_WORKERS))
      VER_SEPARATION_HEAP_BEGIN"

lemma sep_ranges:
  "SEPARATION_HEAP_BEGIN + sep_chunks * VER_MALLOC_CHUNKSIZE = SEPARATION_HEAP_BOUND"
  "SEPARATION_HEAP_BEGIN mod VER_MALLOC_CHUNKSIZE = 0"
  "VER_SEPARATION_HEAP_BEGIN + vsep_chunks * VER_MALLOC_CHUNKSIZE = VER_SEPARATION_HEAP_BOUND"
  "VER_SEPARATION_HEAP_BEGIN mod VER_MALLOC_CHUNKSIZE = 0"
  "SEPARATION_HEAP_BOUND < 2 ^ 62" "VER_SEPARATION_HEAP_BOUND < 2 ^ 62"
  by (simp_all add: layout_defs)

lemma separation_setup_heaps:
  assumes "separation_setup n nv s = Inr s'"
  shows "0 < n" "heaps s' = vm_split 0 n (sep_chunks div n) (sep_chunks mod n) SEPARATION_HEAP_BEGIN"
    "nv \<noteq> 0 \<Longrightarrow> versioned_heaps s' = map (\<lambda>i. take nv (drop (i * nv) (flat_heaps nv))) [0..<MAX_WORKERS]"
    "uc_regions s' = Some {}" "ver_uc_regions s' = Some {}" "ro_regions s' = Some {}" "ver_ro_regions s' = Some {}"
    "nrbw_regions s' = Some {}" "ver_nrbw_regions s' = Some {}"
    "stage_private_regions s' = Some (replicate MAX_STAGE_NUM {})"
    "ver_stage_private_regions s' = Some (replicate MAX_STAGE_NUM {})"
    "nnvh s' = nnvh s" "nvh s' = nvh s"
  using assms by (auto simp: separation_setup_def Let_def split: if_splits)

lemma flat_index: "w < m \<Longrightarrow> h < n \<Longrightarrow> w * n + h < n * (m :: nat)"
proof -
  assume "w < m" "h < n"
  then have "w * n + h < Suc w * n" by simp
  also have "Suc w * n \<le> m * n" using \<open>w < m\<close> by (intro mult_right_mono) auto
  finally show ?thesis by (simp add: mult.commute)
qed

lemma separation_setup_versioned:
  assumes s: "separation_setup n nv s = Inr s'" and nv: "nv \<noteq> 0" and w: "w < MAX_WORKERS" and h: "h < nv"
  shows "versioned_heaps s' ! w ! h = flat_heaps nv ! (w * nv + h)"
    "length (versioned_heaps s') = MAX_WORKERS" "length (versioned_heaps s' ! w) = nv"
proof -
  note v = separation_setup_heaps(3)[OF s nv]
  have l: "w * nv + h < length (flat_heaps nv)" using flat_index[OF w h] by simp
  have "nv \<le> length (flat_heaps nv) - w * nv" using flat_index[OF w, of "nv - 1" nv] nv by simp
  then show "length (versioned_heaps s' ! w) = nv" unfolding v using w by simp
  show "versioned_heaps s' ! w ! h = flat_heaps nv ! (w * nv + h)" unfolding v using w h l by simp
  show "length (versioned_heaps s') = MAX_WORKERS" unfolding v by simp
qed

lemma separation_setup_range:
  assumes s: "separation_setup n nv s = Inr s'" and i: "i < n"
  shows "vm_ok (heaps s' ! i)" "vnext (heaps s' ! i) = vbegin (heaps s' ! i)"
    "SEPARATION_HEAP_BEGIN \<le> unat (vbegin (heaps s' ! i))" "unat (vend (heaps s' ! i)) \<le> SEPARATION_HEAP_BOUND"
    "k < i \<Longrightarrow> unat (vend (heaps s' ! k)) \<le> unat (vbegin (heaps s' ! i))"
  using vm_split_ok[OF separation_setup_heaps(1)[OF s] _ sep_ranges(2) separation_setup_heaps(2)[OF s] i]
  unfolding sep_ranges(1) using sep_ranges(5) by blast+

lemma separation_setup_vrange:
  assumes s: "separation_setup n nv s = Inr s'" and nv: "nv \<noteq> 0" and w: "w < MAX_WORKERS" and h: "h < nv"
  shows "vm_ok (versioned_heaps s' ! w ! h)" "vnext (versioned_heaps s' ! w ! h) = vbegin (versioned_heaps s' ! w ! h)"
    "VER_SEPARATION_HEAP_BEGIN \<le> unat (vbegin (versioned_heaps s' ! w ! h))"
    "unat (vend (versioned_heaps s' ! w ! h)) \<le> VER_SEPARATION_HEAP_BOUND"
    "k < nv \<Longrightarrow> v < MAX_WORKERS \<Longrightarrow> v * nv + k < w * nv + h \<Longrightarrow>
       unat (vend (versioned_heaps s' ! v ! k)) \<le> unat (vbegin (versioned_heaps s' ! w ! h))"
proof -
  have pos: "0 < nv * MAX_WORKERS" using nv by (simp add: MAX_WORKERS_def)
  have b: "VER_SEPARATION_HEAP_BEGIN + vsep_chunks * VER_MALLOC_CHUNKSIZE < 2 ^ 62"
    unfolding sep_ranges(3) by (rule sep_ranges(6))
  note r = vm_split_ok[OF pos b sep_ranges(4) refl flat_index[OF w h], unfolded sep_ranges(3)]
  note e = separation_setup_versioned(1)[OF s nv]
  show "vm_ok (versioned_heaps s' ! w ! h)" "vnext (versioned_heaps s' ! w ! h) = vbegin (versioned_heaps s' ! w ! h)"
    "VER_SEPARATION_HEAP_BEGIN \<le> unat (vbegin (versioned_heaps s' ! w ! h))"
    "unat (vend (versioned_heaps s' ! w ! h)) \<le> VER_SEPARATION_HEAP_BOUND"
    unfolding e[OF w h] by (rule r)+
  show "unat (vend (versioned_heaps s' ! v ! k)) \<le> unat (vbegin (versioned_heaps s' ! w ! h))"
    if k: "k < nv" and v: "v < MAX_WORKERS" and lt: "v * nv + k < w * nv + h"
    unfolding e[OF w h] e[OF v k] by (rule r(5)[OF lt])
qed

lemma separation_setup_wf:
  assumes s: "separation_setup n nv s = Inr s'" and nv: "nv \<noteq> 0"
  shows "heaps_wf s'" "length (heaps s') = n" "length (versioned_heaps s') = MAX_WORKERS"
proof -
  show n: "length (heaps s') = n" using separation_setup_heaps(2)[OF s] by simp
  show l: "length (versioned_heaps s') = MAX_WORKERS" using separation_setup_heaps(3)[OF s nv] by simp
  have lw: "length (versioned_heaps s' ! w) = nv" if "w < MAX_WORKERS" for w
    using separation_setup_versioned(3)[OF s nv that, of 0] nv by simp
  show "heaps_wf s'"
    unfolding heaps_wf_def n l using separation_setup_range[OF s] separation_setup_vrange[OF s nv] lw by auto
qed


definition sdemo :: "nat \<Rightarrow> nat \<Rightarrow> sep_state" where
  "sdemo n nv = malloc_state.extend mdemo (sep_state.fields None None None None None None None None Map.empty [] [] n nv 0 0)"


subsection \<open>The class of an object follows from its address\<close>

text \<open>Region sets name existing heaps.\<close>

definition regions_below :: "nat \<Rightarrow> nat set option \<Rightarrow> bool" where
  "regions_below n r = (case r of None \<Rightarrow> True | Some R \<Rightarrow> \<forall>i \<in> R. i < n)"

definition regions_wf :: "'a sep_state_scheme \<Rightarrow> bool" where
  "regions_wf s \<longleftrightarrow>
     (\<forall>r \<in> {uc_regions s, ro_regions s, nrbw_regions s}. regions_below (length (heaps s)) r) \<and>
     (\<forall>r \<in> {ver_uc_regions s, ver_ro_regions s, ver_nrbw_regions s}. regions_below (nvh s) r) \<and>
     MAX_WORKERS \<le> length (versioned_heaps s) \<and> (\<forall>w < MAX_WORKERS. nvh s \<le> length (versioned_heaps s ! w))"

definition member_of :: "nat \<Rightarrow> nat set option \<Rightarrow> bool" where
  "member_of h r = (case r of None \<Rightarrow> False | Some R \<Rightarrow> h \<in> R)"

lemma in_regions_member:
  assumes "heaps_wf s" "i < length (heaps s)" "in_heap (heaps s ! i) p" "regions_below (length (heaps s)) r"
  shows "in_regions s r p \<longleftrightarrow> member_of i r"
proof (cases r)
  case (Some R)
  have "(\<exists>j \<in> R. in_heap (heaps s ! j) p) \<longleftrightarrow> i \<in> R"
    using heap_unique[OF assms(1-3)] assms(3,4) unfolding regions_below_def Some by (metis option.simps(5))
  then show ?thesis by (simp add: in_regions_def member_of_def Some)
qed (simp add: in_regions_def member_of_def)

lemma not_in_ver_regions:
  assumes wf: "heaps_wf s" "i < length (heaps s)" "in_heap (heaps s ! i) p" and r: "regions_below (nvh s) r"
    and l: "MAX_WORKERS \<le> length (versioned_heaps s)" "\<forall>w < MAX_WORKERS. nvh s \<le> length (versioned_heaps s ! w)"
  shows "\<not> in_ver_regions s r p"
proof (cases r)
  case (Some R)
  have "\<not> in_heap (versioned_heaps s ! w ! h) p" if "h \<in> R" "w < MAX_WORKERS" for h w
    by (rule heap_not_versioned[OF wf]) (use that Some r l in \<open>auto simp: regions_below_def dest: less_le_trans\<close>)
  then show ?thesis by (auto simp: in_ver_regions_def Some)
qed (simp add: in_ver_regions_def)

lemma class_of_heap:
  assumes wf: "heaps_wf s" "regions_wf s" and i: "i < length (heaps s)" "in_heap (heaps s ! i) p"
  shows "is_in_uc p s \<longleftrightarrow> member_of i (uc_regions s)" "is_in_ro p s \<longleftrightarrow> member_of i (ro_regions s)"
    "is_in_nrbw p s \<longleftrightarrow> member_of i (nrbw_regions s)"
  using in_regions_member[OF wf(1) i] not_in_ver_regions[OF wf(1) i] wf(2)
  by (auto simp: is_in_uc_def is_in_ro_def is_in_nrbw_def regions_wf_def)

text \<open>One allocation from a non-versioned heap: what it returns and what it keeps.\<close>

lemma separation_heap_alloc_step:
  assumes h: "h < nnvh s" "h < length (heaps s)" and c: "vm_ok (heaps s ! h)" and sz: "unat sz < 2 ^ 62"
    and r: "separation_heap_alloc mm h sz s = Inr (p, s')" and p: "p \<noteq> 0"
  shows "\<exists>c'. heaps s' = (heaps s)[h := c'] \<and> vbegin c' = vbegin (heaps s ! h)"
    "uc_regions s' = uc_regions s" "ro_regions s' = ro_regions s" "nrbw_regions s' = nrbw_regions s"
    "ver_uc_regions s' = ver_uc_regions s" "ver_ro_regions s' = ver_ro_regions s" "ver_nrbw_regions s' = ver_nrbw_regions s"
    "versioned_heaps s' = versioned_heaps s" "nvh s' = nvh s"
proof -
  let ?c = "heaps s ! h"
  let ?nxt = "vnext ?c + ROUND_UP sz (of_nat ALIGNMENT)"
  have lt: "?nxt < vend ?c" by (rule ccontr) (use r h in \<open>simp add: separation_heap_alloc_def Let_def\<close>)
  obtain ok nc m where v: "vm_map mm (vnextchunk ?c) ?nxt (pmem s) = Inr (ok, nc, m)"
    using r h lt by (cases "vm_map mm (vnextchunk ?c) ?nxt (pmem s)") (auto simp: separation_heap_alloc_def Let_def)
  have s': "s' = set_heap h (?c\<lparr>vnext := ?nxt, vnextchunk := nc\<rparr>)
               (s\<lparr>pmem := m, separation_heap_size_map := (separation_heap_size_map s)(vnext ?c \<mapsto> ROUND_UP sz (of_nat ALIGNMENT))\<rparr>)"
    using r h lt v p by (cases ok) (auto simp: separation_heap_alloc_def Let_def)
  show "\<exists>c'. heaps s' = (heaps s)[h := c'] \<and> vbegin c' = vbegin (heaps s ! h)"
    by (intro exI[of _ "?c\<lparr>vnext := ?nxt, vnextchunk := nc\<rparr>"]) (simp add: s' set_heap_def)
qed (use r in \<open>auto simp: separation_heap_alloc_def Let_def rbind_eq_Inr set_heap_def split: if_splits\<close>)

text \<open>
  C26. An object allocated from a separation heap is classified by its address: a non-empty block
  obtained from heap \<open>h\<close> answers the unclassified, read-only and not-read-before-written queries exactly as
  \<open>h\<close> was registered.
\<close>

theorem separation_class_of_block:
  assumes wf: "heaps_wf s" "regions_wf s" and h: "h < nnvh s" "h < length (heaps s)"
    and sz: "0 < unat sz" "unat sz < 2 ^ 62"
    and r: "separation_malloc mm sz h s = Inr (p, s')" and p: "p \<noteq> 0"
  shows "(is_in_uc p s' \<longleftrightarrow> member_of h (uc_regions s)) \<and> (is_in_ro p s' \<longleftrightarrow> member_of h (ro_regions s)) \<and>
    (is_in_nrbw p s' \<longleftrightarrow> member_of h (nrbw_regions s))"
proof -
  note a = r[unfolded separation_malloc_def]
  have c: "vm_ok (heaps s ! h)" using wf(1) h(2) by (simp add: heaps_wf_def)
  have hh: "h < nnvh s \<and> h < length (heaps s)" using h by simp
  note b = sep.bump[OF hh c sz(2) a p]
  note st = separation_heap_alloc_step[OF h c sz(2) a p]
  from st(1) obtain c' where c': "heaps s' = (heaps s)[h := c']" "vbegin c' = vbegin (heaps s ! h)" by blast
  have len: "length (heaps s') = length (heaps s)" and ch: "heaps s' ! h = c'" using c'(1) h(2) by simp_all
  have pos: "0 < rounded sz" using rounded_ge[of sz] sz(1) by simp
  have nx: "unat (vnext c') = unat p + rounded sz" "vm_ok c'" "vend c' = vend (heaps s ! h)" "p = vnext (heaps s ! h)"
    using b ch by simp_all
  have inh: "in_heap (heaps s' ! h) p"
    unfolding ch in_heap_def using nx pos c c'(2) by (simp add: word_le_nat_alt word_less_nat_alt vm_ok_def)
  have wf': "heaps_wf s'"
    unfolding heaps_wf_def len st(8)
  proof (intro conjI allI impI)
    fix i assume i: "i < length (heaps s)"
    show "vm_ok (heaps s' ! i)" "SEPARATION_HEAP_BEGIN \<le> unat (vbegin (heaps s' ! i))" "unat (vend (heaps s' ! i)) \<le> SEPARATION_HEAP_BOUND"
      using wf(1) i nx(2,3) c' by (cases "i = h"; simp add: heaps_wf_def)+
  next
    fix i j assume ij: "i < j \<and> j < length (heaps s)"
    then have "unat (vend (heaps s ! i)) \<le> unat (vbegin (heaps s ! j))" using wf(1) by (simp add: heaps_wf_def)
    then show "unat (vend (heaps s' ! i)) \<le> unat (vbegin (heaps s' ! j))"
      using c' nx(3) ij by (cases "i = h"; cases "j = h"; simp)
  qed (use wf(1) in \<open>simp_all add: heaps_wf_def\<close>)
  have rw': "regions_wf s'" using wf(2) by (simp add: regions_wf_def st(2-9) len)
  show ?thesis using class_of_heap[OF wf' rw' h(2)[folded len] inh] by (simp add: st)
qed

text \<open>An allocation that fits returns a block when the mappings succeed.\<close>

lemma separation_malloc_returns:
  assumes h: "h < nnvh s" "h < length (heaps s)" and c: "vm_ok (heaps s ! h)" and sz: "unat sz < 2 ^ 62"
    and fit: "unat (vnext (heaps s ! h)) + rounded sz < unat (vend (heaps s ! h))" and mm: "\<forall>a. mm a"
  shows "\<exists>s'. separation_malloc mm sz h s = Inr (vnext (heaps s ! h), s')"
proof -
  let ?c = "heaps s ! h"
  let ?nxt = "vnext ?c + ROUND_UP sz (of_nat ALIGNMENT)"
  have l62: "unat (vnext ?c) < 2 ^ 62" using c by (simp add: vm_ok_def)
  have n: "unat ?nxt = unat (vnext ?c) + rounded sz" by (rule unat_plus_rounded[OF l62 sz])
  then have lt: "?nxt < vend ?c" using fit by (simp add: word_less_nat_alt)
  have end62: "unat ?nxt < 2 ^ 62" using n fit c by (simp add: vm_ok_def)
  from vm_map_ok[OF end62, of "vnextchunk ?c" mm "pmem s"] c mm obtain nc m
    where "vm_map mm (vnextchunk ?c) ?nxt (pmem s) = Inr (True, nc, m)" by (auto simp: vm_ok_def)
  then show ?thesis using h lt by (simp add: separation_malloc_def separation_heap_alloc_def Let_def)
qed

lemma sdemo_setup:
  "\<exists>s. separation_setup 1 1 (sdemo 1 1) = Inr s \<and> heaps_wf s \<and> regions_wf s \<and> length (heaps s) = 1 \<and> nnvh s = 1 \<and>
     ro_regions s = Some {} \<and> uc_regions s = Some {} \<and>
     unat (vnext (heaps s ! 0)) = SEPARATION_HEAP_BEGIN \<and> unat (vend (heaps s ! 0)) = SEPARATION_HEAP_BOUND"
proof -
  obtain s where s: "separation_setup 1 1 (sdemo 1 1) = Inr s" by (simp add: separation_setup_def Let_def)
  note f = separation_setup_heaps[OF s]
  have v: "length (versioned_heaps s) = MAX_WORKERS" "\<forall>w < MAX_WORKERS. length (versioned_heaps s ! w) = 1"
    using separation_setup_versioned[OF s] f(3) by (auto simp: MAX_WORKERS_def)
  have wf: "heaps_wf s \<and> length (heaps s) = 1" using separation_setup_wf[OF s] by simp
  have rw: "regions_wf s" using f v by (simp add: regions_wf_def regions_below_def sdemo_def malloc_state.defs sep_state.defs)
  have e: "heaps s ! 0 = \<lparr>vbegin = of_nat SEPARATION_HEAP_BEGIN, vend = of_nat SEPARATION_HEAP_BOUND,
      vnext = of_nat SEPARATION_HEAP_BEGIN, vnextchunk = of_nat SEPARATION_HEAP_BEGIN\<rparr>"
    unfolding f(2) using vm_start_total[of 1 sep_chunks SEPARATION_HEAP_BEGIN] sep_ranges(1)
    by (subst vm_split_nth) simp_all
  show ?thesis using s wf rw f e
    by (intro exI[of _ s]) (simp add: sdemo_def malloc_state.defs sep_state.defs layout_defs)
qed

theorem separation_class_of_block_witness:
  "\<exists>s p s'. separation_malloc (\<lambda>_. True) 100 0 s = Inr (p, s') \<and> ro_regions (s :: sep_state) = Some {0} \<and>
     is_in_ro p s' \<and> \<not> is_in_uc p s'"
proof -
  obtain t :: sep_state where t: "heaps_wf t" "regions_wf t" "length (heaps t) = 1" "nnvh t = 1" "ro_regions t = Some {}" "uc_regions t = Some {}"
      "unat (vnext (heaps t ! 0)) = SEPARATION_HEAP_BEGIN" "unat (vend (heaps t ! 0)) = SEPARATION_HEAP_BOUND"
    using sdemo_setup by blast
  obtain s where r: "register_ro [0] t = Inr s" and s: "s = t\<lparr>ro_regions := Some {0}\<rparr>"
    using t(5) by (auto simp: register_ro_def insert_all_def)
  have wf: "heaps_wf s" "regions_wf s" using t(1-3) by (auto simp: s heaps_wf_def regions_wf_def regions_below_def)
  have b: "rounded 100 = 128" "SEPARATION_HEAP_BEGIN + 128 < SEPARATION_HEAP_BOUND" "SEPARATION_HEAP_BEGIN \<noteq> 0"
    by (simp_all add: rounded_def layout_defs)
  have ok: "vm_ok (heaps s ! 0)" using wf(1) t(3) by (simp add: heaps_wf_def s)
  have "\<exists>s'. separation_malloc (\<lambda>_. True) 100 0 s = Inr (vnext (heaps s ! 0), s')"
    by (rule separation_malloc_returns) (use t b ok in \<open>simp_all add: s\<close>)
  then obtain s' where m: "separation_malloc (\<lambda>_. True) 100 0 s = Inr (vnext (heaps s ! 0), s')" by blast
  have nz: "vnext (heaps s ! 0) \<noteq> 0" using t(7) b(3) by (auto simp: s)
  have "is_in_ro (vnext (heaps s ! 0)) s' \<and> \<not> is_in_uc (vnext (heaps s ! 0)) s'"
    using separation_class_of_block[OF wf _ _ _ _ m nz] t by (simp add: s member_of_def)
  then show ?thesis using m by (intro exI[of _ s] exI[of _ "vnext (heaps s ! 0)"] exI[of _ s']) (simp add: s)
qed

text \<open>
  Blocks that one run of allocations obtains from a separation heap are aligned, disjoint and inside the
  range of the heap; so are those from the versioned heap of a worker.
\<close>

lemmas separation_blocks_disjoint = sep.blocks_disjoint
lemmas ver_separation_blocks_disjoint = vsep.blocks_disjoint

end
