(* ===== verification/Speculation.thy ===== *)
theory Speculation
  imports Separation
begin

unbundle bit_operations_syntax

section \<open>Control block, iterations and misspeculation\<close>

text \<open>
  Models \<open>pcb.cpp\<close>, \<open>private.cpp\<close> and \<open>speculation.cpp\<close>. The parallel control block is shared by all
  processes; \<open>the_pcb = None\<close> is the null pointer, fresh shared memory is zero. The static variables of
  \<open>private.cpp\<close> (\<open>current_iteration\<close>, \<open>worker_id\<close>, here \<open>my_wid\<close>, \<open>pstage_replica_id\<close>) belong to the
  process that runs. CPU affinities are not modelled.

  A call that ends the process (\<open>_exit\<close>) leaves the shared state behind: \<open>Exited s\<close> is the end of the
  process in state \<open>s\<close>, \<open>Cont x\<close> a normal return, and \<open>xbind\<close> continues only after a return.
\<close>

datatype ('s, 'a) outcome = Exited 's | Cont 'a

definition xbind :: "('s, 'a) outcome res \<Rightarrow> ('a \<Rightarrow> ('s, 'b) outcome res) \<Rightarrow> ('s, 'b) outcome res" where
  "xbind r f = rbind r (\<lambda>x. case x of Exited s \<Rightarrow> Inr (Exited s) | Cont a \<Rightarrow> f a)"

definition xlift :: "'a res \<Rightarrow> ('s, 'a) outcome res" where
  "xlift r = rbind r (\<lambda>x. Inr (Cont x))"

fun xfold :: "('x \<Rightarrow> 's \<Rightarrow> ('s, 's) outcome res) \<Rightarrow> 'x list \<Rightarrow> 's \<Rightarrow> ('s, 's) outcome res" where
  "xfold f [] s = Inr (Cont s)"
| "xfold f (x # xs) s = xbind (f x s) (xfold f xs)"

lemma xbind_simps [simp]:
  "xbind (Inl e) f = Inl e" "xbind (Inr (Exited s)) f = Inr (Exited s)" "xbind (Inr (Cont a)) f = f a"
  by (simp_all add: xbind_def)

lemma xlift_simps [simp]: "xlift (Inl e) = Inl e" "xlift (Inr x) = Inr (Cont x)"
  by (simp_all add: xlift_def)

lemma xbind_eq_Cont: "xbind r f = Inr (Cont y) \<longleftrightarrow> (\<exists>x. r = Inr (Cont x) \<and> f x = Inr (Cont y))"
  by (cases r) (auto simp: xbind_def split: outcome.splits)

lemma xbind_eq_Exited: "xbind r f = Inr (Exited s) \<longleftrightarrow> r = Inr (Exited s) \<or> (\<exists>x. r = Inr (Cont x) \<and> f x = Inr (Exited s))"
  by (cases r) (auto simp: xbind_def split: outcome.splits)

lemma xlift_neq_Exited [simp]: "xlift r \<noteq> Inr (Exited s)"
  by (cases r) auto

lemma xlift_eq_Cont: "xlift r = Inr (Cont y) \<longleftrightarrow> r = Inr y"
  by (cases r) auto

lemma xfold_append: "xfold f (xs @ ys) s = xbind (xfold f xs s) (xfold f ys)"
  by (induction xs arbitrary: s) (auto simp: xbind_def rbind_def split: sum.splits outcome.splits)

lemma xfold_cont: "(\<And>x s. x \<in> set xs \<Longrightarrow> f x s = Inr (Cont (g x s))) \<Longrightarrow> xfold f xs s = Inr (Cont (fold g xs s))"
  by (induction xs arbitrary: s) auto

text \<open>
  \<open>res_ok Q r\<close>: a result of \<open>r\<close> satisfies \<open>Q\<close>. \<open>out_ok E Q r\<close>: a state in which \<open>r\<close> ends the process
  satisfies \<open>E\<close>, a result with which it returns satisfies \<open>Q\<close>. Both are proved along the structure of a program.
\<close>

definition res_ok :: "('a \<Rightarrow> bool) \<Rightarrow> 'a res \<Rightarrow> bool" where
  "res_ok Q r \<longleftrightarrow> (\<forall>x. r = Inr x \<longrightarrow> Q x)"

definition out_ok :: "('s \<Rightarrow> bool) \<Rightarrow> ('a \<Rightarrow> bool) \<Rightarrow> ('s, 'a) outcome res \<Rightarrow> bool" where
  "out_ok E Q r \<longleftrightarrow> (\<forall>s. r = Inr (Exited s) \<longrightarrow> E s) \<and> (\<forall>x. r = Inr (Cont x) \<longrightarrow> Q x)"

lemma ok_simps [simp]:
  "res_ok Q (Inl e)" "res_ok Q (Inr x) \<longleftrightarrow> Q x"
  "out_ok E R (Inl e)" "out_ok E R (Inr (Exited s)) \<longleftrightarrow> E s" "out_ok E R (Inr (Cont y)) \<longleftrightarrow> R y"
  by (auto simp: res_ok_def out_ok_def)

lemma res_ok_bind: "res_ok P r \<Longrightarrow> (\<And>x. P x \<Longrightarrow> res_ok Q (f x)) \<Longrightarrow> res_ok Q (rbind r f)"
  by (cases r) auto

lemma res_ok_mono: "res_ok P r \<Longrightarrow> (\<And>x. P x \<Longrightarrow> Q x) \<Longrightarrow> res_ok Q r"
  by (auto simp: res_ok_def)

lemma res_ok_fold: "I s \<Longrightarrow> (\<And>x s. x \<in> set xs \<Longrightarrow> I s \<Longrightarrow> res_ok I (f x s)) \<Longrightarrow> res_ok I (rfold f xs s)"
proof (induction xs arbitrary: s)
  case (Cons x xs)
  show ?case unfolding rfold.simps
    by (rule res_ok_bind[where P = I]) (use Cons in auto)
qed simp

lemma out_ok_bind: "out_ok E P r \<Longrightarrow> (\<And>x. P x \<Longrightarrow> out_ok E Q (f x)) \<Longrightarrow> out_ok E Q (xbind r f)"
  by (cases r) (auto simp: out_ok_def xbind_def split: outcome.splits)

lemma out_ok_lift: "out_ok E Q (xlift r) \<longleftrightarrow> res_ok Q r"
  by (cases r) auto

lemma out_ok_mono: "out_ok E P r \<Longrightarrow> (\<And>x. P x \<Longrightarrow> Q x) \<Longrightarrow> out_ok E Q r"
  by (auto simp: out_ok_def)

subsection \<open>The parallel control block\<close>

record pcb =
  exit_taken :: nat
  misspeculation_happened :: bool
  misspeculated_worker :: wid
  misspeculated_iteration :: iteration
  misspeculation_reason :: "string option"
  last_committed_iteration :: iteration

definition zero_pcb :: pcb where
  "zero_pcb = \<lparr>exit_taken = 0, misspeculation_happened = False, misspeculated_worker = 0,
     misspeculated_iteration = 0, misspeculation_reason = None, last_committed_iteration = 0\<rparr>"

record run_state = sep_state +
  the_pcb :: "pcb option"
  current_iteration :: iteration
  pstage_replica_id :: wid
  callingcontext :: "32 word"

definition get_pcb :: "'a run_state_scheme \<Rightarrow> pcb \<times> 'a run_state_scheme" where
  "get_pcb s = (case the_pcb s of None \<Rightarrow> (zero_pcb, s\<lparr>the_pcb := Some zero_pcb\<rparr>) | Some p \<Rightarrow> (p, s))"

definition destroy_pcb :: "'a run_state_scheme \<Rightarrow> 'a run_state_scheme" where
  "destroy_pcb s = s\<lparr>the_pcb := None\<rparr>"

definition update_pcb :: "(pcb \<Rightarrow> pcb) \<Rightarrow> 'a run_state_scheme \<Rightarrow> 'a run_state_scheme" where
  "update_pcb f s = (let (p, s) = get_pcb s in s\<lparr>the_pcb := Some (f p)\<rparr>)"

subsection \<open>Worker and iteration\<close>

definition init_worker :: "iteration \<Rightarrow> wid \<Rightarrow> 'a run_state_scheme \<Rightarrow> 'a run_state_scheme res" where
  "init_worker iter wid s =
     (if wid = MAIN_PROCESS_WID then Inl AssertFailed else Inr (s\<lparr>my_wid := wid, current_iteration := iter\<rparr>))"

definition get_pstage_replica_id :: "'a run_state_scheme \<Rightarrow> wid" where
  "get_pstage_replica_id s = pstage_replica_id s"

definition set_pstage_replica_id :: "wid \<Rightarrow> 'a run_state_scheme \<Rightarrow> 'a run_state_scheme" where
  "set_pstage_replica_id r s = s\<lparr>pstage_replica_id := r\<rparr>"

definition reset_current_iter :: "'a run_state_scheme \<Rightarrow> 'a run_state_scheme" where
  "reset_current_iter s = s\<lparr>current_iteration := 0\<rparr>"

definition advance_iter :: "'a run_state_scheme \<Rightarrow> 'a run_state_scheme" where
  "advance_iter s = s\<lparr>current_iteration := current_iteration s + 1\<rparr>"

definition set_current_iter :: "iteration \<Rightarrow> 'a run_state_scheme \<Rightarrow> 'a run_state_scheme" where
  "set_current_iter i s = s\<lparr>current_iteration := i\<rparr>"

text \<open>The part of \<open>worker_finishes\<close> that records the exit.\<close>

definition record_exit :: "nat \<Rightarrow> 'a run_state_scheme \<Rightarrow> 'a run_state_scheme res" where
  "record_exit e s =
     (if my_wid s < try_commit_begin s then
        let (p, s) = get_pcb s
        in if exit_taken p \<noteq> 0 then
             if my_wid s \<noteq> 0 \<and> exit_taken p \<noteq> e then Inl AssertFailed else Inr s
           else Inr (s\<lparr>the_pcb := Some (p\<lparr>exit_taken := e\<rparr>)\<rparr>)
      else Inr s)"

definition worker_finishes :: "nat \<Rightarrow> 'a run_state_scheme \<Rightarrow> ('a run_state_scheme, 'a run_state_scheme) outcome res" where
  "worker_finishes e s =
     (if my_wid s = MAIN_PROCESS_WID then Inl AssertFailed
      else rbind (record_exit e s) (\<lambda>s.
           rbind (broadcast_event (my_wid s) 0xDEADBEEF 0 0 WRITE EOW s) (\<lambda>s.
           rbind (clear_incoming_queues (my_wid s) s) (\<lambda>s. Inr (Exited s)))))"

subsection \<open>Misspeculation\<close>

definition last_committed :: "'a run_state_scheme \<Rightarrow> iteration \<times> 'a run_state_scheme" where
  "last_committed s = (let (p, s) = get_pcb s in (last_committed_iteration p, s))"

definition misspec_iter :: "'a run_state_scheme \<Rightarrow> iteration \<times> 'a run_state_scheme" where
  "misspec_iter s = (let (p, s) = get_pcb s in (misspeculated_iteration p, s))"

text \<open>What \<open>misspec\<close> does to the control block.\<close>

definition note_misspec :: "wid \<Rightarrow> iteration \<Rightarrow> string \<Rightarrow> pcb \<Rightarrow> pcb" where
  "note_misspec wid iter msg p =
     (let p = p\<lparr>misspeculation_happened := True, misspeculated_worker := wid\<rparr>;
          p = (if misspeculated_iteration p = -1 \<or> misspeculated_iteration p > iter
               then p\<lparr>misspeculated_iteration := iter\<rparr> else p)
      in p\<lparr>misspeculation_reason := Some msg\<rparr>)"

definition misspec :: "string \<Rightarrow> 'a run_state_scheme \<Rightarrow> ('a run_state_scheme, 'a run_state_scheme) outcome res" where
  "misspec msg s =
     (let iter = current_iteration s;
          wid = my_wid s;
          s = update_pcb (note_misspec wid iter msg) s
      in rbind (broadcast_event wid 0xDEADBEEF 0 0 WRITE MISSPEC s) (\<lambda>s.
         rbind (clear_incoming_queues wid s) (\<lambda>s.
           if wid \<noteq> MAIN_PROCESS_WID then worker_finishes 0 s else Inl AssertFailed)))"

definition predict :: "64 word \<Rightarrow> 64 word \<Rightarrow> 'a run_state_scheme \<Rightarrow> ('a run_state_scheme, 'a run_state_scheme) outcome res" where
  "predict observed expected s =
     (if observed \<noteq> expected then misspec ''Value prediction failed'' s else Inr (Cont s))"

definition recovery_finished :: "nat \<Rightarrow> 'a run_state_scheme \<Rightarrow> 'a run_state_scheme" where
  "recovery_finished e s =
     (let (p, s) = get_pcb s;
          mi = misspeculated_iteration p;
          p = p\<lparr>misspeculation_happened := False, misspeculated_worker := 0, misspeculated_iteration := -1,
                misspeculation_reason := None, last_committed_iteration := -1\<rparr>;
          p = (if e > 0 then p\<lparr>exit_taken := e\<rparr> else p)
      in set_current_iter (mi + 1) (s\<lparr>the_pcb := Some p\<rparr>))"

text \<open>\<open>invokedepth\<close> is an unsigned 32-bit counter.\<close>

definition loop_invocation :: "'a run_state_scheme \<Rightarrow> 'a run_state_scheme" where
  "loop_invocation s = s\<lparr>invokedepth := (invokedepth s + 1) mod 2 ^ 32\<rparr>"

definition loop_exit :: "'a run_state_scheme \<Rightarrow> 'a run_state_scheme" where
  "loop_exit s = s\<lparr>invokedepth := (invokedepth s + (2 ^ 32 - 1)) mod 2 ^ 32\<rparr>"

definition push_context :: "32 word \<Rightarrow> 'a run_state_scheme \<Rightarrow> 'a run_state_scheme" where
  "push_context ctxt s = (if invokedepth s > 1 then s else s\<lparr>callingcontext := ctxt\<rparr>)"

definition pop_context :: "'a run_state_scheme \<Rightarrow> 'a run_state_scheme" where
  "pop_context s = (if invokedepth s > 1 then s else s\<lparr>callingcontext := 0\<rparr>)"

definition get_context :: "'a run_state_scheme \<Rightarrow> 64 word" where
  "get_context s = ucast (callingcontext s)"

subsection \<open>Frames\<close>

lemma same_rest_run:
  assumes "same_rest s (s' :: 'a run_state_scheme)"
  shows "the_pcb s' = the_pcb s" "current_iteration s' = current_iteration s" "my_wid s' = my_wid s"
proof -
  have *: "s' = s\<lparr>packet_nexts := packet_nexts s', packet_chunk_nexts := packet_chunk_nexts s',
            commit_process_packet_next := commit_process_packet_next s',
            packets := packets s', chunks := chunks s', chan := chan s'\<rparr>"
    using assms by (simp add: same_rest_def)
  show "the_pcb s' = the_pcb s" by (subst *) simp
  show "current_iteration s' = current_iteration s" by (subst *) simp
  show "my_wid s' = my_wid s" by (subst *) simp
qed

lemma same_rest_chan: "same_rest s (s\<lparr>chan := c\<rparr>)"
  by (simp add: same_rest_def)

lemma clear_incoming_frame:
  assumes "clear_incoming_queues w s = Inr s'"
  shows "same_rest s s'"
proof (cases "w < try_commit_begin s")
  case True
  with assms show ?thesis by (auto simp: clear_incoming_queues_def same_rest_chan)
next
  case False
  let ?f = "\<lambda>i s. case chan s (ToTry i (w - try_commit_begin s)) of None \<Rightarrow> Inl OutOfRange
             | Some q \<Rightarrow> Inr (s\<lparr>chan := (chan s)(ToTry i (w - try_commit_begin s) \<mapsto> sw_queue_clear q)\<rparr>)"
  have "rfold ?f [0..<try_commit_begin s] s = Inr s'" using assms False by (simp add: clear_incoming_queues_def)
  then show ?thesis
    by (rule rfold_invariant[where P = "same_rest s", rotated 2])
      (auto split: option.splits intro: same_rest_trans same_rest_chan)
qed

lemma the_pcb_update_pcb:
  "the_pcb (update_pcb f s) = Some (f (case the_pcb s of None \<Rightarrow> zero_pcb | Some p \<Rightarrow> p))"
  by (simp add: update_pcb_def get_pcb_def split: option.splits)

lemma update_pcb_other [simp]:
  "my_wid (update_pcb f s) = my_wid s" "current_iteration (update_pcb f s) = current_iteration s"
  "try_commit_begin (update_pcb f s) = try_commit_begin s"
  by (simp_all add: update_pcb_def get_pcb_def split: option.splits)

text \<open>The control block after \<open>worker_finishes\<close> and \<open>misspec\<close>; neither returns.\<close>

definition pcb_of :: "'a run_state_scheme \<Rightarrow> pcb" where
  "pcb_of s = (case the_pcb s of None \<Rightarrow> zero_pcb | Some p \<Rightarrow> p)"

lemma pcb_of_update [simp]: "pcb_of (update_pcb f s) = f (pcb_of s)"
  by (simp add: pcb_of_def the_pcb_update_pcb)

lemma record_exit_ok:
  assumes "record_exit e s = Inr s'"
  shows "\<exists>x. pcb_of s' = (pcb_of s)\<lparr>exit_taken := x\<rparr>" "my_wid s' = my_wid s" "try_commit_begin s' = try_commit_begin s"
proof -
  have e: "\<exists>x. p = p\<lparr>exit_taken := x\<rparr>" for p :: pcb by (rule exI[of _ "exit_taken p"]) simp
  show "\<exists>x. pcb_of s' = (pcb_of s)\<lparr>exit_taken := x\<rparr>"
    using assms
    by (auto simp: record_exit_def get_pcb_def pcb_of_def split: if_splits option.splits intro!: e)
  show "my_wid s' = my_wid s" "try_commit_begin s' = try_commit_begin s"
    using assms by (auto simp: record_exit_def get_pcb_def split: if_splits option.splits)
qed

lemma worker_finishes_exits:
  assumes "worker_finishes e s = Inr r"
  shows "\<exists>s' x. r = Exited s' \<and> pcb_of s' = (pcb_of s)\<lparr>exit_taken := x\<rparr>"
proof -
  from assms obtain t u v where t: "record_exit e s = Inr t"
      and u: "broadcast_event (my_wid t) 0xDEADBEEF 0 0 WRITE EOW t = Inr u"
      and v: "clear_incoming_queues (my_wid u) u = Inr v" "r = Exited v"
    by (auto simp: worker_finishes_def rbind_eq_Inr split: if_splits)
  have "pcb_of v = pcb_of t"
    using same_rest_run(1)[OF broadcast_event_frame[OF u]] same_rest_run(1)[OF clear_incoming_frame[OF v(1)]]
    by (simp add: pcb_of_def)
  with record_exit_ok(1)[OF t] v(2) show ?thesis by auto
qed

lemma misspec_exits:
  assumes "misspec msg s = Inr r"
  shows "\<exists>s' x. r = Exited s' \<and> pcb_of s' = (note_misspec (my_wid s) (current_iteration s) msg (pcb_of s))\<lparr>exit_taken := x\<rparr>"
proof -
  let ?s = "update_pcb (note_misspec (my_wid s) (current_iteration s) msg) s"
  from assms obtain u v where u: "broadcast_event (my_wid s) 0xDEADBEEF 0 0 WRITE MISSPEC ?s = Inr u"
      and v: "clear_incoming_queues (my_wid s) u = Inr v" "worker_finishes 0 v = Inr r"
    by (auto simp: misspec_def Let_def rbind_eq_Inr split: if_splits)
  have "pcb_of v = pcb_of ?s"
    using same_rest_run(1)[OF broadcast_event_frame[OF u]] same_rest_run(1)[OF clear_incoming_frame[OF v(1)]]
    by (simp add: pcb_of_def)
  with worker_finishes_exits[OF v(2)] show ?thesis by simp
qed

subsection \<open>Several processes misspeculate\<close>

text \<open>
  Process \<open>w\<close>, in iteration \<open>i\<close>, calls \<open>misspec\<close> on the shared state; its private variables are its own.
  \<open>misspecs\<close> is a sequence of such calls, each one finished before the next begins.
\<close>

definition misspec_by :: "wid \<times> iteration \<times> string \<Rightarrow> 'a run_state_scheme \<Rightarrow> 'a run_state_scheme res" where
  "misspec_by e s =
     rbind (misspec (snd (snd e)) (s\<lparr>my_wid := fst e, current_iteration := fst (snd e)\<rparr>))
       (\<lambda>r. case r of Exited s' \<Rightarrow> Inr s' | Cont s' \<Rightarrow> Inr s')"

definition misspecs :: "(wid \<times> iteration \<times> string) list \<Rightarrow> 'a run_state_scheme \<Rightarrow> 'a run_state_scheme res" where
  "misspecs es s = rfold misspec_by es s"

lemma misspec_by_pcb:
  assumes "misspec_by (w, i, msg) s = Inr s'"
  shows "\<exists>x. pcb_of s' = (note_misspec w i msg (pcb_of s))\<lparr>exit_taken := x\<rparr>"
proof -
  let ?s = "s\<lparr>my_wid := w, current_iteration := i\<rparr>"
  from assms obtain r where r: "misspec msg ?s = Inr r" "(case r of Exited s' \<Rightarrow> Inr s' | Cont s' \<Rightarrow> Inr s') = (Inr s' :: _ res)"
    by (auto simp: misspec_by_def rbind_eq_Inr)
  from misspec_exits[OF r(1)] r(2) show ?thesis by (auto simp: pcb_of_def)
qed

lemma misspecs_min:
  assumes "misspecs es s = Inr s'" "\<forall>e \<in> set es. 0 \<le> fst (snd e)" "A = {} \<Longrightarrow> misspeculated_iteration (pcb_of s) = -1"
    and "A \<noteq> {} \<Longrightarrow> misspeculated_iteration (pcb_of s) = Min A" "finite A" "\<forall>a \<in> A. 0 \<le> a"
    and "A \<union> (fst \<circ> snd) ` set es \<noteq> {}"
  shows "misspeculated_iteration (pcb_of s') = Min (A \<union> (fst \<circ> snd) ` set es)"
  using assms
proof (induction es arbitrary: s A)
  case Nil
  then show ?case by (simp add: misspecs_def)
next
  case (Cons e es)
  obtain w i msg where e: "e = (w, i, msg)" by (cases e)
  from Cons.prems(1) obtain t where t: "misspec_by (w, i, msg) s = Inr t" "misspecs es t = Inr s'"
    by (auto simp: misspecs_def rbind_eq_Inr e)
  have i: "0 \<le> i" using Cons.prems(2) e by simp
  have "misspeculated_iteration (pcb_of t) = (if misspeculated_iteration (pcb_of s) = -1 \<or> misspeculated_iteration (pcb_of s) > i
      then i else misspeculated_iteration (pcb_of s))"
    using misspec_by_pcb[OF t(1)] by (auto simp: note_misspec_def Let_def)
  also have "\<dots> = Min (insert i A)"
  proof (cases "A = {}")
    case True
    then show ?thesis using Cons.prems(3) by simp
  next
    case False
    then have "Min A \<in> A" using Cons.prems(5) by (rule_tac Min_in) auto
    then have "Min A \<noteq> -1" using Cons.prems(6) by fastforce
    moreover have "Min (insert i A) = min i (Min A)" using False Cons.prems(5) by (simp add: Min_insert)
    ultimately show ?thesis using Cons.prems(4)[OF False] by (simp only: min_def) auto
  qed
  finally have "misspeculated_iteration (pcb_of t) = Min (insert i A)" .
  then have "misspeculated_iteration (pcb_of s') = Min (insert i A \<union> (fst \<circ> snd) ` set es)"
    by (intro Cons.IH[OF t(2)]) (use Cons.prems i in auto)
  then show ?case by (simp add: e)
qed

text \<open>
  C8. The control block remembers the earliest misspeculation: when several processes misspeculate one
  after the other, starting from the value \<open>-1\<close> that \<open>begin_invocation\<close> sets, the recorded iteration is the
  minimum of theirs, so that recovery re-executes from the first wrong iteration.
\<close>

theorem misspec_keeps_minimum:
  assumes "misspecs es s = Inr s'" "es \<noteq> []" "\<forall>e \<in> set es. 0 \<le> fst (snd e)" "misspeculated_iteration (pcb_of s) = -1"
  shows "misspeculated_iteration (pcb_of s') = Min ((fst \<circ> snd) ` set es)"
  using misspecs_min[of es s s' "{}"] assms by simp

text \<open>A state with two workers in two stages and one try-commit unit, after \<open>begin_invocation\<close>.\<close>

definition rdemo :: run_state where
  "rdemo = sep_state.extend (sdemo 0 0)
     (run_state.fields (Some (zero_pcb\<lparr>misspeculated_iteration := -1, last_committed_iteration := -1\<rparr>)) 0 NOT_A_PARALLEL_STAGE 0)"

lemma rdemo_simps [simp]:
  "try_commit_begin rdemo = 2" "num_aux_workers rdemo = 1"
  "the_pcb rdemo = Some (zero_pcb\<lparr>misspeculated_iteration := -1, last_committed_iteration := -1\<rparr>)"
  "current_iteration rdemo = 0" "chan rdemo = chan (demo (\<lambda>_. 0))"
  by (simp_all add: rdemo_def sep_state.defs run_state.defs sdemo_def malloc_state.defs mdemo_def comm_state.defs
      ver_malloc_init_def Let_def demo_def start_def init_queues_def init_packets_def strategy_workers_def two_stages_def
      get_defs)

lemma demo_tries: "chan (demo m) (ToTry 0 0) = Some sw_queue_create" "chan (demo m) (ToTry (Suc 0) 0) = Some sw_queue_create"
  by (simp_all add: demo_def start_def init_queues_def init_packets_def Let_def strategy_workers_def two_stages_def numeral_2_eq_2)

text \<open>A try-commit unit can always misspeculate: it sends nothing and clears its queues.\<close>

lemma misspec_by_unit:
  assumes "try_commit_begin s = 2" "chan s (ToTry 0 0) \<noteq> None" "chan s (ToTry (Suc 0) 0) \<noteq> None"
  shows "\<exists>s'. misspec_by (2, i, msg) s = Inr s' \<and> try_commit_begin s' = 2 \<and>
    chan s' (ToTry 0 0) \<noteq> None \<and> chan s' (ToTry (Suc 0) 0) \<noteq> None"
proof -
  have clear: "\<exists>t'. clear_incoming_queues 2 t = Inr t' \<and> try_commit_begin t' = 2 \<and> my_wid t' = my_wid t \<and>
      chan t' (ToTry 0 0) \<noteq> None \<and> chan t' (ToTry (Suc 0) 0) \<noteq> None"
    if "try_commit_begin t = 2" "chan t (ToTry 0 0) \<noteq> None" "chan t (ToTry (Suc 0) 0) \<noteq> None" for t :: "'a run_state_scheme"
    using that by (auto simp: clear_incoming_queues_def numeral_2_eq_2)
  let ?s = "update_pcb (note_misspec 2 i msg) (s\<lparr>my_wid := 2, current_iteration := i\<rparr>)"
  have c: "chan ?s = chan s" by (simp add: update_pcb_def get_pcb_def split: option.splits)
  obtain t where t: "clear_incoming_queues 2 ?s = Inr t" "try_commit_begin t = 2" "my_wid t = 2"
      "chan t (ToTry 0 0) \<noteq> None" "chan t (ToTry (Suc 0) 0) \<noteq> None"
    using clear[of ?s] assms c by auto
  obtain u where u: "clear_incoming_queues 2 t = Inr u" "try_commit_begin u = 2"
      "chan u (ToTry 0 0) \<noteq> None" "chan u (ToTry (Suc 0) 0) \<noteq> None"
    using clear[OF t(2,4,5)] by blast
  have "(2 :: nat) \<noteq> MAIN_PROCESS_WID" by (simp add: MAIN_PROCESS_WID_def)
  with t u have "misspec msg (s\<lparr>my_wid := 2, current_iteration := i\<rparr>) = Inr (Exited u)"
    by (simp add: misspec_def Let_def worker_finishes_def record_exit_def broadcast_event_def assms(1))
  then show ?thesis using u by (simp add: misspec_by_def)
qed

theorem misspec_keeps_minimum_witness:
  "\<exists>s'. misspecs [(2, 5, ''a''), (2, 3, ''b''), (2, 7, ''c'')] rdemo = Inr s' \<and> misspeculated_iteration (pcb_of s') = 3"
proof -
  obtain t where t: "misspec_by (2, 5, ''a'') rdemo = Inr t" "try_commit_begin t = 2"
      "chan t (ToTry 0 0) \<noteq> None" "chan t (ToTry (Suc 0) 0) \<noteq> None"
    using misspec_by_unit[of rdemo 5 "''a''"] demo_tries by auto
  obtain u where u: "misspec_by (2, 3, ''b'') t = Inr u" "try_commit_begin u = 2"
      "chan u (ToTry 0 0) \<noteq> None" "chan u (ToTry (Suc 0) 0) \<noteq> None"
    using misspec_by_unit[OF t(2-4)] by blast
  obtain v where v: "misspec_by (2, 7, ''c'') u = Inr v" using misspec_by_unit[OF u(2-4)] by blast
  have m: "misspecs [(2, 5, ''a''), (2, 3, ''b''), (2, 7, ''c'')] rdemo = Inr v" by (simp add: misspecs_def t u v)
  from misspec_keeps_minimum[OF this] have "misspeculated_iteration (pcb_of v) = 3" by (simp add: pcb_of_def)
  with m show ?thesis by blast
qed

subsection \<open>Processes that misspeculate at the same time\<close>

text \<open>
  \<open>misspec\<close> tests and writes the shared field \<open>misspeculated_iteration\<close> without a lock. A process of the
  model below is about to test the field (\<open>MTest\<close>), about to write it (\<open>MWrite\<close>) or past the write;
  steps of different processes interleave.
\<close>

datatype mpc = MTest | MWrite | MDone

inductive mstep :: "(nat \<Rightarrow> iteration) \<Rightarrow> (nat \<Rightarrow> mpc) \<times> iteration \<Rightarrow> (nat \<Rightarrow> mpc) \<times> iteration \<Rightarrow> bool" for iter where
  test_write: "pc i = MTest \<Longrightarrow> m = -1 \<or> m > iter i \<Longrightarrow> mstep iter (pc, m) (pc(i := MWrite), m)"
| test_skip: "pc i = MTest \<Longrightarrow> \<not> (m = -1 \<or> m > iter i) \<Longrightarrow> mstep iter (pc, m) (pc(i := MDone), m)"
| do_write: "pc i = MWrite \<Longrightarrow> mstep iter (pc, m) (pc(i := MDone), iter i)"

inductive_cases mstepE [elim!]: "mstep iter (pc, m) (pc', m')"

text \<open>What interleaving leaves intact: the field is \<open>-1\<close> or the iteration of a process that wrote it.\<close>

lemma mstep_source:
  assumes "(mstep iter)\<^sup>*\<^sup>* (\<lambda>_. MTest, -1) (pc, m)"
  shows "m = -1 \<or> (\<exists>i. pc i = MDone \<and> m = iter i)"
  using assms
proof (induction "(pc, m)" arbitrary: pc m rule: rtranclp_induct)
  case (step y)
  obtain pc0 m0 where y: "y = (pc0, m0)" by (cases y)
  from step(2)[unfolded y] show ?case
  proof cases
    case (do_write i)
    then show ?thesis by (intro disjI2 exI[of _ i]) simp
  qed (use step(3)[OF y] in \<open>(auto)[1]; metis fun_upd_apply mpc.distinct\<close>)+
qed simp


text \<open>
  A worker other than worker 0 that misspeculates after some worker has recorded a non-zero exit does
  not terminate cleanly: \<open>worker_finishes(0)\<close> runs into its assertion, whatever else happens.
\<close>

theorem misspec_after_exit_asserts:
  assumes "exit_taken (pcb_of s) \<noteq> 0" "my_wid s \<noteq> 0" "my_wid s < try_commit_begin s"
  shows "\<nexists>r. misspec msg s = Inr r"
proof
  assume "\<exists>r. misspec msg s = Inr r"
  then obtain r where r: "misspec msg s = Inr r" ..
  let ?s = "update_pcb (note_misspec (my_wid s) (current_iteration s) msg) s"
  from r obtain u v where u: "broadcast_event (my_wid s) 0xDEADBEEF 0 0 WRITE MISSPEC ?s = Inr u"
      and v: "clear_incoming_queues (my_wid s) u = Inr v" "worker_finishes 0 v = Inr r"
    by (auto simp: misspec_def Let_def rbind_eq_Inr split: if_splits)
  note fu = broadcast_event_frame[OF u] and fv = clear_incoming_frame[OF v(1)]
  have p: "the_pcb v = the_pcb ?s" "my_wid v = my_wid s" "try_commit_begin v = try_commit_begin s"
    using same_rest_run[OF fu] same_rest_run[OF fv] same_restD(7)[OF fu] same_restD(7)[OF fv] by simp_all
  obtain q where q: "the_pcb v = Some q" "exit_taken q \<noteq> 0"
    using p(1) assms(1) the_pcb_update_pcb[of _ s] by (auto simp: pcb_of_def note_misspec_def Let_def)
  then have "record_exit 0 v = Inl AssertFailed" using p assms by (simp add: record_exit_def get_pcb_def)
  with v(2) p show False by (simp add: worker_finishes_def split: if_splits)
qed

theorem misspec_after_exit_asserts_witness:
  "\<nexists>r. misspec ''x'' (rdemo\<lparr>my_wid := 1, the_pcb := Some (zero_pcb\<lparr>exit_taken := 2\<rparr>)\<rparr>) = Inr r"
  using misspec_after_exit_asserts[of "rdemo\<lparr>my_wid := 1, the_pcb := Some (zero_pcb\<lparr>exit_taken := 2\<rparr>)\<rparr>" "''x''"]
  by (simp add: pcb_of_def)

end
