(* ===== verification/Protection.thy ===== *)
theory Protection
  imports Speculation
begin

unbundle bit_operations_syntax

section \<open>Page protection and the touched bit\<close>

text \<open>
  Models \<open>smtx/protection.cpp\<close>. Before an iteration a worker protects every page of the heap
  (\<open>reset_protection\<close>); the first access to a page faults, and the handler gives the access back and
  sets bit 7 (\<open>0x80\<close>) of the first shadow byte of the page, by which \<open>end_iter\<close> finds the pages to send.

  \<open>prot\<close> is the protection \<open>mprotect\<close> last set on each page; \<open>mp a\<close> says whether \<open>mprotect\<close> on the
  page at \<open>a\<close> succeeds. \<open>handle_error\<close> ends the process with \<open>EXIT_FAILURE\<close>, status 1. The base handler
  and \<open>dumpstack\<close> print and spin; installing a handler is a system call.
\<close>

datatype prot = PROT_NONE | PROT_READ | PROT_RW

record prot_state = run_state +
  triggered :: "addr set"
  page_prot :: "addr \<Rightarrow> prot"

definition mprotect_page :: "(addr \<Rightarrow> bool) \<Rightarrow> addr \<Rightarrow> prot \<Rightarrow> 'a prot_state_scheme \<Rightarrow> 'a prot_state_scheme res" where
  "mprotect_page mp page pr s = (if mp page then Inr (s\<lparr>page_prot := (page_prot s)(page := pr)\<rparr>) else Inl (ProcExit 1))"

definition is_valid_page :: "addr \<Rightarrow> int \<Rightarrow> 'a prot_state_scheme \<Rightarrow> bool" where
  "is_valid_page page stage s \<longleftrightarrow>
     get_shadow_of page \<in> shadow_heaps s \<or> is_in_ro page s \<or> is_in_nrbw page s \<or> is_in_uc page s \<or>
     is_in_stage_private page s = stage"

text \<open>The SIGSEGV handler of a worker, for the faulting address \<open>a\<close>.\<close>

definition handler :: "(addr \<Rightarrow> bool) \<Rightarrow> addr \<Rightarrow> 'a prot_state_scheme \<Rightarrow> 'a prot_state_scheme res" where
  "handler mp a s =
     (let page = a AND PAGE_MASK;
          shadow = get_shadow_of page;
          stage = int (GET_MY_STAGE s (my_wid s))
      in if is_valid_page page stage s then
           if a \<in> triggered s then Inl (ProcExit 1)
           else
             let s = s\<lparr>triggered := insert a (triggered s), pmem := (pmem s)(shadow := pmem s shadow OR 0x80)\<rparr>
             in mprotect_page mp page (if is_in_ro page s then PROT_READ else PROT_RW) s
         else Inl (ProcExit 1))"

text \<open>The set of shadow pages is walked in order of addresses.\<close>

definition reset_page :: "(addr \<Rightarrow> bool) \<Rightarrow> addr \<Rightarrow> 'a prot_state_scheme \<Rightarrow> 'a prot_state_scheme res" where
  "reset_page mp shadow s =
     rbind (mprotect_page mp (get_original_of shadow) PROT_NONE s) (\<lambda>s.
       Inr (s\<lparr>pmem := (pmem s)(shadow := pmem s shadow AND 0x7f)\<rparr>))"

text \<open>\<open>set_separation_heaps_prot_none\<close>: every page of the mapped ranges.\<close>

definition range_pages :: "addr \<times> 64 word \<Rightarrow> addr list" where
  "range_pages r = map (\<lambda>k. fst r + of_nat (k * PAGE_SIZE)) [0..<(unat (snd r) + PAGE_SIZE - 1) div PAGE_SIZE]"

definition reset_protection :: "(addr \<Rightarrow> bool) \<Rightarrow> 'a prot_state_scheme \<Rightarrow> 'a prot_state_scheme res" where
  "reset_protection mp s =
     rbind (rfold (reset_page mp) (sorted_list_of_set (shadow_heaps s)) s) (\<lambda>s.
     rbind (rfold (\<lambda>p. mprotect_page mp p PROT_NONE) (concat (map range_pages (set_separation_heaps_prot_none s))) s) (\<lambda>s.
       Inr (s\<lparr>triggered := {}\<rparr>)))"

definition set_page_rw :: "(addr \<Rightarrow> bool) \<Rightarrow> addr \<Rightarrow> 'a prot_state_scheme \<Rightarrow> 'a prot_state_scheme res" where
  "set_page_rw mp page s = mprotect_page mp page PROT_RW s"

subsection \<open>The touched bit records the accesses\<close>

text \<open>
  One access of the program: a load, or a store of a byte. On a protected page it faults first, and is
  repeated once the handler has returned.
\<close>

definition program_access :: "(addr \<Rightarrow> bool) \<Rightarrow> addr \<times> byte option \<Rightarrow> 'a prot_state_scheme \<Rightarrow> 'a prot_state_scheme res" where
  "program_access mp acc s =
     rbind (if page_prot s (fst acc AND PAGE_MASK) = PROT_NONE then handler mp (fst acc) s else Inr s) (\<lambda>s.
       Inr (case snd acc of None \<Rightarrow> s | Some b \<Rightarrow> s\<lparr>pmem := (pmem s)(fst acc := b)\<rparr>))"

definition touched :: "'a prot_state_scheme \<Rightarrow> addr \<Rightarrow> bool" where
  "touched s shadow \<longleftrightarrow> bit (pmem s shadow) 7"

text \<open>For heap pages \<open>H\<close>: a page is accessible exactly if its touched bit is set, exactly if it is in \<open>A\<close>.\<close>

definition tracked :: "addr set \<Rightarrow> addr set \<Rightarrow> 'a prot_state_scheme \<Rightarrow> bool" where
  "tracked H A s \<longleftrightarrow> shadow_heaps s = H \<and>
     (\<forall>sh \<in> H. (touched s sh \<longleftrightarrow> get_original_of sh \<in> A) \<and>
                (page_prot s (get_original_of sh) \<noteq> PROT_NONE \<longleftrightarrow> get_original_of sh \<in> A))"

lemma bit_or_0x80: "bit (b OR 0x80 :: byte) 7" and bit_and_0x7f: "\<not> bit (b AND 0x7f :: byte) 7"
proof -
  have "bit (0x80 :: byte) 7" "\<not> bit (0x7f :: byte) 7" by simp_all
  then show "bit (b OR 0x80 :: byte) 7" "\<not> bit (b AND 0x7f :: byte) 7" by (simp_all add: bit_simps)
qed

lemma handler_tracked:
  assumes r: "handler mp a s = Inr s'" and t: "tracked H A s"
  shows "tracked H (insert (a AND PAGE_MASK) A) s'"
proof -
  let ?p = "a AND PAGE_MASK"
  let ?s = "s\<lparr>triggered := insert a (triggered s), pmem := (pmem s)(get_shadow_of ?p := pmem s (get_shadow_of ?p) OR 0x80)\<rparr>"
  from r obtain pr where pr: "pr \<noteq> PROT_NONE" "s' = ?s\<lparr>page_prot := (page_prot s)(?p := pr)\<rparr>"
    by (auto simp: handler_def mprotect_page_def Let_def split: if_splits)
  have e: "sh = get_shadow_of ?p \<longleftrightarrow> get_original_of sh = ?p" for sh
    by (metis get_original_shadow get_shadow_original)
  show ?thesis using t unfolding tracked_def touched_def pr(2)
    by (auto simp: e pr(1) bit_or_0x80)
qed

lemma program_access_tracked:
  assumes r: "program_access mp acc s = Inr s'" and t: "tracked H A s" and n: "fst acc \<notin> H"
    and v: "get_shadow_of (fst acc AND PAGE_MASK) \<in> H"
  shows "tracked H (insert (fst acc AND PAGE_MASK) A) s'"
proof -
  from r obtain u where u: "(if page_prot s (fst acc AND PAGE_MASK) = PROT_NONE then handler mp (fst acc) s else Inr s) = Inr u"
      and s': "s' = (case snd acc of None \<Rightarrow> u | Some b \<Rightarrow> u\<lparr>pmem := (pmem u)(fst acc := b)\<rparr>)"
    by (auto simp: program_access_def rbind_eq_Inr)
  have "tracked H (insert (fst acc AND PAGE_MASK) A) u"
  proof (cases "page_prot s (fst acc AND PAGE_MASK) = PROT_NONE")
    case True
    then show ?thesis using u handler_tracked[OF _ t] by simp
  next
    case False
    then have "fst acc AND PAGE_MASK \<in> A" using t v unfolding tracked_def by (metis get_original_shadow)
    then show ?thesis using False u t by (simp add: insert_absorb)
  qed
  then show ?thesis using n unfolding s' tracked_def touched_def by (auto split: option.splits)
qed

lemma mprotect_page_ok: "mprotect_page mp p pr s = Inr s' \<Longrightarrow> s' = s\<lparr>page_prot := (page_prot s)(p := pr)\<rparr>"
  by (simp add: mprotect_page_def split: if_splits)

text \<open>After the loop over the heap pages: those done so far are protected and untouched.\<close>

lemma reset_pages_ok:
  assumes "rfold (reset_page mp) shs s = Inr s'"
  shows "shadow_heaps s' = shadow_heaps s \<and> my_wid s' = my_wid s \<and> (\<forall>sh \<in> set shs. \<not> touched s' sh) \<and>
    (\<forall>p. page_prot s' p = (if get_shadow_of p \<in> set shs then PROT_NONE else page_prot s p)) \<and>
    (\<forall>x. x \<notin> set shs \<longrightarrow> pmem s' x = pmem s x) \<and> (\<forall>x. \<not> bit (pmem s x) 7 \<longrightarrow> \<not> bit (pmem s' x) 7)"
  using assms
proof (induction shs arbitrary: s)
  case (Cons sh shs)
  from Cons.prems obtain t where t: "reset_page mp sh s = Inr t" "rfold (reset_page mp) shs t = Inr s'"
    by (auto simp: rbind_eq_Inr)
  from t(1) have te: "t = s\<lparr>page_prot := (page_prot s)(get_original_of sh := PROT_NONE),
      pmem := (pmem s)(sh := pmem s sh AND 0x7f)\<rparr>"
    by (auto simp: reset_page_def rbind_eq_Inr dest!: mprotect_page_ok)
  note IH = Cons.IH[OF t(2)]
  have nb: "\<not> bit (pmem t sh) 7" by (simp add: te bit_and_0x7f)
  then have "\<not> touched s' sh" using IH by (auto simp: touched_def)
  moreover have "get_shadow_of p = sh \<longleftrightarrow> p = get_original_of sh" for p
    by (metis get_original_shadow get_shadow_original)
  moreover have "\<forall>x. \<not> bit (pmem s x) 7 \<longrightarrow> \<not> bit (pmem s' x) 7"
    using IH nb by (auto simp: te fun_upd_def split: if_splits)
  ultimately show ?case using IH by (auto simp: te)
qed simp

lemma reset_ranges_ok:
  assumes "rfold (\<lambda>p. mprotect_page mp p PROT_NONE) ps s = Inr s'"
  shows "\<exists>f. s' = s\<lparr>page_prot := f\<rparr> \<and> (\<forall>p. page_prot s p = PROT_NONE \<longrightarrow> f p = PROT_NONE)"
proof -
  define Q where "Q t \<longleftrightarrow> (\<exists>f. t = s\<lparr>page_prot := f\<rparr> \<and> (\<forall>p. page_prot s p = PROT_NONE \<longrightarrow> f p = PROT_NONE))" for t
  have q0: "Q s" unfolding Q_def by (intro exI[of _ "page_prot s"]) simp
  have q1: "Q t'" if "Q t" "mprotect_page mp p PROT_NONE t = Inr t'" for p t t'
    using that unfolding Q_def by (auto dest!: mprotect_page_ok)
  have "Q s'"
    by (rule rfold_invariant[where P = Q and f = "\<lambda>p. mprotect_page mp p PROT_NONE", OF _ q0 assms]) (rule q1)
  then show ?thesis by (simp add: Q_def)
qed

lemma reset_protection_tracked:
  assumes r: "reset_protection mp s = Inr s'" and f: "finite (shadow_heaps s)"
  shows "tracked (shadow_heaps s) {} s'"
proof -
  from r obtain t u where t: "rfold (reset_page mp) (sorted_list_of_set (shadow_heaps s)) s = Inr t"
      and u: "rfold (\<lambda>p. mprotect_page mp p PROT_NONE) (concat (map range_pages (set_separation_heaps_prot_none t))) t = Inr u"
      and s': "s' = u\<lparr>triggered := {}\<rparr>"
    by (auto simp: reset_protection_def rbind_eq_Inr)
  from reset_ranges_ok[OF u] obtain g where g: "u = t\<lparr>page_prot := g\<rparr>" "\<forall>p. page_prot t p = PROT_NONE \<longrightarrow> g p = PROT_NONE"
    by blast
  note t' = reset_pages_ok[OF t, unfolded set_sorted_list_of_set[OF f]]
  show ?thesis unfolding tracked_def s' g(1) using t' g(2) by (auto simp: touched_def)
qed

text \<open>
  C13. The touched bits are exact: after \<open>reset_protection\<close>, any run of loads and stores to heap pages
  leaves the touched bit set in the metadata of exactly the heap pages that were accessed, and exactly
  those pages are accessible.
\<close>

theorem touched_pages_exact:
  assumes "reset_protection mp s = Inr s0" "finite (shadow_heaps s)" "rfold (program_access mp) accs s0 = Inr s'"
    and "\<forall>acc \<in> set accs. fst acc \<notin> shadow_heaps s \<and> get_shadow_of (fst acc AND PAGE_MASK) \<in> shadow_heaps s"
    and "sh \<in> shadow_heaps s"
  shows "(touched s' sh \<longleftrightarrow> get_original_of sh \<in> (\<lambda>acc. fst acc AND PAGE_MASK) ` set accs) \<and>
         (page_prot s' (get_original_of sh) \<noteq> PROT_NONE \<longleftrightarrow> get_original_of sh \<in> (\<lambda>acc. fst acc AND PAGE_MASK) ` set accs)"
proof -
  let ?H = "shadow_heaps s"
  have "tracked ?H (A \<union> (\<lambda>acc. fst acc AND PAGE_MASK) ` set accs) s'"
    if "rfold (program_access mp) accs t = Inr s'" "tracked ?H A t" for t A
    using that assms(4)
  proof (induction accs arbitrary: t A)
    case (Cons acc accs)
    from Cons.prems(1) obtain u where u: "program_access mp acc t = Inr u" "rfold (program_access mp) accs u = Inr s'"
      by (auto simp: rbind_eq_Inr)
    have "tracked ?H (insert (fst acc AND PAGE_MASK) A) u"
      by (rule program_access_tracked[OF u(1) Cons.prems(2)]) (use Cons.prems(3) in auto)
    from Cons.IH[OF u(2) this] Cons.prems(3) show ?case by (simp add: Un_assoc insert_is_Un[symmetric])
  qed simp
  from this[OF assms(3) reset_protection_tracked[OF assms(1,2)]] assms(5) show ?thesis
    by (simp add: tracked_def)
qed

definition pdemo :: prot_state where
  "pdemo = run_state.extend (rdemo\<lparr>my_wid := 0, shadow_heaps := {get_shadow_of 0x5000, get_shadow_of 0x7000}\<rparr>)
     (prot_state.fields {} (\<lambda>_. PROT_RW))"

lemma pdemo_simps [simp]:
  "shadow_heaps pdemo = {get_shadow_of 0x5000, get_shadow_of 0x7000}"
  "set_separation_heaps_prot_none (pdemo\<lparr>page_prot := f, pmem := m\<rparr>) = []"
  "ro_regions pdemo = None" "ver_ro_regions pdemo = None" "triggered pdemo = {}"
  by (simp_all add: pdemo_def run_state.defs prot_state.defs rdemo_def sep_state.defs sdemo_def malloc_state.defs mdemo_def
      comm_state.defs ver_malloc_init_def set_separation_heaps_prot_none_def)

theorem touched_pages_exact_witness:
  "\<exists>s0 s'. reset_protection (\<lambda>_. True) pdemo = Inr s0 \<and> rfold (program_access (\<lambda>_. True)) [(0x5010, Some 7)] s0 = Inr s' \<and>
     touched s' (get_shadow_of 0x5000) \<and> \<not> touched s' (get_shadow_of 0x7000)"
proof -
  let ?r = "\<lambda>s. reset_protection (\<lambda>_. True) s" and ?sh = "get_shadow_of 0x5000" and ?sk = "get_shadow_of 0x7000"
  have sl: "sorted_list_of_set {?sh, ?sk} = [?sh, ?sk]" by (simp add: get_shadow_of_def SHADOW_MASK_def)
  let ?s0 = "(pdemo\<lparr>page_prot := (page_prot pdemo)(0x5000 := PROT_NONE, 0x7000 := PROT_NONE),
     pmem := (pmem pdemo)(?sh := pmem pdemo ?sh AND 0x7f, ?sk := pmem pdemo ?sk AND 0x7f), triggered := {}\<rparr>)"
  have ne: "?sk \<noteq> ?sh" by (simp add: get_shadow_inj)
  have r: "?r pdemo = Inr ?s0"
    using ne unfolding reset_protection_def pdemo_simps(1) sl
    by (simp add: reset_page_def mprotect_page_def)
  have pg: "(0x5010 :: addr) AND PAGE_MASK = 0x5000" by (simp add: PAGE_MASK_def)
  have a: "\<exists>s'. rfold (program_access (\<lambda>_. True)) [(0x5010, Some 7)] ?s0 = Inr s'"
    by (simp add: program_access_def pg handler_def Let_def is_valid_page_def mprotect_page_def)
  then obtain s' where s': "rfold (program_access (\<lambda>_. True)) [(0x5010, Some 7)] ?s0 = Inr s'" by blast
  have na: "(0x5010 :: addr) \<notin> {?sh, ?sk}" by (simp add: get_shadow_of_def SHADOW_MASK_def)
  have f: "finite (shadow_heaps pdemo)" by simp
  have "touched s' ?sh \<and> \<not> touched s' ?sk"
    using touched_pages_exact[OF r f s', of ?sh] touched_pages_exact[OF r f s', of ?sk] na by (simp add: pg)
  with r s' show ?thesis by blast
qed

end
