(* ===== verification/Pages.thy ===== *)
theory Pages
  imports Simd Strategy
begin

unbundle bit_operations_syntax

section \<open>Applying and validating forwarded bytes\<close>

text \<open>
  Models the routines of \<open>smtx/units.cpp\<close> that work on the bytes of one packet: \<open>update_page\<close> and
  \<open>update_normal_packet\<close> merge the written bytes of a forwarded page or word into memory;
  \<open>check_page\<close>, \<open>check_packet\<close> and \<open>check_ro_page\<close> are the validation of the try-commit unit, which
  keeps in the shadow of every byte the number (plus one) of the last stage that wrote it.

  The compiled \<open>update_page\<close> and \<open>check_page\<close> handle 16 bytes at a time with SSE instructions; the
  source also has the byte-wise versions (under \<open>#else\<close> of \<open>DEBUG_ON\<close> and under \<open>#if 0\<close>), modelled
  as \<open>update_page_debug\<close> and \<open>check_page_scalar\<close> and used as the reference. The data of a packet
  chunk is a \<open>bytes\<close> array, the memory of the process a \<open>mem\<close>.
\<close>

subsection \<open>Merging written bytes\<close>

text \<open>The values of \<open>i\<close> in \<open>for (i = 0; i < PAGE_SIZE; i += 16)\<close>.\<close>

definition page_blocks :: "nat list" where
  "page_blocks = map (\<lambda>b. 16 * b) [0..<PAGE_SIZE div 16]"

definition update_block :: "addr \<Rightarrow> bytes \<Rightarrow> bytes \<Rightarrow> nat \<Rightarrow> mem \<Rightarrow> mem" where
  "update_block addr data shadow i m =
     (let m0 = push_bit 6 (arr64 shadow i);
          m1 = push_bit 6 (arr64 shadow (i + 8));
          d0 = arr64 data i;
          d1 = arr64 data (i + 8)
      in mm_maskmoveu (mm_from64 d1 d0) (mm_from64 m1 m0) (addr + of_nat i) m)"

definition update_page :: "addr \<Rightarrow> bytes \<Rightarrow> bytes \<Rightarrow> mem \<Rightarrow> mem" where
  "update_page addr data shadow m = fold (update_block addr data shadow) page_blocks m"

definition update_page_debug :: "addr \<Rightarrow> bytes \<Rightarrow> bytes \<Rightarrow> mem \<Rightarrow> mem" where
  "update_page_debug addr data shadow m =
     fold (\<lambda>i m. if shadow i AND 2 \<noteq> 0 then m(addr + of_nat i := data i) else m) [0..<PAGE_SIZE] m"

text \<open>One round per byte of a packet that carries 8 bytes; \<open>shadow\<close> and \<open>val\<close> are shifted.\<close>

fun update_normal_loop :: "nat \<Rightarrow> nat \<Rightarrow> addr \<Rightarrow> 64 word \<Rightarrow> 64 word \<Rightarrow> mem \<Rightarrow> mem" where
  "update_normal_loop 0 i ptr shadow val m = m"
| "update_normal_loop (Suc n) i ptr shadow val m =
     update_normal_loop n (Suc i) ptr (signed_drop_bit 8 shadow) (signed_drop_bit 8 val)
       (if shadow AND 2 \<noteq> 0 then m(ptr + of_nat i := ucast (val AND 0xff)) else m)"

definition update_normal :: "addr \<Rightarrow> 64 word \<Rightarrow> 64 word \<Rightarrow> mem \<Rightarrow> mem" where
  "update_normal ptr val shadow m = update_normal_loop 8 0 ptr shadow val m"

subsection \<open>Validation\<close>

definition new_stage_id :: "nat \<Rightarrow> byte" where
  "new_stage_id stage = of_nat (stage + 1)"

definition ref_of :: "'a strategy_scheme \<Rightarrow> nat \<Rightarrow> byte" where
  "ref_of s stage =
     (if GET_REPLICATION_FACTOR s stage = 1 then new_stage_id stage + 1 else new_stage_id stage)"

text \<open>A loop that returns \<open>false\<close> from its body, with the memory it has changed so far.\<close>

fun check_loop :: "(nat \<Rightarrow> mem \<Rightarrow> bool \<times> mem) \<Rightarrow> nat list \<Rightarrow> mem \<Rightarrow> bool \<times> mem" where
  "check_loop body [] m = (True, m)"
| "check_loop body (i # is) m =
     (case body i m of (ok, m') \<Rightarrow> if ok then check_loop body is m' else (False, m'))"

definition check_block :: "addr \<Rightarrow> bytes \<Rightarrow> bytes \<Rightarrow> byte \<Rightarrow> byte \<Rightarrow> nat \<Rightarrow> mem \<Rightarrow> bool \<times> mem" where
  "check_block addr data shadow sid ref i m =
     (let w0 = arr64 shadow i;
          w1 = arr64 shadow (i + 8)
      in if w0 = 0 \<and> w1 = 0 then (True, m)
         else
           let mask0 = mm_from64 (push_bit 7 w1) (push_bit 7 w0);
               l0 = load_le 8 m (get_shadow_of (addr + of_nat i)) :: 64 word;
               l1 = load_le 8 m (get_shadow_of (addr + of_nat (i + 8))) :: 64 word;
               ls = mm_from64 l1 l0;
               mask1 = mm_sub_epi8 ls (mm_set1_epi8 ref);
               msk = mm_andnot mask1 mask0
           in if \<not> mm_test_all_zeros msk (mm_set1_epi8 0x80) then (False, m)
              else
                let mask20 = mm_from64 (push_bit 6 w1) (push_bit 6 w0);
                    ds = mm_from64 (arr64 data (i + 8)) (arr64 data i);
                    m' = mm_maskmoveu ds mask20 (addr + of_nat i) m
                in (True, mm_maskmoveu (mm_set1_epi8 sid) mask20 (get_shadow_of (addr + of_nat i)) m'))"

definition check_page :: "'a strategy_scheme \<Rightarrow> addr \<Rightarrow> bytes \<Rightarrow> bytes \<Rightarrow> nat \<Rightarrow> mem \<Rightarrow> bool \<times> mem" where
  "check_page s addr data shadow stage m =
     check_loop (check_block addr data shadow (new_stage_id stage) (ref_of s stage)) page_blocks m"

definition check_byte :: "addr \<Rightarrow> byte \<Rightarrow> byte \<Rightarrow> byte \<Rightarrow> byte \<Rightarrow> mem \<Rightarrow> bool \<times> mem" where
  "check_byte a d sh sid ref m =
     (if sh AND 1 \<noteq> 0 \<and> ref \<le> m (get_shadow_of a) then (False, m)
      else if sh AND 2 \<noteq> 0 then (True, (m(a := d))(get_shadow_of a := sid))
      else (True, m))"

definition check_page_scalar :: "'a strategy_scheme \<Rightarrow> addr \<Rightarrow> bytes \<Rightarrow> bytes \<Rightarrow> nat \<Rightarrow> mem \<Rightarrow> bool \<times> mem" where
  "check_page_scalar s addr data shadow stage m =
     check_loop (\<lambda>i. check_byte (addr + of_nat i) (data i) (shadow i) (new_stage_id stage) (ref_of s stage))
       [0..<PAGE_SIZE] m"

fun check_packet_loop :: "nat \<Rightarrow> nat \<Rightarrow> addr \<Rightarrow> 64 word \<Rightarrow> 64 word \<Rightarrow> byte \<Rightarrow> byte \<Rightarrow> mem \<Rightarrow> bool \<times> mem" where
  "check_packet_loop 0 i addr data shadow sid ref m = (True, m)"
| "check_packet_loop (Suc n) i addr data shadow sid ref m =
     (if shadow AND 1 \<noteq> 0 \<and> ref \<le> m (get_shadow_of (addr + of_nat i)) then (False, m)
      else check_packet_loop n (Suc i) addr (drop_bit 8 data) (drop_bit 8 shadow) sid ref
             (if shadow AND 2 \<noteq> 0
              then (m(addr + of_nat i := ucast (data AND 0xff)))(get_shadow_of (addr + of_nat i) := sid)
              else m))"

definition check_packet :: "'a strategy_scheme \<Rightarrow> addr \<Rightarrow> 64 word \<Rightarrow> 64 word \<Rightarrow> 32 word \<Rightarrow> nat \<Rightarrow> mem \<Rightarrow>
    (bool \<times> mem) res" where
  "check_packet s addr data shadow sz stage m =
     (if sz \<noteq> 8 then Inl AssertFailed
      else Inr (check_packet_loop (unat sz) 0 addr data shadow (new_stage_id stage) (ref_of s stage) m))"

text \<open>
  \<open>check_ro_page\<close> returns \<open>false\<close> on the first byte a later stage wrote and has no \<open>return\<close>
  statement after its loop: \<open>None\<close> is that end. Its caller ignores the result.
\<close>

fun check_ro_loop :: "byte \<Rightarrow> addr \<Rightarrow> mem \<Rightarrow> nat list \<Rightarrow> bool option" where
  "check_ro_loop ref addr m [] = None"
| "check_ro_loop ref addr m (i # is) =
     (if ref \<le> m (get_shadow_of (addr + of_nat i)) then Some False else check_ro_loop ref addr m is)"

definition check_ro_page :: "'a strategy_scheme \<Rightarrow> addr \<Rightarrow> nat \<Rightarrow> mem \<Rightarrow> bool option" where
  "check_ro_page s addr stage m = check_ro_loop (ref_of s stage) addr m [0..<PAGE_SIZE]"

subsection \<open>What the loops compute, byte by byte\<close>

lemma and_exp_nonzero: "(w :: 'a::len word) AND 2 ^ n \<noteq> 0 \<longleftrightarrow> bit w n"
proof
  assume b: "bit w n"
  then have "bit (w AND 2 ^ n) n" by (auto simp: bit_simps bit_imp_le_length)
  then show "w AND 2 ^ n \<noteq> 0" by auto
next
  assume ne: "w AND 2 ^ n \<noteq> 0"
  show "bit w n"
  proof (rule ccontr)
    assume "\<not> bit w n"
    then have "w AND 2 ^ n = 0" by (intro bit_word_eqI) (auto simp: bit_simps)
    with ne show False by simp
  qed
qed

lemma flag_bits:
  "(w :: 'a::len word) AND 1 \<noteq> 0 \<longleftrightarrow> bit w 0"
  "(w :: 'a::len word) AND 2 \<noteq> 0 \<longleftrightarrow> bit w 1"
  using and_exp_nonzero[of w 0] and_exp_nonzero[of w 1] by simp_all

lemma flag_ucast:
  "ucast (w :: 64 word) AND (1 :: byte) \<noteq> 0 \<longleftrightarrow> w AND 1 \<noteq> 0"
  "ucast (w :: 64 word) AND (2 :: byte) \<noteq> 0 \<longleftrightarrow> w AND 2 \<noteq> 0"
  unfolding flag_bits by (simp_all add: bit_simps)

definition merged :: "addr \<Rightarrow> bytes \<Rightarrow> bytes \<Rightarrow> nat \<Rightarrow> mem \<Rightarrow> mem" where
  "merged addr data shadow k m =
     (\<lambda>x. let i = unat (x - addr) in if i < k \<and> bit (shadow i) 1 then data i else m x)"

definition validated :: "addr \<Rightarrow> bytes \<Rightarrow> bytes \<Rightarrow> byte \<Rightarrow> nat \<Rightarrow> mem \<Rightarrow> mem" where
  "validated addr data shadow sid k m =
     (\<lambda>x. let i = unat (x - addr); j = unat (get_original_of x - addr) in
        if i < k \<and> bit (shadow i) 1 then data i
        else if j < k \<and> bit (shadow j) 1 then sid else m x)"

lemma merged_0 [simp]: "merged addr data shadow 0 m = m"
  by (simp add: merged_def Let_def)

lemma validated_0 [simp]: "validated addr data shadow sid 0 m = m"
  by (simp add: validated_def Let_def)

lemma update_bytewise:
  assumes "k \<le> 2 ^ 64"
  shows "fold (\<lambda>i m. if bit (shadow i) 1 then m(addr + of_nat i := data i) else m) [0..<k] m =
         merged addr data shadow k m"
  using assms
proof (induction k)
  case (Suc k)
  then have "x = addr + of_nat k \<longleftrightarrow> unat (x - addr) = k" for x
    by (intro eq_add_of_nat_iff) linarith
  then show ?case using Suc
    by (auto simp: merged_def Let_def fun_eq_iff less_Suc_eq)
qed simp

lemma update_page_debug_merged: "update_page_debug addr data shadow m = merged addr data shadow PAGE_SIZE m"
  using update_bytewise[of PAGE_SIZE] unfolding update_page_debug_def flag_bits
  by (simp add: PAGE_SIZE_def)

text \<open>Byte \<open>j\<close> of the vectors the block routines build from two 64-bit loads of an array.\<close>

lemma lane_block:
  assumes "j < 16" "i + 16 \<le> 2 ^ 64"
  shows "lane (mm_from64 (arr64 a (i + 8)) (arr64 a i)) j = a (i + j)"
  using assms by (simp add: lane_mm_from64 lane_arr64)

lemma bit7_block:
  assumes "j < 16" "i + 16 \<le> 2 ^ 64" "t \<le> 7"
  shows "bit (lane (mm_from64 (push_bit t (arr64 a (i + 8))) (push_bit t (arr64 a i))) j) 7 \<longleftrightarrow>
         bit (a (i + j)) (7 - t)"
  using assms by (simp add: lane_mm_from64 bit7_shift lane_arr64)

lemma maskmove_block:
  assumes i: "i + 16 \<le> 2 ^ 64"
    and d: "\<forall>j < 16. lane d j = data (i + j)"
  shows "mm_maskmoveu d (mm_from64 (push_bit 6 (arr64 sh (i + 8))) (push_bit 6 (arr64 sh i))) (p + of_nat i) m x =
         (if i \<le> unat (x - p) \<and> unat (x - p) < i + 16 \<and> bit (sh (unat (x - p))) 1
          then data (unat (x - p)) else m x)"
proof (cases "unat (x - (p + of_nat i)) < 16")
  case True
  have u: "unat (x - p) = unat (x - (p + of_nat i)) + i"
    by (rule unat_sub_add[OF True i])
  have b: "bit (lane (mm_from64 (push_bit 6 (arr64 sh (i + 8))) (push_bit 6 (arr64 sh i)))
             (unat (x - (p + of_nat i)))) 7 \<longleftrightarrow> bit (sh (unat (x - p))) 1"
    unfolding bit7_block[OF True i, of 6 sh, simplified] u by (simp add: ac_simps)
  show ?thesis using True u unfolding mm_maskmoveu_apply b by (simp add: d ac_simps)
next
  case False
  moreover from this have "\<not> (i \<le> unat (x - p) \<and> unat (x - p) < i + 16)"
    using unat_sub_less_iff[OF i, of x p] by blast
  ultimately show ?thesis unfolding mm_maskmoveu_apply by auto
qed

lemma update_block_merged:
  assumes "i + 16 \<le> 2 ^ 64"
  shows "update_block addr data shadow i (merged addr data shadow i m) = merged addr data shadow (i + 16) m"
proof
  fix x
  have "\<forall>j < 16. lane (mm_from64 (arr64 data (i + 8)) (arr64 data i)) j = data (i + j)"
    by (simp add: lane_block[OF _ assms])
  from maskmove_block[OF assms this, where sh = shadow and p = addr and x = x]
  show "update_block addr data shadow i (merged addr data shadow i m) x = merged addr data shadow (i + 16) m x"
    by (auto simp: update_block_def merged_def Let_def)
qed

lemma update_blocks_merged:
  assumes "16 * n \<le> 2 ^ 64"
  shows "fold (update_block addr data shadow) (map (\<lambda>b. 16 * b) [0..<n]) m =
         merged addr data shadow (16 * n) m"
  using assms
proof (induction n)
  case (Suc n)
  then show ?case using update_block_merged[of "16 * n" addr data shadow m] by (simp add: ac_simps)
qed simp

lemma update_page_merged: "update_page addr data shadow m = merged addr data shadow PAGE_SIZE m"
  using update_blocks_merged[of "PAGE_SIZE div 16" addr data shadow m]
  by (simp add: update_page_def page_blocks_def PAGE_SIZE_def)

subsection \<open>Early-exit loops\<close>

text \<open>
  If round \<open>k\<close>, started in state \<open>I k\<close>, goes on to \<open>I (k + 1)\<close> exactly when \<open>P k\<close> holds and
  otherwise returns \<open>false\<close>, the loop returns \<open>true\<close> exactly when all \<open>P k\<close> hold, and then in \<open>I n\<close>.
\<close>

lemma check_loop_append:
  "check_loop body (xs @ ys) m =
     (case check_loop body xs m of (ok, m') \<Rightarrow> if ok then check_loop body ys m' else (False, m'))"
  by (induction xs arbitrary: m) (auto split: prod.splits)

lemma check_loop_map: "check_loop body (map f xs) m = check_loop (\<lambda>b. body (f b)) xs m"
  by (induction xs arbitrary: m) (auto split: prod.splits)

lemma check_loop_cong:
  "(\<And>i m. i \<in> set xs \<Longrightarrow> f i m = g i m) \<Longrightarrow> check_loop f xs m = check_loop g xs m"
  by (induction xs arbitrary: m) (auto split: prod.splits)

lemma check_loop_upt:
  assumes ok: "\<And>k. k < n \<Longrightarrow> P k \<Longrightarrow> body k (I k) = (True, I (Suc k))"
    and bad: "\<And>k. k < n \<Longrightarrow> \<not> P k \<Longrightarrow> \<not> fst (body k (I k))"
  shows "(fst (check_loop body [0..<n] (I 0)) \<longleftrightarrow> (\<forall>k < n. P k)) \<and>
         ((\<forall>k < n. P k) \<longrightarrow> check_loop body [0..<n] (I 0) = (True, I n))"
  using assms
proof (induction n)
  case (Suc n)
  then have IH: "fst (check_loop body [0..<n] (I 0)) \<longleftrightarrow> (\<forall>k < n. P k)"
      "(\<forall>k < n. P k) \<Longrightarrow> check_loop body [0..<n] (I 0) = (True, I n)"
    by auto
  show ?case
  proof (cases "\<forall>k < n. P k")
    case True
    with IH(2) have l: "check_loop body [0..<Suc n] (I 0) =
        (case body n (I n) of (ok, m') \<Rightarrow> if ok then (True, m') else (False, m'))"
      by (simp add: check_loop_append split: prod.splits)
    show ?thesis
    proof (cases "P n")
      case True
      with \<open>\<forall>k < n. P k\<close> show ?thesis unfolding l Suc.prems(1)[of n, OF lessI True]
        by (auto simp: less_Suc_eq)
    next
      case False
      from Suc.prems(2)[OF lessI False] False show ?thesis unfolding l
        by (auto split: prod.splits)
    qed
  next
    case False
    with IH(1) have "\<not> fst (check_loop body [0..<n] (I 0))" by blast
    then have "\<not> fst (check_loop body [0..<Suc n] (I 0))"
      by (auto simp: check_loop_append split: prod.splits)
    moreover from False have "\<not> (\<forall>k < Suc n. P k)" by (auto simp: less_Suc_eq)
    ultimately show ?thesis by blast
  qed
qed simp

subsection \<open>Validation, byte by byte\<close>

text \<open>Byte \<open>i\<close> passes if it was not loaded before being stored, or its last writer is allowed.\<close>

definition byte_ok :: "addr \<Rightarrow> bytes \<Rightarrow> byte \<Rightarrow> mem \<Rightarrow> nat \<Rightarrow> bool" where
  "byte_ok addr shadow ref m i \<longleftrightarrow> (bit (shadow i) 0 \<longrightarrow> m (get_shadow_of (addr + of_nat i)) < ref)"

lemma below_2_44:
  assumes "i < n" "n \<le> 2 ^ 44"
  shows "i < (2 :: nat) ^ 64"
proof -
  have "(2 :: nat) ^ 44 < 2 ^ 64" by simp
  with assms show ?thesis by linarith
qed

lemma original_offset:
  assumes nc: "no_shadow_carry addr n" and i: "i < n" and n: "n \<le> 2 ^ 44"
  shows "x = get_shadow_of (addr + of_nat i) \<longleftrightarrow> unat (get_original_of x - addr) = i"
proof -
  have "i < 2 ^ 64" using i n by (rule below_2_44)
  then have "get_original_of x = addr + of_nat i \<longleftrightarrow> unat (get_original_of x - addr) = i"
    by (rule eq_add_of_nat_iff)
  moreover have "x = get_shadow_of (addr + of_nat i) \<longleftrightarrow> get_original_of x = addr + of_nat i"
    by (metis get_shadow_original get_original_shadow)
  ultimately show ?thesis by blast
qed

lemma validated_shadow:
  assumes "no_shadow_carry addr n" "k \<le> i" "i < n" "n \<le> 2 ^ 44"
  shows "validated addr data shadow sid k m (get_shadow_of (addr + of_nat i)) =
         m (get_shadow_of (addr + of_nat i))"
proof -
  have "\<not> unat (get_shadow_of (addr + of_nat i) - addr) < k"
    using shadow_apart[OF assms(1,3,4)] assms(2,3) by linarith
  moreover have "unat (get_original_of (get_shadow_of (addr + of_nat i)) - addr) = i"
    using original_offset[OF assms(1,3,4)] by blast
  ultimately show ?thesis using assms(2) by (simp add: validated_def Let_def)
qed

lemma check_byte_validated:
  assumes nc: "no_shadow_carry addr n" and k: "k < n" and n: "n \<le> 2 ^ 44"
  shows "check_byte (addr + of_nat k) (data k) (shadow k) sid ref (validated addr data shadow sid k m) =
         (if byte_ok addr shadow ref m k then (True, validated addr data shadow sid (Suc k) m)
          else (False, validated addr data shadow sid k m))"
proof -
  have a: "x = addr + of_nat k \<longleftrightarrow> unat (x - addr) = k" for x
    by (rule eq_add_of_nat_iff) (rule below_2_44[OF k n])
  note s = original_offset[OF nc k n]
  have upd: "(validated addr data shadow sid k m)(addr + of_nat k := data k,
                get_shadow_of (addr + of_nat k) := sid) = validated addr data shadow sid (Suc k) m"
    if "bit (shadow k) 1"
  proof
    fix x
    show "((validated addr data shadow sid k m)(addr + of_nat k := data k,
                get_shadow_of (addr + of_nat k) := sid)) x = validated addr data shadow sid (Suc k) m x"
    proof (cases "unat (get_original_of x - addr) = k")
      case True
      then have x: "x = get_shadow_of (addr + of_nat k)" by (simp only: s)
      have "\<not> unat (x - addr) < Suc k" using shadow_apart[OF nc k n] k unfolding x by linarith
      with True that show ?thesis by (simp add: validated_def Let_def s)
    next
      case False
      then show ?thesis using that by (auto simp: validated_def Let_def a s less_Suc_eq)
    qed
  qed
  have keep: "validated addr data shadow sid k m = validated addr data shadow sid (Suc k) m"
    if "\<not> bit (shadow k) 1"
    using that by (auto simp: validated_def Let_def fun_eq_iff less_Suc_eq)
  show ?thesis
    unfolding check_byte_def flag_bits validated_shadow[OF nc order.refl k n] byte_ok_def
    using upd keep by (auto simp: not_less)
qed

lemma check_scalar_validated:
  assumes "no_shadow_carry addr n" "n \<le> 2 ^ 44"
  shows "let r = check_loop (\<lambda>i. check_byte (addr + of_nat i) (data i) (shadow i) sid ref) [0..<n] m in
           (fst r \<longleftrightarrow> (\<forall>i < n. byte_ok addr shadow ref m i)) \<and>
           ((\<forall>i < n. byte_ok addr shadow ref m i) \<longrightarrow> r = (True, validated addr data shadow sid n m))"
  using check_loop_upt[where I = "\<lambda>k. validated addr data shadow sid k m" and n = n
      and P = "byte_ok addr shadow ref m"
      and body = "\<lambda>i. check_byte (addr + of_nat i) (data i) (shadow i) sid ref"]
  by (simp add: check_byte_validated[OF assms(1) _ assms(2)] Let_def)

text \<open>The sign bit of the difference decides the comparison as long as both sides are small.\<close>

lemma sub_msb:
  assumes "unat (l :: byte) < 128" "unat r \<le> 128"
  shows "bit (l - r) 7 \<longleftrightarrow> l < r"
proof -
  have "unat (l - r) = (if r \<le> l then unat l - unat r else 256 + unat l - unat r)"
    using unat_sub_if_size[of l r] by (auto simp: word_size word_le_nat_alt)
  moreover have "bit (l - r) 7 \<longleftrightarrow> 128 \<le> unat (l - r)"
  proof -
    have "unat (l - r) < 256" using unsigned_less[of "l - r", where 'a = nat] by simp
    moreover have "bit (l - r) 7 \<longleftrightarrow> odd (unat (l - r) div 128)"
      using bit_unsigned_iff[of "l - r" 7, where 'a = nat] bit_iff_odd[of "unat (l - r)" 7] by simp
    moreover have "unat (l - r) div 128 = (if unat (l - r) < 128 then 0 else 1)"
      using \<open>unat (l - r) < 256\<close> by (auto intro: div_nat_eqI)
    ultimately show ?thesis by (simp add: not_less)
  qed
  ultimately show ?thesis using assms by (auto simp: word_le_nat_alt word_less_nat_alt)
qed

lemma bit_0x80: "bit (0x80 :: byte) n \<longleftrightarrow> n = 7"
  using bit_exp_iff[of 7 n, where 'a = "8 word"] by auto

lemma and_0x80: "(b :: byte) AND 0x80 = 0 \<longleftrightarrow> \<not> bit b 7"
  using and_exp_nonzero[of b 7] by simp blast

lemma bit_NOT_and: "bit (lane (mm_andnot a b) j) 7 \<longleftrightarrow> \<not> bit (lane a j) 7 \<and> bit (lane b j) 7" if "j < 16"
proof -
  have "8 * j + 7 < 128" using that by simp
  then show ?thesis unfolding mm_andnot_def bit_lane bit_and_iff bit_not_iff
    by (auto simp: possible_bit_word)
qed

text \<open>The vector test of one block is the conjunction of the 16 byte tests.\<close>

lemma block_test:
  assumes nc: "no_shadow_carry addr n" and i: "i + 16 \<le> n" and n: "n \<le> 2 ^ 44"
    and small: "\<forall>j < 16. unat (m (get_shadow_of (addr + of_nat (i + j)))) < 128" and ref: "unat ref \<le> 128"
  shows "mm_test_all_zeros
           (mm_andnot (mm_sub_epi8
                (mm_from64 (load_le 8 m (get_shadow_of (addr + of_nat (i + 8))))
                   (load_le 8 m (get_shadow_of (addr + of_nat i)))) (mm_set1_epi8 ref))
              (mm_from64 (push_bit 7 (arr64 shadow (i + 8))) (push_bit 7 (arr64 shadow i))))
           (mm_set1_epi8 0x80) \<longleftrightarrow>
         (\<forall>j < 16. byte_ok addr shadow ref m (i + j))"
proof -
  have i64: "i + 16 \<le> 2 ^ 64"
  proof -
    have "(2 :: nat) ^ 44 \<le> 2 ^ 64" by simp
    with i n show ?thesis by linarith
  qed
  have ls: "lane (mm_from64 (load_le 8 m (get_shadow_of (addr + of_nat (i + 8))))
                   (load_le 8 m (get_shadow_of (addr + of_nat i)))) j =
            m (get_shadow_of (addr + of_nat (i + j)))" if j: "j < 16" for j
  proof (cases "j < 8")
    case True
    have "get_shadow_of (addr + of_nat (i + j)) = get_shadow_of (addr + of_nat i) + of_nat j"
      using shadow_add[OF nc, of "i + j"] shadow_add[OF nc, of i] i j by simp
    then show ?thesis using True j by (simp only: lane_mm_from64 lane_load_le if_True) (simp add: lane_load_le)
  next
    case False
    have "get_shadow_of (addr + of_nat (i + j)) = get_shadow_of (addr + of_nat (i + 8)) + of_nat (j - 8)"
      using shadow_add[OF nc, of "i + j"] shadow_add[OF nc, of "i + 8"] i j False
      by (simp add: of_nat_diff)
    then show ?thesis using False j by (simp only: lane_mm_from64 if_False) (simp add: lane_load_le)
  qed
  let ?v = "mm_sub_epi8 (mm_from64 (load_le 8 m (get_shadow_of (addr + of_nat (i + 8))))
                   (load_le 8 m (get_shadow_of (addr + of_nat i)))) (mm_set1_epi8 ref)"
  let ?w = "mm_from64 (push_bit 7 (arr64 shadow (i + 8))) (push_bit 7 (arr64 shadow i))"
  have "bit (lane (mm_andnot ?v ?w) j) 7 \<longleftrightarrow> \<not> byte_ok addr shadow ref m (i + j)" if j: "j < 16" for j
  proof -
    have "lane ?v j = m (get_shadow_of (addr + of_nat (i + j))) - ref"
      using ls[OF j] j by (simp only: mm_sub_epi8_def mm_set1_epi8_def lane_of_lanes)
    then show ?thesis
      unfolding bit_NOT_and[OF j] bit7_block[OF j i64, of 7 shadow, simplified] byte_ok_def
      using sub_msb[OF small[rule_format, OF j] ref] by auto
  qed
  then show ?thesis
    by (simp add: mm_test_all_zeros_def zero_lanes_iff lane_and mm_set1_epi8_def and_0x80)
qed

lemma shadow_offset:
  assumes nc: "no_shadow_carry addr n" and i: "i < n" and n: "n \<le> 2 ^ 44"
  shows "unat (x - get_shadow_of addr) = i \<longleftrightarrow> unat (get_original_of x - addr) = i"
  using original_offset[OF assms, of x] eq_add_of_nat_iff[OF below_2_44[OF i n], of x "get_shadow_of addr"]
    shadow_add[OF nc i] by simp

lemma validated_block:
  assumes nc: "no_shadow_carry addr n" and i: "i + 16 \<le> n" and n: "n \<le> 2 ^ 44"
  shows "mm_maskmoveu (mm_set1_epi8 sid) (mm_from64 (push_bit 6 (arr64 shadow (i + 8))) (push_bit 6 (arr64 shadow i)))
           (get_shadow_of (addr + of_nat i))
           (mm_maskmoveu (mm_from64 (arr64 data (i + 8)) (arr64 data i))
              (mm_from64 (push_bit 6 (arr64 shadow (i + 8))) (push_bit 6 (arr64 shadow i)))
              (addr + of_nat i) (validated addr data shadow sid i m)) =
         validated addr data shadow sid (i + 16) m"
proof
  fix x
  have i64: "i + 16 \<le> 2 ^ 64"
  proof -
    have "(2 :: nat) ^ 44 \<le> 2 ^ 64" by simp
    with i n show ?thesis by linarith
  qed
  have d: "\<forall>j < 16. lane (mm_from64 (arr64 data (i + 8)) (arr64 data i)) j = data (i + j)"
    by (simp add: lane_block[OF _ i64])
  have sid: "\<forall>j < 16. lane (mm_set1_epi8 sid) j = sid" by (simp add: mm_set1_epi8_def)
  have sh: "get_shadow_of (addr + of_nat i) = get_shadow_of addr + of_nat i"
    using shadow_add[OF nc, of i] i by simp
  let ?u = "unat (x - addr)" and ?v = "unat (get_original_of x - addr)" and ?w = "unat (x - get_shadow_of addr)"
  have w: "i \<le> ?w \<and> ?w < i + 16 \<and> bit (shadow ?w) 1 \<longleftrightarrow> i \<le> ?v \<and> ?v < i + 16 \<and> bit (shadow ?v) 1"
    using shadow_offset[OF nc _ n, of ?v x] shadow_offset[OF nc _ n, of ?w x] i by auto
  have apart: "\<not> ?u < i + 16" if "?v < n"
    using shadow_apart[OF nc that n] original_offset[OF nc that n, of x] i by auto
  show "mm_maskmoveu (mm_set1_epi8 sid) (mm_from64 (push_bit 6 (arr64 shadow (i + 8))) (push_bit 6 (arr64 shadow i)))
           (get_shadow_of (addr + of_nat i))
           (mm_maskmoveu (mm_from64 (arr64 data (i + 8)) (arr64 data i))
              (mm_from64 (push_bit 6 (arr64 shadow (i + 8))) (push_bit 6 (arr64 shadow i)))
              (addr + of_nat i) (validated addr data shadow sid i m)) x =
         validated addr data shadow sid (i + 16) m x"
    unfolding sh maskmove_block[where data = "\<lambda>_. sid", OF i64 sid] maskmove_block[where data = data, OF i64 d] w
    using i apart by (auto simp: validated_def Let_def)
qed

lemma check_block_validated:
  assumes nc: "no_shadow_carry addr n" and i: "i + 16 \<le> n" and n: "n \<le> 2 ^ 44"
    and small: "\<forall>j < n. unat (m (get_shadow_of (addr + of_nat j))) < 128" and ref: "unat ref \<le> 128"
  shows "check_block addr data shadow sid ref i (validated addr data shadow sid i m) =
         (if \<forall>j < 16. byte_ok addr shadow ref m (i + j)
          then (True, validated addr data shadow sid (i + 16) m)
          else (False, validated addr data shadow sid i m))"
proof -
  have keep: "validated addr data shadow sid i m (get_shadow_of (addr + of_nat (i + j))) =
              m (get_shadow_of (addr + of_nat (i + j)))" if "j < 16" for j
    by (rule validated_shadow[OF nc _ _ n]) (use that i in linarith)+
  have bo: "byte_ok addr shadow ref (validated addr data shadow sid i m) (i + j) =
            byte_ok addr shadow ref m (i + j)" if "j < 16" for j
    unfolding byte_ok_def keep[OF that] ..
  have "\<forall>j < 16. unat (validated addr data shadow sid i m (get_shadow_of (addr + of_nat (i + j)))) < 128"
  proof (intro allI impI)
    fix j :: nat assume j: "j < 16"
    show "unat (validated addr data shadow sid i m (get_shadow_of (addr + of_nat (i + j)))) < 128"
      unfolding keep[OF j] by (rule small[rule_format]) (use j i in linarith)
  qed
  note test = block_test[where m = "validated addr data shadow sid i m" and shadow = shadow, OF nc i n this ref]
  show ?thesis
  proof (cases "arr64 shadow i = 0 \<and> arr64 shadow (i + 8) = 0")
    case True
    have i64: "i + 16 \<le> 2 ^ 64"
    proof -
      have "(2 :: nat) ^ 44 \<le> 2 ^ 64" by simp
      with i n show ?thesis by linarith
    qed
    have z: "shadow (i + j) = 0" if "j < 16" for j
      using lane_block[OF that i64, of shadow] True that by (simp add: lane_mm_from64 split: if_splits)
    have z': "shadow k = 0" if "i \<le> k" "k < i + 16" for k
      using z[of "k - i"] that by simp
    have "validated addr data shadow sid i m = validated addr data shadow sid (i + 16) m"
      using z' by (auto simp: validated_def Let_def fun_eq_iff not_less)
    then show ?thesis using True z by (simp add: check_block_def Let_def byte_ok_def)
  next
    case False
    then show ?thesis
      unfolding check_block_def Let_def test validated_block[OF nc i n] using bo by auto
  qed
qed

lemma check_blocks_validated:
  assumes nc: "no_shadow_carry addr (16 * n)" and n: "16 * n \<le> 2 ^ 44"
    and small: "\<forall>j < 16 * n. unat (m (get_shadow_of (addr + of_nat j))) < 128" and ref: "unat ref \<le> 128"
  shows "let r = check_loop (check_block addr data shadow sid ref) (map (\<lambda>b. 16 * b) [0..<n]) m in
           (fst r \<longleftrightarrow> (\<forall>i < 16 * n. byte_ok addr shadow ref m i)) \<and>
           ((\<forall>i < 16 * n. byte_ok addr shadow ref m i) \<longrightarrow>
              r = (True, validated addr data shadow sid (16 * n) m))"
proof -
  have all: "(\<forall>b < n. \<forall>j < 16. byte_ok addr shadow ref m (16 * b + j)) \<longleftrightarrow>
             (\<forall>i < 16 * n. byte_ok addr shadow ref m i)"
  proof (intro iffI allI impI)
    fix i assume a: "\<forall>b < n. \<forall>j < 16. byte_ok addr shadow ref m (16 * b + j)" and "i < 16 * n"
    then have "i div 16 < n" by (simp add: less_mult_imp_div_less mult.commute)
    moreover have "i mod 16 < 16" by simp
    ultimately have "byte_ok addr shadow ref m (16 * (i div 16) + i mod 16)" using a by blast
    then show "byte_ok addr shadow ref m i" by simp
  qed auto
  have body: "check_block addr data shadow sid ref (16 * b) (validated addr data shadow sid (16 * b) m) =
         (if \<forall>j < 16. byte_ok addr shadow ref m (16 * b + j)
          then (True, validated addr data shadow sid (16 * Suc b) m)
          else (False, validated addr data shadow sid (16 * b) m))" if "b < n" for b
    using check_block_validated[OF nc _ n small ref, of "16 * b" data shadow sid] that
    by (simp add: ac_simps)
  have "(fst (check_loop (\<lambda>b. check_block addr data shadow sid ref (16 * b)) [0..<n]
                (validated addr data shadow sid (16 * 0) m)) \<longleftrightarrow>
           (\<forall>b < n. \<forall>j < 16. byte_ok addr shadow ref m (16 * b + j))) \<and>
        ((\<forall>b < n. \<forall>j < 16. byte_ok addr shadow ref m (16 * b + j)) \<longrightarrow>
           check_loop (\<lambda>b. check_block addr data shadow sid ref (16 * b)) [0..<n]
                (validated addr data shadow sid (16 * 0) m) =
             (True, validated addr data shadow sid (16 * n) m))"
  proof (rule check_loop_upt[where I = "\<lambda>b. validated addr data shadow sid (16 * b) m"])
    fix b assume b: "b < n" and ok: "\<forall>j < 16. byte_ok addr shadow ref m (16 * b + j)"
    show "check_block addr data shadow sid ref (16 * b) (validated addr data shadow sid (16 * b) m) =
          (True, validated addr data shadow sid (16 * Suc b) m)"
      unfolding body[OF b] by (rule if_P[OF ok])
  next
    fix b assume b: "b < n" and bad: "\<not> (\<forall>j < 16. byte_ok addr shadow ref m (16 * b + j))"
    show "\<not> fst (check_block addr data shadow sid ref (16 * b) (validated addr data shadow sid (16 * b) m))"
      unfolding body[OF b] if_not_P[OF bad] by simp
  qed
  then show ?thesis unfolding check_loop_map all by (simp add: Let_def)
qed

text \<open>Shifting the 8 bytes of a word out one at a time visits its lanes.\<close>

lemma lane_and_ff: "ucast (w AND 0xff :: 64 word) = (ucast w :: byte)"
  by (rule bit_word_eqI) (use bit_take_bit_iff[of 8 w] in \<open>auto simp: bit_simps take_bit_eq_mask mask_eq_exp_minus_1\<close>)

lemma check_packet_loop_bytes:
  "check_packet_loop n i addr data shadow sid ref m =
     check_loop (\<lambda>j. check_byte (addr + of_nat j) (lane data (j - i)) (lane shadow (j - i)) sid ref)
       [i..<i + n] m"
proof (induction n arbitrary: i data shadow m)
  case (Suc n)
  have l: "[i..<i + Suc n] = i # [Suc i..<Suc i + n]" by (simp add: upt_rec)
  have c: "check_loop (\<lambda>j. check_byte (addr + of_nat j) (lane (drop_bit 8 data) (j - Suc i))
             (lane (drop_bit 8 shadow) (j - Suc i)) sid ref) [Suc i..<Suc i + n] m' =
           check_loop (\<lambda>j. check_byte (addr + of_nat j) (lane data (j - i)) (lane shadow (j - i)) sid ref)
             [Suc i..<Suc i + n] m'" for m'
    by (rule check_loop_cong) (auto simp: lane_drop Suc_diff_Suc)
  have b: "check_byte (addr + of_nat i) (lane data (i - i)) (lane shadow (i - i)) sid ref m =
     (if shadow AND 1 \<noteq> 0 \<and> ref \<le> m (get_shadow_of (addr + of_nat i)) then (False, m)
      else (True, if shadow AND 2 \<noteq> 0
              then (m(addr + of_nat i := ucast (data AND 0xff)))(get_shadow_of (addr + of_nat i) := sid)
              else m))"
    by (simp add: check_byte_def lane_and_ff flag_ucast)
  show ?case
    unfolding l check_packet_loop.simps check_loop.simps Suc.IH c b
    by (simp only: split: if_splits) simp
qed simp

lemma check_packet_validated:
  assumes "no_shadow_carry addr 8"
  shows "let r = check_packet_loop 8 0 addr data shadow sid ref m in
           (fst r \<longleftrightarrow> (\<forall>i < 8. byte_ok addr (lane shadow) ref m i)) \<and>
           ((\<forall>i < 8. byte_ok addr (lane shadow) ref m i) \<longrightarrow>
              r = (True, validated addr (lane data) (lane shadow) sid 8 m))"
  using check_scalar_validated[OF assms, of "lane data" "lane shadow" sid ref m]
  by (simp add: check_packet_loop_bytes)

lemma lane_signed_drop:
  assumes "i < 7"
  shows "lane (signed_drop_bit 8 (w :: 64 word)) i = lane w (Suc i)"
proof (rule bit_word_eqI)
  fix n assume "n < LENGTH(8)"
  with assms have "8 * i + n + 8 < 64" by simp
  then show "bit (lane (signed_drop_bit 8 w) i) n = bit (lane w (Suc i)) n"
    by (auto simp: bit_lane bit_signed_drop_bit_iff ac_simps)
qed

lemma update_normal_loop_bytes:
  "i + n \<le> 8 \<Longrightarrow>
   update_normal_loop n i ptr shadow val m =
     fold (\<lambda>j m. if bit (lane shadow (j - i)) 1 then m(ptr + of_nat j := lane val (j - i)) else m)
       [i..<i + n] m"
proof (induction n arbitrary: i shadow val m)
  case (Suc n)
  have l: "[i..<i + Suc n] = i # [Suc i..<Suc i + n]" by (simp add: upt_rec)
  have c: "fold (\<lambda>j m. if bit (lane (signed_drop_bit 8 shadow) (j - Suc i)) 1
               then m(ptr + of_nat j := lane (signed_drop_bit 8 val) (j - Suc i)) else m) [Suc i..<Suc i + n] m' =
           fold (\<lambda>j m. if bit (lane shadow (j - i)) 1 then m(ptr + of_nat j := lane val (j - i)) else m)
             [Suc i..<Suc i + n] m'" for m'
    using Suc.prems by (intro fold_cong) (auto simp: lane_signed_drop Suc_diff_Suc)
  have "Suc i + n \<le> 8" using Suc.prems by simp
  note IH = Suc.IH[OF this]
  have f: "shadow AND 2 \<noteq> 0 \<longleftrightarrow> bit (lane shadow (i - i)) 1"
    using flag_bits(2)[of "ucast shadow :: byte"] flag_ucast(2)[of shadow] by simp
  show ?case
    unfolding l update_normal_loop.simps IH c fold_simps f by (simp only: lane_and_ff lane_0 diff_self_eq_0)
qed simp

lemma update_normal_merged: "update_normal ptr val shadow m = merged ptr (lane val) (lane shadow) 8 m"
  using update_normal_loop_bytes[of 0 8 ptr shadow val m] update_bytewise[of 8 "lane shadow" ptr "lane val" m]
  by (simp add: update_normal_def cong: if_cong)

subsection \<open>Properties\<close>

text \<open>The metadata a byte of stage \<open>st\<close> may still read over: \<open>0\<close> (nobody wrote it) or the number plus one
  of an allowed last writer.\<close>

definition allowed_writer :: "'a strategy_scheme \<Rightarrow> nat \<Rightarrow> byte \<Rightarrow> bool" where
  "allowed_writer s st b \<longleftrightarrow> unat b \<le> (if GET_REPLICATION_FACTOR s st = 1 then st + 1 else st)"

lemma unat_stage_id: "st < 127 \<Longrightarrow> unat (new_stage_id st) = st + 1"
  by (simp add: new_stage_id_def unat_of_nat flip: of_nat_Suc)

lemma unat_ref_of:
  "st < 127 \<Longrightarrow> unat (ref_of s st) = (if GET_REPLICATION_FACTOR s st = 1 then st + 2 else st + 1)"
  using unat_word_ariths(1)[of "new_stage_id st" 1] by (simp add: ref_of_def unat_stage_id)

lemma ref_of_allowed: "st < 127 \<Longrightarrow> b < ref_of s st \<longleftrightarrow> allowed_writer s st b"
  by (auto simp: word_less_nat_alt unat_ref_of allowed_writer_def)

text \<open>C28. The vectorised \<open>update_page\<close> is the byte-wise loop the debug build compiles: it stores exactly
  the bytes of the page whose metadata has the written bit, and changes no other address.\<close>

theorem update_page_equiv:
  "update_page addr data shadow m = update_page_debug addr data shadow m \<and>
   update_page addr data shadow m x =
     (if unat (x - addr) < PAGE_SIZE \<and> bit (shadow (unat (x - addr))) 1
      then data (unat (x - addr)) else m x)"
  unfolding update_page_merged update_page_debug_merged by (simp add: merged_def Let_def)

text \<open>C22. The vectorised validation of a page. With stage numbers and recorded metadata below 128 it
  returns the verdict of the byte-wise loop kept in the source, namely that every byte that was loaded
  before it was stored has a last writer in an earlier stage (or the same stage, if that stage is
  sequential); and a page that passes leaves the same memory: written bytes stored, their metadata
  set to the stage number plus one, everything else unchanged.\<close>

theorem check_page_equiv:
  assumes "unat addr mod PAGE_SIZE = 0" "st < 127"
    and "\<forall>i < PAGE_SIZE. unat (m (get_shadow_of (addr + of_nat i))) < 128"
  shows "(fst (check_page s addr data shadow st m) \<longleftrightarrow>
            (\<forall>i < PAGE_SIZE. bit (shadow i) 0 \<longrightarrow>
               allowed_writer s st (m (get_shadow_of (addr + of_nat i))))) \<and>
         fst (check_page s addr data shadow st m) = fst (check_page_scalar s addr data shadow st m) \<and>
         (fst (check_page s addr data shadow st m) \<longrightarrow>
            check_page s addr data shadow st m = check_page_scalar s addr data shadow st m \<and>
            snd (check_page s addr data shadow st m) =
              validated addr data shadow (new_stage_id st) PAGE_SIZE m)"
proof -
  note nc = page_no_carry[OF assms(1)]
  have n: "PAGE_SIZE \<le> 2 ^ 44" and b: "16 * (PAGE_SIZE div 16) = PAGE_SIZE"
    by (simp_all add: PAGE_SIZE_def)
  have r: "unat (ref_of s st) \<le> 128" using assms(2) by (simp add: unat_ref_of)
  have ok: "byte_ok addr shadow (ref_of s st) m i \<longleftrightarrow>
      (bit (shadow i) 0 \<longrightarrow> allowed_writer s st (m (get_shadow_of (addr + of_nat i))))" for i
    unfolding byte_ok_def ref_of_allowed[OF assms(2)] ..
  from check_blocks_validated[where n = "PAGE_SIZE div 16", unfolded b, OF nc n assms(3) r,
      of data shadow "new_stage_id st", folded page_blocks_def, folded check_page_def]
    check_scalar_validated[OF nc n, of data shadow "new_stage_id st" "ref_of s st" m, folded check_page_scalar_def]
  show ?thesis unfolding ok Let_def by (metis snd_conv)
qed

lemma meta_zero_small: "\<forall>i < PAGE_SIZE. unat ((\<lambda>_. 0 :: byte) (get_shadow_of (addr + of_nat i))) < 128"
  by simp

theorem check_page_equiv_witness:
  "fst (check_page \<lparr>num_stages = 1, stage2rep = [1], wid2stage = [0], stage2firstwid = [0]\<rparr>
          0x1000 (\<lambda>_. 7) (\<lambda>_. 3) 0 (\<lambda>_. 0))"
  using check_page_equiv[of "0x1000" 0 "\<lambda>_. 0", OF _ _ meta_zero_small,
      of "\<lparr>num_stages = 1, stage2rep = [1], wid2stage = [0], stage2firstwid = [0]\<rparr>" "\<lambda>_. 7" "\<lambda>_. 3"]
  by (simp add: PAGE_SIZE_def allowed_writer_def)

text \<open>C33. The validation of a packet of 8 bytes: it fails its assertion on any other size; it passes
  exactly when every byte loaded before it was stored has an allowed last writer, and then stores the
  written bytes of the packet and records the stage as their last writer.\<close>

theorem check_packet_spec:
  assumes "no_shadow_carry addr 8" "st < 127"
  shows "(check_packet s addr data shadow sz st m = Inl AssertFailed \<longleftrightarrow> sz \<noteq> 8) \<and>
         (\<exists>ok m'. check_packet s addr data shadow 8 st m = Inr (ok, m') \<and>
            (ok \<longleftrightarrow> (\<forall>i < 8. bit (lane shadow i) 0 \<longrightarrow>
               allowed_writer s st (m (get_shadow_of (addr + of_nat i))))) \<and>
            (ok \<longrightarrow> m' = validated addr (lane data) (lane shadow) (new_stage_id st) 8 m))"
proof -
  have ok: "byte_ok addr (lane shadow) (ref_of s st) m i \<longleftrightarrow>
      (bit (lane shadow i) 0 \<longrightarrow> allowed_writer s st (m (get_shadow_of (addr + of_nat i))))" for i
    unfolding byte_ok_def ref_of_allowed[OF assms(2)] ..
  from check_packet_validated[OF assms(1), of data shadow "new_stage_id st" "ref_of s st" m]
  show ?thesis unfolding check_packet_def ok Let_def
    by (cases "check_packet_loop 8 0 addr data shadow (new_stage_id st) (ref_of s st) m") auto
qed

theorem check_packet_spec_witness:
  "\<exists>ok m'. check_packet \<lparr>num_stages = 1, stage2rep = [2], wid2stage = [0, 0], stage2firstwid = [0]\<rparr>
          0x1000 7 1 8 0 (\<lambda>_. 1) = Inr (ok, m') \<and> \<not> ok"
proof -
  have "no_shadow_carry 0x1000 8" by (simp add: no_shadow_carry_def)
  from check_packet_spec[OF this, of 0 "\<lparr>num_stages = 1, stage2rep = [2], wid2stage = [0, 0], stage2firstwid = [0]\<rparr>" 7 1 8 "\<lambda>_. 1"]
  obtain ok m' where r: "check_packet \<lparr>num_stages = 1, stage2rep = [2], wid2stage = [0, 0], stage2firstwid = [0]\<rparr>
          0x1000 7 1 8 0 (\<lambda>_. 1) = Inr (ok, m')"
      "ok \<longleftrightarrow> (\<forall>i < 8. bit (lane (1 :: 64 word) i) 0 \<longrightarrow>
         allowed_writer \<lparr>num_stages = 1, stage2rep = [2], wid2stage = [0, 0], stage2firstwid = [0]\<rparr> 0 1)"
    by auto
  have "bit (lane (1 :: 64 word) 0) 0" "(0 :: nat) < 8" by simp_all
  moreover have "\<not> allowed_writer \<lparr>num_stages = 1, stage2rep = [2], wid2stage = [0, 0], stage2firstwid = [0]\<rparr> 0 1"
    by (simp add: allowed_writer_def GET_REPLICATION_FACTOR_def)
  ultimately have "\<not> ok" using r(2) by blast
  with r(1) show ?thesis by blast
qed

lemma check_ro_loop_spec:
  "check_ro_loop ref addr m is =
     (if \<exists>i \<in> set is. ref \<le> m (get_shadow_of (addr + of_nat i)) then Some False else None)"
  by (induction "is") auto

text \<open>The check of a read-only page never answers \<open>true\<close>: it returns \<open>false\<close> exactly when some byte of
  the page has a last writer that is not allowed, and otherwise reaches the end of the function
  without a return value.\<close>

theorem check_ro_page_spec:
  assumes "st < 127"
  shows "check_ro_page s addr st m =
           (if \<forall>i < PAGE_SIZE. allowed_writer s st (m (get_shadow_of (addr + of_nat i)))
            then None else Some False)"
proof -
  have "ref_of s st \<le> b \<longleftrightarrow> \<not> allowed_writer s st b" for b
    using ref_of_allowed[OF assms, of b s] by auto
  then show ?thesis by (auto simp: check_ro_page_def check_ro_loop_spec)
qed

theorem check_ro_page_spec_witness:
  "check_ro_page \<lparr>num_stages = 1, stage2rep = [2], wid2stage = [0, 0], stage2firstwid = [0]\<rparr> 0x1000 0 (\<lambda>_. 0) = None"
  using check_ro_page_spec[of 0 "\<lparr>num_stages = 1, stage2rep = [2], wid2stage = [0, 0], stage2firstwid = [0]\<rparr>" "0x1000" "\<lambda>_. 0"]
  by (simp add: allowed_writer_def)

end
