(* ===== verification/Prediction.thy ===== *)
theory Prediction
  imports Protection Pages
begin

unbundle bit_operations_syntax

section \<open>Value prediction\<close>

text \<open>
  Models \<open>smtx/prediction.cpp\<close>: loads whose value is loop invariant or a linear function of the iteration
  are predicted. A load registers its address in iteration 0; from iteration 1 on the first stage writes
  the predicted values at the begin of every iteration (\<open>update_loop_invariants\<close>,
  \<open>update_linear_predicted_values\<close>), and the try-commit units compare the values they have committed
  with the predictions (\<open>verify_loop_invariants\<close>, \<open>verify_linear_predicted_values\<close>).

  The two-dimensional tables \<open>[load][context]\<close> are functions with the bounds \<open>num_loop_invariant_loads\<close>,
  \<open>num_linear_predictable_loads\<close> and \<open>num_contexts\<close>; an access outside them is \<open>OutOfRange\<close>. The
  arithmetic of doubles is a parameter: \<open>fp a n b\<close> is the bit pattern of \<open>a * n + b\<close> for the doubles
  with bit patterns \<open>a\<close> and \<open>b\<close>, \<open>fl d\<close> the bit pattern of the float a double is converted to. \<open>mp\<close> is the
  outcome of \<open>mprotect\<close>, as in \<open>Protection\<close>.
\<close>

record loop_invariant =
  li_ptr :: addr
  li_value :: "64 word"
  li_size :: byte

record linear_predictor =
  lp_ptr :: addr
  lp_size :: byte

record pred_state = prot_state +
  good_to_go :: byte
  loop_invariant_buffer :: "nat \<Rightarrow> nat \<Rightarrow> loop_invariant"
  linear_predictors :: "nat \<Rightarrow> nat \<Rightarrow> linear_predictor"
  num_loop_invariant_loads :: nat
  num_linear_predictable_loads :: nat
  num_contexts :: nat
  coeff_a :: "nat \<Rightarrow> nat \<Rightarrow> 64 word"
  coeff_b :: "nat \<Rightarrow> nat \<Rightarrow> 64 word"
  is_double :: "nat \<Rightarrow> nat \<Rightarrow> 32 word"

text \<open>The nested loops visit the entries row by row.\<close>

definition li_entries :: "'a pred_state_scheme \<Rightarrow> (nat \<times> nat) list" where
  "li_entries s = List.product [0..<num_loop_invariant_loads s] [0..<num_contexts s]"

definition lp_entries :: "'a pred_state_scheme \<Rightarrow> (nat \<times> nat) list" where
  "lp_entries s = List.product [0..<num_linear_predictable_loads s] [0..<num_contexts s]"

abbreviation li_at :: "'a pred_state_scheme \<Rightarrow> nat \<times> nat \<Rightarrow> loop_invariant" where
  "li_at s e \<equiv> loop_invariant_buffer s (fst e) (snd e)"

abbreviation lp_at :: "'a pred_state_scheme \<Rightarrow> nat \<times> nat \<Rightarrow> linear_predictor" where
  "lp_at s e \<equiv> linear_predictors s (fst e) (snd e)"

definition set_li :: "nat \<Rightarrow> nat \<Rightarrow> loop_invariant \<Rightarrow> 'a pred_state_scheme \<Rightarrow> 'a pred_state_scheme" where
  "set_li i j l s = s\<lparr>loop_invariant_buffer := (loop_invariant_buffer s)(i := (loop_invariant_buffer s i)(j := l))\<rparr>"

definition set_lp :: "nat \<Rightarrow> nat \<Rightarrow> linear_predictor \<Rightarrow> 'a pred_state_scheme \<Rightarrow> 'a pred_state_scheme" where
  "set_lp i j l s = s\<lparr>linear_predictors := (linear_predictors s)(i := (linear_predictors s i)(j := l))\<rparr>"

subsection \<open>Setting up\<close>

definition init_loop_invariant_buffer :: "'a pred_state_scheme \<Rightarrow> 'a pred_state_scheme" where
  "init_loop_invariant_buffer s = s\<lparr>loop_invariant_buffer := (\<lambda>_ _. \<lparr>li_ptr = 0, li_value = 0, li_size = 0\<rparr>)\<rparr>"

definition init_linear_predictors :: "'a pred_state_scheme \<Rightarrow> 'a pred_state_scheme" where
  "init_linear_predictors s =
     s\<lparr>linear_predictors := (\<lambda>_ _. \<lparr>lp_ptr = 0, lp_size = 0\<rparr>), coeff_a := (\<lambda>_ _. 0), coeff_b := (\<lambda>_ _. 0),
       is_double := (\<lambda>_ _. 0)\<rparr>"

text \<open>The variadic arguments \<open>op\<close>: all coefficients \<open>a\<close>, then all \<open>b\<close>, then the flags; too few are an error.\<close>

definition init_predictors :: "nat \<Rightarrow> nat \<Rightarrow> nat \<Rightarrow> 64 word list \<Rightarrow> 'a pred_state_scheme \<Rightarrow> 'a pred_state_scheme res" where
  "init_predictors loop_invariant_loads linear_predictable_loads contexts op s =
     (let s = s\<lparr>num_loop_invariant_loads := loop_invariant_loads,
                num_linear_predictable_loads := linear_predictable_loads, num_contexts := contexts\<rparr>;
          s = init_linear_predictors (init_loop_invariant_buffer s);
          n = linear_predictable_loads * contexts;
          coeff = (\<lambda>k i j. if i < linear_predictable_loads \<and> j < contexts then op ! (k * n + i * contexts + j) else 0)
      in if length op < 3 * n then Inl OutOfRange
         else Inr (s\<lparr>coeff_a := coeff 0, coeff_b := coeff 1, is_double := (\<lambda>i j. ucast (coeff 2 i j)), good_to_go := 0\<rparr>))"

definition reset_predictors :: "'a pred_state_scheme \<Rightarrow> 'a pred_state_scheme" where
  "reset_predictors s =
     s\<lparr>loop_invariant_buffer := (\<lambda>i j. if i < num_loop_invariant_loads s \<and> j < num_contexts s
         then (loop_invariant_buffer s i j)\<lparr>li_ptr := 0\<rparr> else loop_invariant_buffer s i j),
       linear_predictors := (\<lambda>i j. if i < num_linear_predictable_loads s \<and> j < num_contexts s
         then (linear_predictors s i j)\<lparr>lp_ptr := 0\<rparr> else linear_predictors s i j)\<rparr>"

subsection \<open>Loop invariants\<close>

definition check_loop_invariant :: "nat \<Rightarrow> nat \<Rightarrow> addr \<Rightarrow> 'a pred_state_scheme \<Rightarrow>
    ('a pred_state_scheme, 'a pred_state_scheme) outcome res" where
  "check_loop_invariant load_id context read_ptr s =
     (if load_id < num_loop_invariant_loads s \<and> context < num_contexts s then
        if read_ptr \<noteq> li_ptr (loop_invariant_buffer s load_id context)
        then misspec ''loop-invariant speculation failed'' s else Inr (Cont s)
      else Inl OutOfRange)"

definition register_loop_invariant_buffer :: "nat \<Rightarrow> nat \<Rightarrow> addr \<Rightarrow> 32 word \<Rightarrow> 'a pred_state_scheme \<Rightarrow> 'a pred_state_scheme res" where
  "register_loop_invariant_buffer load_id context read_ptr read_size s =
     (if load_id < num_loop_invariant_loads s \<and> context < num_contexts s then
        Inr (set_li load_id context
          ((loop_invariant_buffer s load_id context)\<lparr>li_ptr := read_ptr, li_size := ucast read_size\<rparr>) s)
      else Inl OutOfRange)"

definition update_loop_invariant_buffer :: "'a pred_state_scheme \<Rightarrow> 'a pred_state_scheme" where
  "update_loop_invariant_buffer s =
     fold (\<lambda>e s. if li_ptr (li_at s e) \<noteq> 0
                 then set_li (fst e) (snd e) ((li_at s e)\<lparr>li_value := load_le 8 (pmem s) (li_ptr (li_at s e))\<rparr>) s
                 else s) (li_entries s) s"

text \<open>The \<open>switch\<close> on the size: the low bytes of the value and one metadata byte \<open>2\<close> (written) per byte.\<close>

definition put_predicted :: "byte \<Rightarrow> addr \<Rightarrow> 64 word \<Rightarrow> mem \<Rightarrow> mem res" where
  "put_predicted sz p v m =
     (if sz = 1 then Inr ((m(p := ucast (v AND 0xff)))(get_shadow_of p := 0x02))
      else if sz = 2 then Inr (store_le 2 (store_le 2 m p (ucast (v AND 0xffff) :: 16 word)) (get_shadow_of p) (0x0202 :: 16 word))
      else if sz = 4 then Inr (store_le 4 (store_le 4 m p (ucast (v AND 0xffffffff) :: 32 word)) (get_shadow_of p) (0x02020202 :: 32 word))
      else if sz = 8 then Inr (store_le 8 (store_le 8 m p v) (get_shadow_of p) (0x0202020202020202 :: 64 word))
      else Inl AssertFailed)"

definition update_loop_invariants :: "(addr \<Rightarrow> bool) \<Rightarrow> 'a pred_state_scheme \<Rightarrow> 'a pred_state_scheme res" where
  "update_loop_invariants mp s =
     rfold (\<lambda>e s. let li = li_at s e in
         if li_ptr li \<noteq> 0 then
           rbind (set_page_rw mp (li_ptr li AND PAGE_MASK) s) (\<lambda>s.
           rbind (put_predicted (li_size li) (li_ptr li) (li_value li) (pmem s)) (\<lambda>m. Inr (s\<lparr>pmem := m\<rparr>)))
         else Inr s) (li_entries s) s"

definition update_shadow_for_loop_invariants :: "'a pred_state_scheme \<Rightarrow> 'a pred_state_scheme" where
  "update_shadow_for_loop_invariants s =
     s\<lparr>pmem := fold (\<lambda>e m. let li = li_at s e in
         if li_ptr li = 0 then m
         else fold (\<lambda>k m. let a = get_shadow_of (li_ptr li) + of_nat k in m(a := m a AND 0xfe)) [0..<unat (li_size li)] m)
       (li_entries s) (pmem s)\<rparr>"

text \<open>The comparison of one value; another size is reported as a failure.\<close>

definition value_matches :: "byte \<Rightarrow> addr \<Rightarrow> 64 word \<Rightarrow> mem \<Rightarrow> bool" where
  "value_matches sz p v m =
     (if sz = 1 then m p = ucast (v AND 0xff)
      else if sz = 2 then load_le 2 m p = (ucast (v AND 0xffff) :: 16 word)
      else if sz = 4 then load_le 4 m p = (ucast (v AND 0xffffffff) :: 32 word)
      else if sz = 8 then load_le 8 m p = v
      else False)"

text \<open>A loop that returns \<open>false\<close> at the first entry that fails.\<close>

fun verify_loop :: "('x \<Rightarrow> bool res) \<Rightarrow> 'x list \<Rightarrow> bool res" where
  "verify_loop f [] = Inr True"
| "verify_loop f (x # xs) = rbind (f x) (\<lambda>ok. if ok then verify_loop f xs else Inr False)"

text \<open>The unit that verifies the page of \<open>p\<close>.\<close>

definition my_page :: "addr \<Rightarrow> 'a pred_state_scheme \<Rightarrow> bool" where
  "my_page p s \<longleftrightarrow> unat (drop_bit PAGE_SHIFT p) mod num_aux_workers s = my_wid s - try_commit_begin s"

definition verify_loop_invariants :: "'a pred_state_scheme \<Rightarrow> bool res" where
  "verify_loop_invariants s =
     verify_loop (\<lambda>e. let li = li_at s e in
       if li_ptr li = 0 then Inr True
       else if num_aux_workers s = 0 then Inl OutOfRange
       else if \<not> my_page (li_ptr li) s then Inr True
       else Inr (value_matches (li_size li) (li_ptr li) (li_value li) (pmem s))) (li_entries s)"

text \<open>The written bytes of a predicted value are taken from the data of a packet that covers it.\<close>

definition update_covered :: "addr \<Rightarrow> bytes \<Rightarrow> bytes \<Rightarrow> 64 word \<Rightarrow> addr \<Rightarrow> nat \<Rightarrow> 'a pred_state_scheme \<Rightarrow> 'a pred_state_scheme res" where
  "update_covered a dat shadow sz p psz s =
     (if p = 0 then Inr s
      else if num_aux_workers s = 0 then Inl OutOfRange
      else if \<not> my_page p s then Inr s
      else if p < a \<or> p \<ge> a + sz then Inr s
      else if \<not> p + of_nat psz \<le> a + sz then Inl AssertFailed
      else
        let off = unat (p - a)
        in Inr (s\<lparr>pmem := fold (\<lambda>k m. if shadow (off + k) AND 2 \<noteq> 0 then m(a + of_nat (off + k) := dat (off + k)) else m)
                  [0..<psz] (pmem s)\<rparr>))"

definition try_commit_update_loop_invariants :: "addr \<Rightarrow> bytes \<Rightarrow> bytes \<Rightarrow> 64 word \<Rightarrow> 'a pred_state_scheme \<Rightarrow> 'a pred_state_scheme res" where
  "try_commit_update_loop_invariants a dat shadow sz s =
     rfold (\<lambda>e s. update_covered a dat shadow sz (li_ptr (li_at s e)) (unat (li_size (li_at s e))) s) (li_entries s) s"

subsection \<open>Linear prediction\<close>

definition register_linear_predictor :: "nat \<Rightarrow> nat \<Rightarrow> addr \<Rightarrow> 32 word \<Rightarrow> 'a pred_state_scheme \<Rightarrow> 'a pred_state_scheme" where
  "register_linear_predictor load_id context read_ptr read_size s =
     set_lp load_id context \<lparr>lp_ptr = read_ptr, lp_size = ucast read_size\<rparr> s"

definition check_and_register_linear_predictor :: "bool \<Rightarrow> nat \<Rightarrow> nat \<Rightarrow> addr \<Rightarrow> 32 word \<Rightarrow> 'a pred_state_scheme \<Rightarrow>
    ('a pred_state_scheme, 'a pred_state_scheme) outcome res" where
  "check_and_register_linear_predictor valid load_id context read_ptr read_size s =
     (if \<not> valid then Inr (Cont s)
      else if \<not> (load_id < num_linear_predictable_loads s \<and> context < num_contexts s) then Inl OutOfRange
      else if current_iteration s \<noteq> 0 then
        if read_ptr \<noteq> lp_ptr (linear_predictors s load_id context)
        then misspec ''loop-invariant speculation failed'' s else Inr (Cont s)
      else Inr (Cont (register_linear_predictor load_id context read_ptr read_size s)))"

text \<open>
  The predicted bits for the iteration after the current one. \<open>int64_t\<close> arithmetic wraps around; a
  float is predicted for 4 bytes.
\<close>

definition predicted_bits :: "(64 word \<Rightarrow> iteration \<Rightarrow> 64 word \<Rightarrow> 64 word) \<Rightarrow> (64 word \<Rightarrow> 32 word) \<Rightarrow> 'a pred_state_scheme \<Rightarrow>
    nat \<times> nat \<Rightarrow> 64 word" where
  "predicted_bits fp fl s e =
     (let a = coeff_a s (fst e) (snd e); b = coeff_b s (fst e) (snd e); n = current_iteration s + 1
      in if is_double s (fst e) (snd e) = 0 then a * word_of_int n + b
         else if lp_size (lp_at s e) = 4 then ucast (fl (fp a n b))
         else fp a n b)"

text \<open>\<open>assert( !d )\<close> in the cases of one and two bytes.\<close>

definition small_double :: "'a pred_state_scheme \<Rightarrow> nat \<times> nat \<Rightarrow> bool" where
  "small_double s e \<longleftrightarrow> (lp_size (lp_at s e) = 1 \<or> lp_size (lp_at s e) = 2) \<and> is_double s (fst e) (snd e) \<noteq> 0"

definition update_linear_predicted_values :: "(64 word \<Rightarrow> iteration \<Rightarrow> 64 word \<Rightarrow> 64 word) \<Rightarrow> (64 word \<Rightarrow> 32 word) \<Rightarrow>
    (addr \<Rightarrow> bool) \<Rightarrow> 'a pred_state_scheme \<Rightarrow> 'a pred_state_scheme res" where
  "update_linear_predicted_values fp fl mp s =
     rfold (\<lambda>e s. let lp = lp_at s e in
         if lp_ptr lp \<noteq> 0 then
           rbind (set_page_rw mp (lp_ptr lp AND PAGE_MASK) s) (\<lambda>s.
             if small_double s e then Inl AssertFailed
             else rbind (put_predicted (lp_size lp) (lp_ptr lp) (predicted_bits fp fl s e) (pmem s)) (\<lambda>m. Inr (s\<lparr>pmem := m\<rparr>)))
         else Inr s) (lp_entries s) s"

definition update_shadow_for_linear_predicted_values :: "'a pred_state_scheme \<Rightarrow> 'a pred_state_scheme" where
  "update_shadow_for_linear_predicted_values s =
     s\<lparr>pmem := fold (\<lambda>e m. let lp = lp_at s e in
         if lp_ptr lp = 0 then m
         else fold (\<lambda>k m. let a = get_shadow_of (lp_ptr lp) + of_nat k in
                if m a AND 0x1 \<noteq> 0 then m(a := m a OR 0x8) else m) [0..<unat (lp_size lp)] m)
       (lp_entries s) (pmem s)\<rparr>"

definition verify_linear_predicted_values :: "(64 word \<Rightarrow> iteration \<Rightarrow> 64 word \<Rightarrow> 64 word) \<Rightarrow> (64 word \<Rightarrow> 32 word) \<Rightarrow>
    'a pred_state_scheme \<Rightarrow> bool res" where
  "verify_linear_predicted_values fp fl s =
     verify_loop (\<lambda>e. let lp = lp_at s e in
       if lp_ptr lp = 0 then Inr True
       else if num_aux_workers s = 0 then Inl OutOfRange
       else if \<not> my_page (lp_ptr lp) s then Inr True
       else if small_double s e then Inl AssertFailed
       else Inr (value_matches (lp_size lp) (lp_ptr lp) (predicted_bits fp fl s e) (pmem s))) (lp_entries s)"

definition try_commit_update_linear_predicted_values :: "addr \<Rightarrow> bytes \<Rightarrow> bytes \<Rightarrow> 64 word \<Rightarrow> 'a pred_state_scheme \<Rightarrow> 'a pred_state_scheme res" where
  "try_commit_update_linear_predicted_values a dat shadow sz s =
     rfold (\<lambda>e s. update_covered a dat shadow sz (lp_ptr (lp_at s e)) (unat (lp_size (lp_at s e))) s) (lp_entries s) s"

subsection \<open>One predicted value in memory\<close>

definition pred_size :: "byte \<Rightarrow> bool" where
  "pred_size sz \<longleftrightarrow> sz = 1 \<or> sz = 2 \<or> sz = 4 \<or> sz = 8"

lemma lane_low:
  "i < 2 \<Longrightarrow> lane (ucast (v AND 0xffff :: 64 word) :: 16 word) i = lane v i"
  "i < 4 \<Longrightarrow> lane (ucast (v AND 0xffffffff :: 64 word) :: 32 word) i = lane v i"
proof -
  have m: "(0xffff :: 64 word) = mask 16" "(0xffffffff :: 64 word) = mask 32" by (simp_all add: mask_eq_exp_minus_1)
  show "i < 2 \<Longrightarrow> lane (ucast (v AND 0xffff :: 64 word) :: 16 word) i = lane v i"
    unfolding m by (rule bit_word_eqI) (auto simp: bit_lane bit_simps)
  show "i < 4 \<Longrightarrow> lane (ucast (v AND 0xffffffff :: 64 word) :: 32 word) i = lane v i"
    unfolding m by (rule bit_word_eqI) (auto simp: bit_lane bit_simps)
qed

lemma put_predicted_apply:
  assumes "pred_size sz"
  shows "put_predicted sz p v m = Inr (\<lambda>x. if unat (x - get_shadow_of p) < unat sz then 2
      else if unat (x - p) < unat sz then lane v (unat (x - p)) else m x)"
proof -
  from assms consider "sz = 1" | "sz = 2" | "sz = 4" | "sz = 8" by (auto simp: pred_size_def)
  then show ?thesis
  proof cases
    case 1
    then show ?thesis by (auto simp: put_predicted_def fun_eq_iff unat_eq_zero lane_and_ff)
  next
    case 2
    then show ?thesis by (auto simp: put_predicted_def fun_eq_iff store_le_apply lane_const lane_low)
  next
    case 3
    then show ?thesis by (auto simp: put_predicted_def fun_eq_iff store_le_apply lane_const lane_low)
  next
    case 4
    then show ?thesis by (auto simp: put_predicted_def fun_eq_iff store_le_apply lane_const)
  qed
qed

lemma put_predicted_fault: "\<not> pred_size sz \<Longrightarrow> put_predicted sz p v m = Inl AssertFailed"
  by (simp add: put_predicted_def pred_size_def)

lemma load_matches:
  assumes "LENGTH('a::len) = 8 * k" "\<And>i. i < k \<Longrightarrow> lane (w :: 'a word) i = lane v i"
  shows "load_le k m p = w \<longleftrightarrow> (\<forall>i < k. m (p + of_nat i) = lane (v :: 64 word) i)"
proof
  assume "load_le k m p = w"
  then show "\<forall>i < k. m (p + of_nat i) = lane v i" using assms lane_load_le[where 'a = 'a, of _ k m p] by (metis order_refl)
next
  assume "\<forall>i < k. m (p + of_nat i) = lane v i"
  then show "load_le k m p = w" using assms by (intro lane_eqI[OF assms(1)]) (simp add: lane_load_le)
qed

lemma value_matches_iff:
  "value_matches sz p v m \<longleftrightarrow> pred_size sz \<and> (\<forall>i < unat sz. m (p + of_nat i) = lane v i)"
proof (cases "pred_size sz")
  case True
  then consider "sz = 1" | "sz = 2" | "sz = 4" | "sz = 8" by (auto simp: pred_size_def)
  then show ?thesis
  proof cases
    case 1
    then show ?thesis by (simp add: value_matches_def pred_size_def lane_and_ff)
  next
    case 2
    then show ?thesis using load_matches[of 2 "ucast (v AND 0xffff) :: 16 word" v m p] by (simp add: value_matches_def pred_size_def lane_low)
  next
    case 3
    then show ?thesis using load_matches[of 4 "ucast (v AND 0xffffffff) :: 32 word" v m p] by (simp add: value_matches_def pred_size_def lane_low)
  next
    case 4
    then show ?thesis using load_matches[of 8 v v m p] by (simp add: value_matches_def pred_size_def)
  qed
qed (auto simp: value_matches_def pred_size_def)

subsection \<open>Tables of predictors\<close>

text \<open>The loops of both kinds of predictor, on memory: entry \<open>e\<close> predicts \<open>V e\<close> for \<open>Z e\<close> bytes at \<open>P e\<close>.\<close>

definition put_all :: "('e \<Rightarrow> addr) \<Rightarrow> ('e \<Rightarrow> byte) \<Rightarrow> ('e \<Rightarrow> 64 word) \<Rightarrow> 'e list \<Rightarrow> mem \<Rightarrow> mem res" where
  "put_all P Z V es m = rfold (\<lambda>e m. if P e = 0 then Inr m else put_predicted (Z e) (P e) (V e) m) es m"

definition covers :: "('e \<Rightarrow> addr) \<Rightarrow> ('e \<Rightarrow> byte) \<Rightarrow> 'e \<Rightarrow> addr \<Rightarrow> bool" where
  "covers P Z e x \<longleftrightarrow> P e \<noteq> 0 \<and> unat (x - P e) < unat (Z e)"

definition shadow_covers :: "('e \<Rightarrow> addr) \<Rightarrow> ('e \<Rightarrow> byte) \<Rightarrow> 'e \<Rightarrow> addr \<Rightarrow> bool" where
  "shadow_covers P Z e x \<longleftrightarrow> P e \<noteq> 0 \<and> unat (x - get_shadow_of (P e)) < unat (Z e)"

text \<open>Different entries predict different bytes, and no entry predicts metadata of an entry.\<close>

definition separated :: "('e \<Rightarrow> addr) \<Rightarrow> ('e \<Rightarrow> byte) \<Rightarrow> 'e list \<Rightarrow> bool" where
  "separated P Z es \<longleftrightarrow>
     (\<forall>e \<in> set es. \<forall>e' \<in> set es. \<forall>x. covers P Z e x \<longrightarrow> (e' \<noteq> e \<longrightarrow> \<not> covers P Z e' x) \<and> \<not> shadow_covers P Z e' x)"

lemma put_step:
  assumes "put_predicted (Z e) (P e) (V e) m = Inr m'" "P e \<noteq> 0"
  shows "m' x = (if shadow_covers P Z e x then 2 else if covers P Z e x then lane (V e) (unat (x - P e)) else m x)" "pred_size (Z e)"
proof -
  show z: "pred_size (Z e)" using assms(1) put_predicted_fault[of "Z e" "P e" "V e" m] by (cases "pred_size (Z e)") auto
  show "m' x = (if shadow_covers P Z e x then 2 else if covers P Z e x then lane (V e) (unat (x - P e)) else m x)"
    using assms put_predicted_apply[OF z, of "P e" "V e" m] by (auto simp: covers_def shadow_covers_def)
qed

lemma put_all_values:
  assumes "put_all P Z V es m = Inr m'" "separated P Z es" "distinct es"
  shows "(\<forall>e \<in> set es. P e \<noteq> 0 \<longrightarrow> pred_size (Z e)) \<and>
    (\<forall>e \<in> set es. \<forall>x. covers P Z e x \<longrightarrow> m' x = lane (V e) (unat (x - P e))) \<and>
    (\<forall>e \<in> set es. \<forall>x. shadow_covers P Z e x \<longrightarrow> m' x = 2) \<and>
    (\<forall>x. (\<forall>e \<in> set es. \<not> covers P Z e x \<and> \<not> shadow_covers P Z e x) \<longrightarrow> m' x = m x)"
  using assms
proof (induction es arbitrary: m)
  case (Cons e es)
  have sep: "separated P Z es" using Cons.prems(2) unfolding separated_def by (meson list.set_intros(2))
  obtain u where u: "(if P e = 0 then Inr m else put_predicted (Z e) (P e) (V e) m) = Inr u"
      "put_all P Z V es u = Inr m'"
    using Cons.prems(1) unfolding put_all_def rfold.simps rbind_eq_Inr by blast
  have z: "P e \<noteq> 0 \<Longrightarrow> pred_size (Z e)" using put_step(2)[of Z e P V m u] u(1) by auto
  have ux: "u x = (if shadow_covers P Z e x then 2 else if covers P Z e x then lane (V e) (unat (x - P e)) else m x)" for x
  proof (cases "P e = 0")
    case True
    then show ?thesis using u(1) by (simp add: covers_def shadow_covers_def)
  next
    case False
    then show ?thesis using put_step(1)[of Z e P V m u x] u(1) by simp
  qed
  note IH = Cons.IH[OF u(2) sep] Cons.prems(3)
  have n: "e \<notin> set es" "distinct es" using Cons.prems(3) by auto
  have a: "m' x = lane (V e) (unat (x - P e))" if c: "covers P Z e x" for x
  proof -
    have "\<not> shadow_covers P Z e x" "\<forall>e' \<in> set es. \<not> covers P Z e' x \<and> \<not> shadow_covers P Z e' x"
      using Cons.prems(2) c n(1) unfolding separated_def by (metis list.set_intros)+
    then show ?thesis using IH(1)[OF n(2)] ux[of x] c by auto
  qed
  have b: "m' x = 2" if c: "shadow_covers P Z e x" for x
  proof (cases "\<exists>e' \<in> set es. covers P Z e' x \<or> shadow_covers P Z e' x")
    case True
    then obtain e' where e': "e' \<in> set es" "covers P Z e' x \<or> shadow_covers P Z e' x" by blast
    have "\<not> covers P Z e' x" using Cons.prems(2) c e'(1) unfolding separated_def by (metis list.set_intros)
    then show ?thesis using e' IH(1)[OF n(2)] by blast
  next
    case False
    then show ?thesis using IH(1)[OF n(2)] ux[of x] c by simp
  qed
  show ?case using IH(1)[OF n(2)] a b ux z by auto
qed (simp add: put_all_def)

lemma covers_at: "P e \<noteq> 0 \<Longrightarrow> i < unat (Z e) \<Longrightarrow> covers P Z e (P e + of_nat i) \<and> unat (P e + of_nat i - P e) = i"
proof -
  assume *: "P e \<noteq> 0" "i < unat (Z e)"
  have "unat (Z e) < 2 ^ 8" using unsigned_less[of "Z e"] by (simp del: unsigned_less)
  with *(2) have "i < 2 ^ 64" by simp
  then have "unat (of_nat i :: addr) = i" by (simp add: unat_of_nat)
  with * show ?thesis by (simp add: covers_def)
qed

lemma verify_loop_iff:
  assumes "\<And>x. x \<in> set xs \<Longrightarrow> f x = Inr (g x)"
  shows "verify_loop f xs = Inr (\<forall>x \<in> set xs. g x)"
  using assms by (induction xs) auto

text \<open>
  What both kinds of predictor promise: \<open>upd\<close> writes the predictions and touches nothing else that the
  tables depend on, \<open>vfy\<close> compares the entries that are \<open>mine\<close>.
\<close>

locale predictor =
  fixes upd :: "'s \<Rightarrow> 's res" and vfy :: "'s \<Rightarrow> bool res" and es :: "'s \<Rightarrow> 'e list"
    and P :: "'s \<Rightarrow> 'e \<Rightarrow> addr" and Z :: "'s \<Rightarrow> 'e \<Rightarrow> byte" and V :: "'s \<Rightarrow> 'e \<Rightarrow> 64 word"
    and memory :: "'s \<Rightarrow> mem" and mine :: "'s \<Rightarrow> 'e \<Rightarrow> bool" and ready :: "'s \<Rightarrow> bool"
  assumes upd_put: "upd s = Inr s' \<Longrightarrow> put_all (P s) (Z s) (V s) (es s) (memory s) = Inr (memory s')"
    and vfy_iff: "ready s \<Longrightarrow> vfy s = Inr (\<forall>e \<in> set (es s). P s e \<noteq> 0 \<and> mine s e \<longrightarrow> value_matches (Z s e) (P s e) (V s e) (memory s))"
    and es_distinct: "distinct (es s)"
begin

text \<open>The verdict, byte by byte.\<close>

lemma verdict:
  assumes "ready s"
  shows "vfy s = Inr (\<forall>e \<in> set (es s). P s e \<noteq> 0 \<and> mine s e \<longrightarrow>
    pred_size (Z s e) \<and> (\<forall>i < unat (Z s e). memory s (P s e + of_nat i) = lane (V s e) i))"
  unfolding vfy_iff[OF assms] value_matches_iff ..

text \<open>Another process with the same tables that sees the predicted bytes accepts them.\<close>

lemma roundtrip:
  assumes u: "upd s = Inr s'" and sep: "separated (P s) (Z s) (es s)"
    and t: "es t = es s" "P t = P s" "Z t = Z s" "V t = V s" "ready t"
    and agree: "\<And>e x. e \<in> set (es s) \<Longrightarrow> covers (P s) (Z s) e x \<Longrightarrow> memory t x = memory s' x"
  shows "vfy t = Inr True"
proof -
  note p = put_all_values[OF upd_put[OF u] sep es_distinct]
  have "value_matches (Z s e) (P s e) (V s e) (memory t)" if e: "e \<in> set (es s)" "P s e \<noteq> 0" for e
    unfolding value_matches_iff
  proof (intro conjI allI impI)
    show "pred_size (Z s e)" using p e by blast
    fix i assume i: "i < unat (Z s e)"
    note c = covers_at[of "P s" e i "Z s", OF e(2) i]
    show "memory t (P s e + of_nat i) = lane (V s e) i" using agree[OF e(1) c[THEN conjunct1]] p e(1) c by auto
  qed
  then show ?thesis unfolding vfy_iff[OF t(5)] t by simp
qed

text \<open>The predicted bytes are marked as written and not as loaded, and the rest of memory is kept.\<close>

lemma metadata:
  assumes "upd s = Inr s'" "separated (P s) (Z s) (es s)" "e \<in> set (es s)" "shadow_covers (P s) (Z s) e x"
  shows "memory s' x = 2"
  using put_all_values[OF upd_put[OF assms(1)] assms(2) es_distinct] assms(3,4) by blast

lemma keeps:
  assumes "upd s = Inr s'" "separated (P s) (Z s) (es s)" "\<forall>e \<in> set (es s). \<not> covers (P s) (Z s) e x \<and> \<not> shadow_covers (P s) (Z s) e x"
  shows "memory s' x = memory s x"
  using put_all_values[OF upd_put[OF assms(1)] assms(2) es_distinct] assms(3) by blast

end

lemma rfold_memory:
  assumes "\<And>e t t'. Q t \<Longrightarrow> f e t = Inr t' \<Longrightarrow> Q t' \<and> g e (pmem t) = Inr (pmem t')" "Q s" "rfold f es s = Inr s'"
  shows "rfold g es (pmem s) = Inr (pmem s')"
  using assms(2,3)
proof (induction es arbitrary: s)
  case (Cons e es)
  from Cons.prems(2) obtain t where t: "f e s = Inr t" "rfold f es t = Inr s'" by (auto simp: rbind_eq_Inr)
  from assms(1)[OF Cons.prems(1) t(1)] Cons.IH[OF _ t(2)] show ?case by simp
qed simp

lemma set_page_rw_ok: "set_page_rw mp p s = Inr s' \<Longrightarrow> s' = s\<lparr>page_prot := (page_prot s)(p := PROT_RW)\<rparr>"
  by (simp add: set_page_rw_def mprotect_page_ok)

text \<open>Changes of protection and memory leave the tables alone.\<close>

lemma tables_frame [simp]:
  "loop_invariant_buffer (s\<lparr>page_prot := f, pmem := m\<rparr>) = loop_invariant_buffer s"
  "linear_predictors (s\<lparr>page_prot := f, pmem := m\<rparr>) = linear_predictors s"
  "predicted_bits fp fl (s\<lparr>page_prot := f, pmem := m\<rparr>) e = predicted_bits fp fl s e"
  "predicted_bits fp fl (s\<lparr>page_prot := f\<rparr>) e = predicted_bits fp fl s e"
  "predicted_bits fp fl (s\<lparr>pmem := m\<rparr>) e = predicted_bits fp fl s e"
  by (simp_all add: predicted_bits_def Let_def)

lemma page_mem_ex: "\<exists>f' m'. s\<lparr>page_prot := f, pmem := m\<rparr> = s\<lparr>page_prot := f', pmem := m'\<rparr>"
  by blast

lemma distinct_entries: "distinct (li_entries s)" "distinct (lp_entries s)"
  by (simp_all add: li_entries_def lp_entries_def distinct_product)

definition li_P :: "'a pred_state_scheme \<Rightarrow> nat \<times> nat \<Rightarrow> addr" where "li_P s e = li_ptr (li_at s e)"
definition li_Z :: "'a pred_state_scheme \<Rightarrow> nat \<times> nat \<Rightarrow> byte" where "li_Z s e = li_size (li_at s e)"
definition li_V :: "'a pred_state_scheme \<Rightarrow> nat \<times> nat \<Rightarrow> 64 word" where "li_V s e = li_value (li_at s e)"
definition lp_P :: "'a pred_state_scheme \<Rightarrow> nat \<times> nat \<Rightarrow> addr" where "lp_P s e = lp_ptr (lp_at s e)"
definition lp_Z :: "'a pred_state_scheme \<Rightarrow> nat \<times> nat \<Rightarrow> byte" where "lp_Z s e = lp_size (lp_at s e)"

lemmas table_defs = li_P_def li_Z_def li_V_def lp_P_def lp_Z_def

interpretation li: predictor "update_loop_invariants mp" verify_loop_invariants li_entries li_P li_Z li_V pmem
  "\<lambda>s e. my_page (li_P s e) s" "\<lambda>s. 0 < num_aux_workers s"
  for mp
proof (unfold_locales)
  fix s s' :: "'a pred_state_scheme"
  assume r: "update_loop_invariants mp s = Inr s'"
  define Q where "Q t \<longleftrightarrow> (\<exists>f m. t = s\<lparr>page_prot := f, pmem := m\<rparr>)" for t
  have q0: "Q s" unfolding Q_def by (intro exI[of _ "page_prot s"] exI[of _ "pmem s"]) simp
  show "put_all (li_P s) (li_Z s) (li_V s) (li_entries s) (pmem s) = Inr (pmem s')"
    unfolding put_all_def
  proof (rule rfold_memory[where Q = Q, OF _ q0 r[unfolded update_loop_invariants_def]])
    fix e t t'
    assume "Q t" and f: "(let li = li_at t e in
         if li_ptr li \<noteq> 0 then
           rbind (set_page_rw mp (li_ptr li AND PAGE_MASK) t) (\<lambda>s.
           rbind (put_predicted (li_size li) (li_ptr li) (li_value li) (pmem s)) (\<lambda>m. Inr (s\<lparr>pmem := m\<rparr>)))
         else Inr t) = Inr t'"
    then show "Q t' \<and> (if li_P s e = 0 then Inr (pmem t) else put_predicted (li_Z s e) (li_P s e) (li_V s e) (pmem t)) = Inr (pmem t')"
      unfolding Q_def table_defs
      by (auto simp: Let_def rbind_eq_Inr dest!: set_page_rw_ok split: if_splits intro!: page_mem_ex)
  qed
next
  fix s :: "'a pred_state_scheme"
  assume "0 < num_aux_workers s"
  then show "verify_loop_invariants s = Inr (\<forall>e\<in>set (li_entries s). li_P s e \<noteq> 0 \<and> my_page (li_P s e) s \<longrightarrow>
        value_matches (li_Z s e) (li_P s e) (li_V s e) (pmem s))"
    unfolding verify_loop_invariants_def by (intro verify_loop_iff) (simp add: Let_def table_defs)
qed (rule distinct_entries)

interpretation lp: predictor "update_linear_predicted_values fp fl mp" "verify_linear_predicted_values fp fl" lp_entries lp_P lp_Z
  "predicted_bits fp fl" pmem "\<lambda>s e. my_page (lp_P s e) s"
  "\<lambda>s. 0 < num_aux_workers s \<and> (\<forall>e \<in> set (lp_entries s). \<not> small_double s e)"
  for fp fl mp
proof (unfold_locales)
  fix s s' :: "'a pred_state_scheme"
  assume r: "update_linear_predicted_values fp fl mp s = Inr s'"
  define Q where "Q t \<longleftrightarrow> (\<exists>f m. t = s\<lparr>page_prot := f, pmem := m\<rparr>)" for t
  have q0: "Q s" unfolding Q_def by (intro exI[of _ "page_prot s"] exI[of _ "pmem s"]) simp
  show "put_all (lp_P s) (lp_Z s) (predicted_bits fp fl s) (lp_entries s) (pmem s) = Inr (pmem s')"
    unfolding put_all_def
  proof (rule rfold_memory[where Q = Q, OF _ q0 r[unfolded update_linear_predicted_values_def]])
    fix e t t'
    assume "Q t" and f: "(let lp = lp_at t e in
         if lp_ptr lp \<noteq> 0 then
           rbind (set_page_rw mp (lp_ptr lp AND PAGE_MASK) t) (\<lambda>s.
             if small_double s e then Inl AssertFailed
             else rbind (put_predicted (lp_size lp) (lp_ptr lp) (predicted_bits fp fl s e) (pmem s)) (\<lambda>m. Inr (s\<lparr>pmem := m\<rparr>)))
         else Inr t) = Inr t'"
    then show "Q t' \<and> (if lp_P s e = 0 then Inr (pmem t) else put_predicted (lp_Z s e) (lp_P s e) (predicted_bits fp fl s e) (pmem t)) = Inr (pmem t')"
      unfolding Q_def table_defs
      by (auto simp: Let_def rbind_eq_Inr dest!: set_page_rw_ok split: if_splits intro!: page_mem_ex)
  qed
next
  fix s :: "'a pred_state_scheme"
  assume "0 < num_aux_workers s \<and> (\<forall>e \<in> set (lp_entries s). \<not> small_double s e)"
  then show "verify_linear_predicted_values fp fl s = Inr (\<forall>e\<in>set (lp_entries s). lp_P s e \<noteq> 0 \<and> my_page (lp_P s e) s \<longrightarrow>
        value_matches (lp_Z s e) (lp_P s e) (predicted_bits fp fl s e) (pmem s))"
    unfolding verify_linear_predicted_values_def by (intro verify_loop_iff) (simp add: Let_def table_defs)
qed (rule distinct_entries)

subsection \<open>Metadata of predicted values\<close>

lemma fold_map_bytes:
  assumes "n \<le> 2 ^ 64"
  shows "fold (\<lambda>k m. m(b + of_nat k := g (m (b + of_nat k)))) [0..<n] m = map_bytes n g m b"
  using assms
proof (induction n)
  case (Suc n)
  have "x = b + of_nat n \<longleftrightarrow> unat (x - b) = n" for x using Suc.prems by (intro eq_add_of_nat_iff) linarith
  then show ?case using Suc by (auto simp: map_bytes_def fun_eq_iff less_Suc_eq)
qed (simp add: map_bytes_def)

lemma byte_count: "unat (b :: byte) \<le> 2 ^ 64"
proof -
  have "unat b < 2 ^ 8" using unsigned_less[of b] by (simp del: unsigned_less)
  then show ?thesis by simp
qed

text \<open>A pass that applies \<open>g\<close> to every metadata byte of every registered entry.\<close>

definition shadow_pass :: "(byte \<Rightarrow> byte) \<Rightarrow> ('e \<Rightarrow> addr) \<Rightarrow> ('e \<Rightarrow> byte) \<Rightarrow> 'e list \<Rightarrow> mem \<Rightarrow> mem" where
  "shadow_pass g P Z es m = fold (\<lambda>e m. if P e = 0 then m else map_bytes (unat (Z e)) g m (get_shadow_of (P e))) es m"

lemma li_shadow_pass:
  "pmem (update_shadow_for_loop_invariants s) = shadow_pass (\<lambda>b. b AND 0xfe) (li_P s) (li_Z s) (li_entries s) (pmem s)"
  unfolding update_shadow_for_loop_invariants_def shadow_pass_def table_defs
  by (simp add: Let_def fold_map_bytes[OF byte_count, where g = "\<lambda>b. b AND 0xfe"] cong: if_cong)

lemma lp_shadow_pass:
  "pmem (update_shadow_for_linear_predicted_values s) =
     shadow_pass (\<lambda>b. if b AND 0x1 \<noteq> 0 then b OR 0x8 else b) (lp_P s) (lp_Z s) (lp_entries s) (pmem s)"
proof -
  let ?g = "\<lambda>b :: byte. if b AND 0x1 \<noteq> 0 then b OR 0x8 else b"
  have "(if m a AND 0x1 \<noteq> 0 then m(a := m a OR 0x8) else m) = m(a := ?g (m a))" for m :: mem and a by simp
  then show ?thesis
    unfolding update_shadow_for_linear_predicted_values_def shadow_pass_def table_defs
    by (simp add: Let_def fold_map_bytes[OF byte_count, where g = ?g] cong: if_cong)
qed

lemma shadow_pass_idem:
  assumes "\<And>b. g (g b) = g b"
  shows "shadow_pass g P Z es m x = (if \<exists>e \<in> set es. shadow_covers P Z e x then g (m x) else m x)"
proof (induction es arbitrary: m)
  case (Cons e es)
  let ?m = "if P e = 0 then m else map_bytes (unat (Z e)) g m (get_shadow_of (P e))"
  have m: "?m x = (if shadow_covers P Z e x then g (m x) else m x)"
    by (simp add: map_bytes_def shadow_covers_def)
  have "shadow_pass g P Z (e # es) m x = shadow_pass g P Z es ?m x" by (simp add: shadow_pass_def)
  then show ?case unfolding Cons.IH m by (simp add: assms)
qed (simp add: shadow_pass_def)

lemma bit_and_0xfe: "bit (b AND 0xfe :: byte) 0 = False" "n \<noteq> 0 \<Longrightarrow> bit (b AND 0xfe :: byte) n = bit b n"
proof -
  have e: "(0xfe :: byte) = NOT 1" by simp
  show "bit (b AND 0xfe :: byte) 0 = False" by (simp add: bit_simps)
  show "n \<noteq> 0 \<Longrightarrow> bit (b AND 0xfe :: byte) n = bit b n"
    unfolding e by (auto simp: bit_simps dest: bit_imp_le_length)
qed

text \<open>
  The metadata pass for loop invariants clears the load-before-store bit of exactly the predicted
  bytes, so that they are not validated twice; the pass for linear predictions, written for the same
  purpose, leaves that bit of every byte as it was and only sets bit 3 next to it.
\<close>

theorem prediction_shadow_passes:
  "(bit (pmem (update_shadow_for_loop_invariants s) x) n \<longleftrightarrow>
      bit (pmem s x) n \<and> \<not> (n = 0 \<and> (\<exists>e \<in> set (li_entries s). shadow_covers (li_P s) (li_Z s) e x))) \<and>
   (bit (pmem (update_shadow_for_linear_predicted_values s) x) n \<longleftrightarrow>
      bit (pmem s x) n \<or> n = 3 \<and> bit (pmem s x) 0 \<and> (\<exists>e \<in> set (lp_entries s). shadow_covers (lp_P s) (lp_Z s) e x))"
proof -
  have li: "pmem (update_shadow_for_loop_invariants s) x =
      (if \<exists>e \<in> set (li_entries s). shadow_covers (li_P s) (li_Z s) e x then pmem s x AND 0xfe else pmem s x)"
    unfolding li_shadow_pass by (rule shadow_pass_idem) (simp add: and.assoc)
  have b8: "bit (8 :: byte) n \<longleftrightarrow> n = 3" for n
    using bit_exp_iff[of 3 n, where 'a = byte] by (auto dest: bit_imp_le_length)
  have or8: "bit (b OR 8) n \<longleftrightarrow> bit b n \<or> n = 3" for b :: byte and n by (simp only: bit_or_iff b8)
  have g0: "b AND 1 \<noteq> 0 \<longleftrightarrow> bit b 0" for b :: byte by (rule flag_bits(1))
  have lp: "pmem (update_shadow_for_linear_predicted_values s) x =
      (if \<exists>e \<in> set (lp_entries s). shadow_covers (lp_P s) (lp_Z s) e x then
         (if pmem s x AND 1 \<noteq> 0 then pmem s x OR 8 else pmem s x) else pmem s x)"
    unfolding lp_shadow_pass by (rule shadow_pass_idem) (simp add: g0 bit_simps b8 or.assoc)
  show ?thesis unfolding li lp g0 using bit_and_0xfe by (cases "n = 0") (simp_all add: or8)
qed

subsection \<open>Predictions and their verification\<close>


definition qdemo :: pred_state where
  "qdemo = prot_state.extend (pdemo\<lparr>current_iteration := 4\<rparr>)
     (pred_state.fields 1 (\<lambda>_ _. \<lparr>li_ptr = 0, li_value = 0, li_size = 0\<rparr>) (\<lambda>_ _. \<lparr>lp_ptr = 0x5008, lp_size = 4\<rparr>) 0 1 1
        (\<lambda>_ _. 3) (\<lambda>_ _. 7) (\<lambda>_ _. 0))"

lemma qdemo_simps [simp]:
  "num_linear_predictable_loads qdemo = 1" "num_contexts qdemo = 1" "num_aux_workers qdemo = 1" "current_iteration qdemo = 4"
  "linear_predictors qdemo = (\<lambda>_ _. \<lparr>lp_ptr = 0x5008, lp_size = 4\<rparr>)" "is_double qdemo = (\<lambda>_ _. 0)"
  "coeff_a qdemo = (\<lambda>_ _. 3)" "coeff_b qdemo = (\<lambda>_ _. 7)" "num_loop_invariant_loads qdemo = 0"
  by (simp_all add: qdemo_def prot_state.defs pred_state.defs pdemo_def run_state.defs rdemo_def sep_state.defs sdemo_def
      malloc_state.defs mdemo_def comm_state.defs ver_malloc_init_def Let_def demo_def start_def init_queues_def init_packets_def)

lemma lp_entries_qdemo: "lp_entries qdemo = [(0, 0)]"
  by (simp add: lp_entries_def)

lemma qdemo_separated: "separated (lp_P qdemo) (lp_Z qdemo) (lp_entries qdemo)"
proof -
  have "\<not> unat (x - 0x200000005008) < 4" if x: "unat (x - 0x5008) < 4" for x :: addr
  proof
    assume y: "unat (x - 0x200000005008) < 4"
    have "x = 0x5008 + of_nat (unat (x - 0x5008))" by simp
    moreover have "x = 0x200000005008 + of_nat (unat (x - 0x200000005008))" by simp
    moreover obtain i j where i: "unat (x - 0x5008) = i" "i < 4" and j: "unat (x - 0x200000005008) = j" "j < 4" using x y by blast
    ultimately have "(0x5008 + of_nat i :: addr) = 0x200000005008 + of_nat j" by metis
    then show False using i(2) j(2) by (auto dest!: lt4_cases)
  qed
  then show ?thesis
    by (simp add: separated_def lp_entries_qdemo covers_def shadow_covers_def table_defs get_shadow_of_def SHADOW_MASK_def)
qed



definition lidemo :: "byte \<Rightarrow> pred_state" where
  "lidemo b = qdemo\<lparr>num_loop_invariant_loads := 1, loop_invariant_buffer := (\<lambda>_ _. \<lparr>li_ptr = 0x5008, li_value = 9, li_size = 1\<rparr>),
     my_wid := 2, pmem := (\<lambda>_. b)\<rparr>"


end
