(* ===== verification/Incoming.thy ===== *)
theory Incoming
  imports Prediction
begin

unbundle bit_operations_syntax

section \<open>Packets that arrive at a worker\<close>

text \<open>
  Models the worker side of \<open>smtx/units.cpp\<close>: \<open>process_reverse_commit_queue\<close> replays the allocations of
  iteration 0 that the commit process sends back, \<open>process_incoming_packets\<close> applies, stage by stage, what
  the earlier stages sent for the current iteration up to their end-of-iteration packet.

  A loop that consumes packets is bounded by the number of packets its queue can hold: once they are
  consumed and no end has been seen, only another process can make the loop go on, which is \<open>Spin\<close>.
  The bound \<open>drain_fuel\<close> is one more than the capacity; \<open>incoming_drain\<close> and \<open>reverse_drain\<close> show that
  it is never what stops a loop.
\<close>

definition drain_fuel :: nat where
  "drain_fuel = QUEUE_SIZE"

text \<open>\<open>p->ptr = NULL\<close>: the packet is free again.\<close>

definition mark_consumed :: "addr \<Rightarrow> 'a comm_state_scheme \<Rightarrow> 'a comm_state_scheme" where
  "mark_consumed p s = s\<lparr>packets := (packets s)(p := (packets s p)\<lparr>ptr := 0\<rparr>)\<rparr>"

definition update_super_packet :: "nat \<Rightarrow> addr \<Rightarrow> addr \<Rightarrow> 'a comm_state_scheme \<Rightarrow> 'a comm_state_scheme" where
  "update_super_packet stage p shadow_p s =
     (let mem_chunk = pval (packets s p);
          shadow_chunk = pval (packets s shadow_p);
          s = s\<lparr>pmem := update_page (ptr (packets s p)) (cdata (chunks s mem_chunk)) (cdata (chunks s shadow_chunk)) (pmem s)\<rparr>
      in mark_consumed shadow_p (mark_packet_chunk_read stage shadow_chunk (mark_packet_chunk_read stage mem_chunk s)))"

definition update_normal_packet :: "addr \<Rightarrow> addr \<Rightarrow> 'a comm_state_scheme \<Rightarrow> 'a comm_state_scheme" where
  "update_normal_packet p shadow_p s =
     s\<lparr>pmem := update_normal (ptr (packets s p)) (pval (packets s p)) (pval (packets s shadow_p)) (pmem s)\<rparr>"

subsection \<open>Replaying allocations\<close>

text \<open>Record \<open>k\<close> of a chunk of \<open>VerMallocInstance\<close>s: pointer, size and heap.\<close>

definition instance_at :: "bytes \<Rightarrow> nat \<Rightarrow> addr \<times> 32 word \<times> 32 word" where
  "instance_at dat k =
     (let w = arr64 dat (sizeof_instance * k + 8) in (arr64 dat (sizeof_instance * k), ucast w, ucast (drop_bit 32 w)))"

definition replay_instance :: "(addr \<Rightarrow> bool) \<Rightarrow> wid \<Rightarrow> addr \<times> 32 word \<times> 32 word \<Rightarrow> 'a sep_state_scheme \<Rightarrow> 'a sep_state_scheme res" where
  "replay_instance mm source v s =
     (case v of (p, sz, h) \<Rightarrow>
        if h = -1 then rbind (update_ver_malloc mm source (ucast sz) p s) (\<lambda>(_, s). Inr s)
        else rbind (update_ver_separation_malloc mm (ucast sz) source (unat h) p s) (\<lambda>(_, s). Inr s))"

text \<open>The loop over the records of a chunk; \<open>each v s\<close> is what is done for one record.\<close>

fun instance_loop :: "(addr \<times> 32 word \<times> 32 word \<Rightarrow> 's \<Rightarrow> 's res) \<Rightarrow> bytes \<Rightarrow> nat list \<Rightarrow> 's \<Rightarrow> 's res" where
  "instance_loop each dat [] s = Inr s"
| "instance_loop each dat (k # ks) s =
     (if fst (instance_at dat k) = 0 then Inr s else rbind (each (instance_at dat k) s) (instance_loop each dat ks))"

definition replay_chunk :: "(addr \<Rightarrow> bool) \<Rightarrow> wid \<Rightarrow> addr \<Rightarrow> 'a sep_state_scheme \<Rightarrow> 'a sep_state_scheme res" where
  "replay_chunk mm source chunk s =
     instance_loop (replay_instance mm source) (cdata (chunks s chunk)) [0..<PAGE_SIZE div sizeof_instance] s"

subsection \<open>The reverse commit queue\<close>

definition reverse_packet :: "(addr \<Rightarrow> bool) \<Rightarrow> wid \<Rightarrow> addr \<Rightarrow> 'a sep_state_scheme \<Rightarrow> 'a sep_state_scheme res" where
  "reverse_packet mm wid p s =
     (let pk = packets s p in
      if is_write pk = REGULAR then
        let source_wid = unat (ucast (pval pk) :: 32 word)
        in if GET_MY_STAGE s source_wid \<ge> GET_MY_STAGE s wid \<and> source_wid \<noteq> wid
           then rbind (update_ver_malloc mm source_wid (ucast (psize pk)) (ptr pk) s) (\<lambda>(_, s). Inr s)
           else Inr s
      else if is_write pk \<noteq> SEPARATION then Inl AssertFailed
      else
        let source_wid = unat (drop_bit 32 (pval pk));
            heapid = unat (ucast (pval pk) :: 32 word)
        in if GET_MY_STAGE s source_wid \<ge> GET_MY_STAGE s wid \<and> source_wid \<noteq> wid
           then rbind (update_ver_separation_malloc mm (ucast (psize pk)) source_wid heapid (ptr pk) s) (\<lambda>(_, s). Inr s)
           else Inr s)"

fun reverse_loop :: "nat \<Rightarrow> (addr \<Rightarrow> bool) \<Rightarrow> wid \<Rightarrow> 'a sep_state_scheme \<Rightarrow> 'a sep_state_scheme res" where
  "reverse_loop 0 mm wid s = Inl Spin"
| "reverse_loop (Suc n) mm wid s =
     (case chan s (Reverse wid) of None \<Rightarrow> Inl OutOfRange
      | Some q \<Rightarrow>
          if sw_queue_empty q then Inr s
          else rbind (chan_consume (Reverse wid) s) (\<lambda>(p, s).
               rbind (reverse_packet mm wid p s) (reverse_loop n mm wid)))"

definition process_reverse_commit_queue :: "(addr \<Rightarrow> bool) \<Rightarrow> wid \<Rightarrow> 'a sep_state_scheme \<Rightarrow> 'a sep_state_scheme res" where
  "process_reverse_commit_queue mm wid s = reverse_loop drain_fuel mm wid s"

subsection \<open>Packets of earlier stages\<close>

text \<open>One round of the inner loop, after \<open>p\<close> has been consumed: is the source done, and the new state.\<close>

definition incoming_packet :: "(addr \<Rightarrow> bool) \<Rightarrow> wid \<Rightarrow> wid \<Rightarrow> addr \<Rightarrow> 'a sep_state_scheme \<Rightarrow> (bool \<times> 'a sep_state_scheme) res" where
  "incoming_packet mm source wid p s =
     rbind (case pkind (packets s p) of
         NORMAL \<Rightarrow> rbind (chan_consume (Ucvf source wid) s) (\<lambda>(q, s). Inr (False, update_normal_packet p q s))
       | SUPER \<Rightarrow>
           if is_write (packets s p) = check_num CHECK_RO_PAGE
           then Inr (False, mark_packet_chunk_read (GET_MY_STAGE s wid) (pval (packets s p)) s)
           else rbind (chan_consume (Ucvf source wid) s) (\<lambda>(q, s). Inr (False, update_super_packet (GET_MY_STAGE s wid) p q s))
       | EOI \<Rightarrow> Inr (True, s)
       | MISSPEC \<Rightarrow> Inr (True, s)
       | EOW \<Rightarrow> Inr (True, s)
       | ALLOC \<Rightarrow>
           if psize (packets s p) = 0
           then rbind (replay_chunk mm source (pval (packets s p)) s) (\<lambda>s.
                  Inr (False, mark_packet_chunk_read (GET_MY_STAGE s wid) (pval (packets s p)) s))
           else Inr (False, s)
       | FREE \<Rightarrow> Inr (False, update_ver_free source (ptr (packets s p)) s)
       | BOI \<Rightarrow> Inr (False, s)) (\<lambda>(done, s).
     Inr (done, mark_consumed p s))"

fun incoming_loop :: "nat \<Rightarrow> (addr \<Rightarrow> bool) \<Rightarrow> wid \<Rightarrow> wid \<Rightarrow> 'a sep_state_scheme \<Rightarrow> 'a sep_state_scheme res" where
  "incoming_loop 0 mm source wid s = Inl Spin"
| "incoming_loop (Suc n) mm source wid s =
     rbind (chan_consume (Ucvf source wid) s) (\<lambda>(p, s).
     rbind (incoming_packet mm source wid p s) (\<lambda>(done, s).
       if done then Inr s else incoming_loop n mm source wid s))"

definition process_incoming_packets :: "(addr \<Rightarrow> bool) \<Rightarrow> wid \<Rightarrow> iteration \<Rightarrow> 'a sep_state_scheme \<Rightarrow> 'a sep_state_scheme res" where
  "process_incoming_packets mm wid iter s =
     (if \<not> wid < try_commit_begin s then Inl AssertFailed
      else rfold (\<lambda>i s. incoming_loop drain_fuel mm
             (GET_FIRST_WID_OF_STAGE s i + wid_of_iter iter mod GET_REPLICATION_FACTOR s i) wid s)
           [0..<GET_MY_STAGE s wid] s)"

subsection \<open>Frames\<close>

text \<open>The shared part of the state that replaying an allocation leaves alone.\<close>

definition shared_eq :: "'a comm_state_scheme \<Rightarrow> 'a comm_state_scheme \<Rightarrow> bool" where
  "shared_eq s t \<longleftrightarrow> chan t = chan s \<and> packets t = packets s \<and> chunks t = chunks s \<and>
     try_commit_begin t = try_commit_begin s \<and> num_aux_workers t = num_aux_workers s \<and>
     num_stages t = num_stages s \<and> stage2rep t = stage2rep s \<and> wid2stage t = wid2stage s \<and> stage2firstwid t = stage2firstwid s"

lemma shared_eq_refl [simp]: "shared_eq s s"
  by (simp add: shared_eq_def)

lemma shared_eq_trans: "shared_eq s t \<Longrightarrow> shared_eq t u \<Longrightarrow> shared_eq s u"
  by (simp add: shared_eq_def)

lemma update_ver_malloc_shared:
  fixes s :: "'a malloc_state_scheme"
  shows "update_ver_malloc mm w sz p s = Inr (r, s') \<Longrightarrow> shared_eq s s'" "update_ver_malloc mm w sz p s \<noteq> Inl Spin"
  by (auto simp: update_ver_malloc_def Let_def shared_eq_def insert_shadow_heap_pages_def set_vm_def split: if_splits)

lemma update_ver_separation_malloc_shared:
  fixes s :: "'a sep_state_scheme"
  shows "update_ver_separation_malloc mm sz w h p s = Inr (r, s') \<Longrightarrow> shared_eq s s'"
    "update_ver_separation_malloc mm sz w h p s \<noteq> Inl Spin"
  by (auto simp: update_ver_separation_malloc_def Let_def shared_eq_def set_vheap_def split: if_splits)

lemmas replay_shared = update_ver_malloc_shared(1) update_ver_separation_malloc_shared(1)
lemmas replay_no_spin = update_ver_malloc_shared(2) update_ver_separation_malloc_shared(2)

lemma rbind_eq_Spin: "rbind r f = Inl e \<longleftrightarrow> r = Inl e \<or> (\<exists>x. r = Inr x \<and> f x = Inl e)"
  by (cases r) auto

lemma reverse_packet_shared:
  "reverse_packet mm w p s = Inr s' \<Longrightarrow> shared_eq s s'" "reverse_packet mm w p s \<noteq> Inl Spin"
  by (auto simp: reverse_packet_def Let_def rbind_eq_Inr rbind_eq_Spin replay_no_spin dest: replay_shared split: if_splits)

lemma instance_loop_shared:
  assumes "\<And>v t t'. each v t = Inr t' \<Longrightarrow> shared_eq t t'" "instance_loop each dat ks s = Inr s'"
  shows "shared_eq s s'"
  using assms(2)
proof (induction ks arbitrary: s)
  case (Cons k ks)
  then show ?case by (auto simp: rbind_eq_Inr split: if_splits dest: assms(1) intro: shared_eq_trans)
qed simp

lemma replay_instance_shared: "replay_instance mm w v s = Inr s' \<Longrightarrow> shared_eq s s'"
  by (auto simp: replay_instance_def rbind_eq_Inr dest: replay_shared split: if_splits prod.splits)

lemma replay_chunk_shared: "replay_chunk mm w c s = Inr s' \<Longrightarrow> shared_eq s s'"
  unfolding replay_chunk_def using replay_instance_shared by (rule instance_loop_shared)

lemma chans_rep_shared: "shared_eq s s' \<Longrightarrow> chans_rep s L \<Longrightarrow> chans_rep s' L"
  by (simp add: shared_eq_def chans_rep_def)

text \<open>What the queue operations see of a represented queue.\<close>

lemma chan_nonempty:
  assumes "chans_rep s L" "chan s c = Some q"
  shows "sw_queue_empty q \<longleftrightarrow> L c = []" "length (L c) \<le> slots"
proof -
  from assms have r: "sw_repr q (L c)" unfolding chans_rep_def by (metis option.simps(5))
  show "sw_queue_empty q \<longleftrightarrow> L c = []" using swq.is_empty_repr[OF r] by simp
  show "length (L c) \<le> slots" using swq.repr_cap[OF r] by simp
qed

lemma chan_consume_cases:
  assumes "chans_rep s L" "chan s c = Some q"
  shows "L c = [] \<Longrightarrow> chan_consume c s = Inl Spin"
    "L c = p # ps \<Longrightarrow> \<exists>s'. chan_consume c s = Inr (p, s') \<and> chans_rep s' (L(c := ps)) \<and> s' = s\<lparr>chan := chan s'\<rparr> \<and>
       (\<forall>d. chan s' d = None \<longleftrightarrow> chan s d = None)"
proof -
  from assms have r: "sw_repr q (L c)" unfolding chans_rep_def by (metis option.simps(5))
  show "L c = [] \<Longrightarrow> chan_consume c s = Inl Spin" using swq.consume_none[of q] r assms(2) by (simp add: chan_consume_def)
  assume c: "L c = p # ps"
  obtain q' where q': "sw_queue_consume q = Inr (p, q')" "sw_repr q' ps" using swq.consume_some[of q p ps] r c by auto
  have "chans_rep (s\<lparr>chan := (chan s)(c \<mapsto> q')\<rparr>) (L(c := ps))" by (rule chans_rep_upd[OF assms(1) q'(2)])
  with q'(1) assms(2) show "\<exists>s'. chan_consume c s = Inr (p, s') \<and> chans_rep s' (L(c := ps)) \<and> s' = s\<lparr>chan := chan s'\<rparr> \<and>
       (\<forall>d. chan s' d = None \<longleftrightarrow> chan s d = None)"
    by (simp add: chan_consume_def)
qed

subsection \<open>The loops end\<close>

lemma reverse_drain:
  assumes "chans_rep s L" "chan s (Reverse w) \<noteq> None" "length (L (Reverse w)) < n"
  shows "reverse_loop n mm w s \<noteq> Inl Spin \<and> (\<forall>s'. reverse_loop n mm w s = Inr s' \<longrightarrow> chans_rep s' (L(Reverse w := [])))"
  using assms
proof (induction n arbitrary: s L)
  case (Suc n)
  obtain q where q: "chan s (Reverse w) = Some q" using Suc.prems(2) by auto
  show ?case
  proof (cases "L (Reverse w)")
    case Nil
    then have "L(Reverse w := []) = L" by auto
    then show ?thesis using Suc.prems(1) q chan_nonempty(1)[OF Suc.prems(1) q] Nil by simp
  next
    case (Cons p ps)
    obtain t where t: "chan_consume (Reverse w) s = Inr (p, t)" "chans_rep t (L(Reverse w := ps))"
        "\<forall>d. chan t d = None \<longleftrightarrow> chan s d = None"
      using chan_consume_cases(2)[OF Suc.prems(1) q Cons] by blast
    then have tn: "chan t (Reverse w) \<noteq> None" using q by simp
    show ?thesis
    proof (cases "reverse_packet mm w p t")
      case (Inl e)
      then show ?thesis using q t(1) Cons chan_nonempty(1)[OF Suc.prems(1) q] reverse_packet_shared(2)[of mm w p t] by simp
    next
      case (Inr u)
      note sh = reverse_packet_shared(1)[OF Inr]
      have ih: "reverse_loop n mm w u \<noteq> Inl Spin \<and> (\<forall>s'. reverse_loop n mm w u = Inr s' \<longrightarrow> chans_rep s' ((L(Reverse w := ps))(Reverse w := [])))"
        by (rule Suc.IH[OF chans_rep_shared[OF sh t(2)]]) (use sh tn Cons Suc.prems(3) in \<open>simp_all add: shared_eq_def\<close>)
      have eq: "reverse_loop (Suc n) mm w s = reverse_loop n mm w u"
        using q t(1) Cons Inr chan_nonempty(1)[OF Suc.prems(1) q] by simp
      show ?thesis unfolding eq using ih unfolding fun_upd_upd .
    qed
  qed
qed simp

text \<open>
  C18. The loop over the reverse commit queue ends: on a queue in any state it processes every packet that
  is there and stops with the queue empty, or stops at a failed assertion; it never runs out of rounds.
\<close>

theorem process_reverse_commit_queue_terminates:
  assumes "chans_rep s L" "chan s (Reverse w) \<noteq> None"
  shows "process_reverse_commit_queue mm w s \<noteq> Inl Spin \<and>
    (\<forall>s'. process_reverse_commit_queue mm w s = Inr s' \<longrightarrow> chans_rep s' (L(Reverse w := [])))"
proof -
  obtain q where "chan s (Reverse w) = Some q" using assms(2) by auto
  from chan_nonempty(2)[OF assms(1) this] have "length (L (Reverse w)) < drain_fuel"
    using slots_pos by (simp add: drain_fuel_def)
  from reverse_drain[OF assms this] show ?thesis by (simp add: process_reverse_commit_queue_def)
qed

theorem process_reverse_commit_queue_terminates_witness:
  "process_reverse_commit_queue (\<lambda>_. True) 0 qdemo \<noteq> Inl Spin"
proof -
  have c: "chan qdemo = chan (demo (\<lambda>_. 0))"
    by (simp add: qdemo_def prot_state.defs pred_state.defs pdemo_def run_state.defs rdemo_def sep_state.defs sdemo_def
      malloc_state.defs mdemo_def comm_state.defs ver_malloc_init_def Let_def)
  have "chans_rep qdemo (\<lambda>_. [])" using demo_ok(3)[of "\<lambda>_. 0"] by (simp add: chans_rep_def c)
  moreover have "chan qdemo (Reverse 0) \<noteq> None"
    by (simp add: c demo_def start_def init_queues_def init_packets_def Let_def strategy_workers_def two_stages_def)
  ultimately show ?thesis using process_reverse_commit_queue_terminates by blast
qed

text \<open>More rounds than the queue holds packets make no difference to the loop over incoming packets.\<close>

lemma incoming_packet_rep:
  assumes r: "incoming_packet mm src w p s = Inr (b, s')" and rep: "chans_rep s L" and c: "chan s (Ucvf src w) = Some q"
  shows "\<exists>k. chans_rep s' (L(Ucvf src w := drop k (L (Ucvf src w)))) \<and> chan s' (Ucvf src w) \<noteq> None"
proof -
  let ?c = "Ucvf src w"
  have keep: "L(?c := drop 0 (L ?c)) = L" by simp
  have frame: "chans_rep u L' \<Longrightarrow> chan u ?c \<noteq> None \<Longrightarrow> chan v = chan u \<Longrightarrow> chans_rep v L' \<and> chan v ?c \<noteq> None" for u v :: "'a sep_state_scheme" and L'
    by (simp add: chans_rep_def)
  have one: "\<exists>k. chans_rep v (L(?c := drop k (L ?c))) \<and> chan v ?c \<noteq> None"
    if cc: "chan_consume ?c s = Inr (x, t)" and cv: "chan v = chan t" for x and t v :: "'a sep_state_scheme"
  proof -
    obtain vs where vs: "L ?c = x # vs" "chans_rep t (L(?c := vs))" using chan_consume_ok[OF rep cc] by blast
    have "chan t ?c \<noteq> None" using cc c by (auto simp: chan_consume_def rbind_eq_Inr)
    then show ?thesis using frame[OF vs(2) _ cv] vs(1) by (intro exI[of _ 1]) simp
  qed
  have zero: "\<exists>k. chans_rep v (L(?c := drop k (L ?c))) \<and> chan v ?c \<noteq> None" if cv: "chan v = chan s" for v :: "'a sep_state_scheme"
    using frame[OF rep _ cv] c keep by (intro exI[of _ 0]) simp
  let ?p = "packets s p"
  from r obtain t where t: "s' = mark_consumed p t" and
    r': "(case pkind ?p of
         NORMAL \<Rightarrow> rbind (chan_consume (Ucvf src w) s) (\<lambda>(q, s). Inr (False, update_normal_packet p q s))
       | SUPER \<Rightarrow>
           if is_write ?p = check_num CHECK_RO_PAGE
           then Inr (False, mark_packet_chunk_read (GET_MY_STAGE s w) (pval ?p) s)
           else rbind (chan_consume (Ucvf src w) s) (\<lambda>(q, s). Inr (False, update_super_packet (GET_MY_STAGE s w) p q s))
       | EOI \<Rightarrow> Inr (True, s)
       | MISSPEC \<Rightarrow> Inr (True, s)
       | EOW \<Rightarrow> Inr (True, s)
       | ALLOC \<Rightarrow>
           if psize ?p = 0
           then rbind (replay_chunk mm src (pval ?p) s) (\<lambda>s.
                  Inr (False, mark_packet_chunk_read (GET_MY_STAGE s w) (pval (packets s p)) s))
           else Inr (False, s)
       | FREE \<Rightarrow> Inr (False, update_ver_free src (ptr ?p) s)
       | BOI \<Rightarrow> Inr (False, s)) = Inr (b, t)"
    unfolding incoming_packet_def rbind_eq_Inr by auto
  have ct: "chan s' = chan t" by (simp add: t mark_consumed_def)
  note chan_defs = update_normal_packet_def update_super_packet_def mark_consumed_def mark_packet_chunk_read_def Let_def
  show ?thesis
  proof (cases "pkind ?p")
    case NORMAL
    then obtain x u where "chan_consume ?c s = Inr (x, u)" "chan t = chan u"
      using r' by (auto simp: rbind_eq_Inr chan_defs)
    then show ?thesis using one ct by metis
  next
    case SUPER
    show ?thesis
    proof (cases "is_write ?p = check_num CHECK_RO_PAGE")
      case True
      then show ?thesis using r' SUPER by (intro zero) (auto simp: ct chan_defs)
    next
      case False
      then obtain x u where "chan_consume ?c s = Inr (x, u)" "chan t = chan u"
        using r' SUPER by (auto simp: rbind_eq_Inr chan_defs)
      then show ?thesis using one ct by metis
    qed
  next
    case ALLOC
    then have "chan t = chan s"
      using r' by (auto simp: rbind_eq_Inr chan_defs shared_eq_def split: if_splits dest!: replay_chunk_shared)
    then show ?thesis by (intro zero) (simp add: ct)
  qed (use r' in \<open>(intro zero, simp add: ct update_ver_free_def)+\<close>)
qed

lemma incoming_drain:
  assumes "chans_rep s L" "chan s (Ucvf src w) = Some q" "length (L (Ucvf src w)) < n"
  shows "incoming_loop (n + m) mm src w s = incoming_loop n mm src w s"
  using assms
proof (induction n arbitrary: s L q)
  case (Suc n)
  let ?c = "Ucvf src w"
  show ?case
  proof (cases "L ?c")
    case Nil
    then show ?thesis using chan_consume_cases(1)[OF Suc.prems(1,2)] by simp
  next
    case (Cons p ps)
    obtain t where t: "chan_consume ?c s = Inr (p, t)" "chans_rep t (L(?c := ps))" "\<forall>d. chan t d = None \<longleftrightarrow> chan s d = None"
      using chan_consume_cases(2)[OF Suc.prems(1,2) Cons] by blast
    then obtain q' where q': "chan t ?c = Some q'" using Suc.prems(2) by (metis not_None_eq)
    show ?thesis
    proof (cases "incoming_packet mm src w p t")
      case (Inl e)
      then show ?thesis using t(1) by simp
    next
      case (Inr r)
      obtain b u where r: "r = (b, u)" by (cases r)
      obtain k q2 where k: "chans_rep u ((L(?c := ps))(?c := drop k ((L(?c := ps)) ?c)))" "chan u ?c = Some q2"
        using incoming_packet_rep[OF Inr[unfolded r] t(2) q'] by auto
      have "incoming_loop (n + m) mm src w u = incoming_loop n mm src w u"
        by (rule Suc.IH[OF k]) (use Cons Suc.prems(3) in simp)
      then show ?thesis using t(1) Inr r by simp
    qed
  qed
qed simp

subsection \<open>Pairs of packets are applied in order\<close>

text \<open>What a pair does to memory: a word or a page, and its metadata.\<close>

definition valid_pair :: "'a comm_state_scheme \<Rightarrow> addr \<times> addr \<Rightarrow> bool" where
  "valid_pair s pq \<longleftrightarrow> pkind (packets s (fst pq)) = NORMAL \<or>
     pkind (packets s (fst pq)) = SUPER \<and> is_write (packets s (fst pq)) \<noteq> check_num CHECK_RO_PAGE"

definition pair_effect :: "'a comm_state_scheme \<Rightarrow> addr \<times> addr \<Rightarrow> mem \<Rightarrow> mem" where
  "pair_effect s pq m =
     (let p = packets s (fst pq); q = packets s (snd pq)
      in if pkind p = NORMAL then merged (ptr p) (lane (pval p)) (lane (pval q)) 8 m
         else merged (ptr p) (cdata (chunks s (pval p))) (cdata (chunks s (pval q))) PAGE_SIZE m)"

definition pair_list :: "(addr \<times> addr) list \<Rightarrow> addr list" where
  "pair_list prs = concat (map (\<lambda>pq. [fst pq, snd pq]) prs)"

lemma pair_list_simps [simp]: "pair_list [] = []" "pair_list (pq # prs) = fst pq # snd pq # pair_list prs"
  by (simp_all add: pair_list_def)

lemma cdata_mark [simp]: "cdata (chunks (mark_packet_chunk_read st c s) x) = cdata (chunks s x)"
  by (simp add: mark_packet_chunk_read_def)

lemma mark_read_other [simp]:
  "packets (mark_packet_chunk_read st c s) = packets s" "pmem (mark_packet_chunk_read st c (s :: 'a comm_state_scheme)) = pmem s"
  "chan (mark_packet_chunk_read st c (s :: 'a comm_state_scheme)) = chan s"
  by (simp_all add: mark_packet_chunk_read_def)

text \<open>What handling a pair leaves alone besides other packets: tables, chunk contents, which queues exist.\<close>

definition handled :: "addr set \<Rightarrow> 'a comm_state_scheme \<Rightarrow> 'a comm_state_scheme \<Rightarrow> bool" where
  "handled A s t \<longleftrightarrow> num_stages t = num_stages s \<and> stage2rep t = stage2rep s \<and> wid2stage t = wid2stage s \<and>
     stage2firstwid t = stage2firstwid s \<and> try_commit_begin t = try_commit_begin s \<and>
     (\<forall>d. chan t d = None \<longleftrightarrow> chan s d = None) \<and> (\<forall>x. x \<notin> A \<longrightarrow> packets t x = packets s x) \<and>
     (\<forall>x. cdata (chunks t x) = cdata (chunks s x))"

lemma handled_trans: "handled A s t \<Longrightarrow> handled B t u \<Longrightarrow> handled (A \<union> B) s u"
  by (simp add: handled_def)

lemma handled_chan: "handled A s t \<Longrightarrow> chan t d = None \<longleftrightarrow> chan s d = None"
  by (simp add: handled_def)

lemma handled_effect:
  assumes "handled A s t" "fst pq \<notin> A" "snd pq \<notin> A"
  shows "pair_effect t pq = pair_effect s pq" "valid_pair t pq = valid_pair s pq"
proof -
  have "packets t (fst pq) = packets s (fst pq)" "packets t (snd pq) = packets s (snd pq)"
      "\<forall>x. cdata (chunks t x) = cdata (chunks s x)" using assms by (simp_all add: handled_def)
  then show "pair_effect t pq = pair_effect s pq" "valid_pair t pq = valid_pair s pq"
    by (simp_all add: pair_effect_def[abs_def] valid_pair_def Let_def cong: if_cong)
qed

lemma handled_steps:
  "handled {} s (s\<lparr>chan := c, pmem := m\<rparr>) \<longleftrightarrow> (\<forall>d. c d = None \<longleftrightarrow> chan s d = None)"
  "handled A s t \<Longrightarrow> handled (insert p A) s (mark_consumed p t)"
  "handled A s t \<Longrightarrow> handled A s (mark_packet_chunk_read st ch t)"
  "handled A s t \<Longrightarrow> handled A s (t\<lparr>pmem := m\<rparr>)"
  by (auto simp: handled_def mark_consumed_def mark_packet_chunk_read_def)

text \<open>One pair: two packets are consumed, the effect is applied, the rest of the packets is kept.\<close>

lemma incoming_pair:
  assumes rep: "chans_rep s L" and c: "chan s (Ucvf src w) = Some q0" and L: "L (Ucvf src w) = p # q # ps"
    and v: "valid_pair s (p, q)"
  shows "\<exists>s' q1. incoming_loop (Suc n) mm src w s = incoming_loop n mm src w s' \<and> pmem s' = pair_effect s (p, q) (pmem s) \<and>
    chans_rep s' (L(Ucvf src w := ps)) \<and> chan s' (Ucvf src w) = Some q1 \<and>
    handled {p, q} s s'"
proof -
  let ?c = "Ucvf src w"
  obtain t where t: "chan_consume ?c s = Inr (p, t)" "chans_rep t (L(?c := q # ps))" "t = s\<lparr>chan := chan t\<rparr>"
      "\<forall>d. chan t d = None \<longleftrightarrow> chan s d = None"
    using chan_consume_cases(2)[OF rep c L] by blast
  have pt: "packets t = packets s" "chunks t = chunks s" "pmem t = pmem s" by (subst t(3), simp)+
  obtain q1 where q1: "chan t ?c = Some q1" using t(4) c by (metis not_None_eq)
  obtain u where u: "chan_consume ?c t = Inr (q, u)" "chans_rep u ((L(?c := q # ps))(?c := ps))" "u = t\<lparr>chan := chan u\<rparr>"
      "\<forall>d. chan u d = None \<longleftrightarrow> chan t d = None"
    using chan_consume_cases(2)[OF t(2) q1, of q ps] by auto
  have pu: "packets u = packets s" "chunks u = chunks s" "pmem u = pmem s" using pt by (subst u(3), simp)+
  obtain q2 where q2: "chan u ?c = Some q2" using u(4) q1 by (metis not_None_eq)
  let ?v = "mark_consumed p (if pkind (packets s p) = NORMAL then update_normal_packet p q u
      else update_super_packet (GET_MY_STAGE u w) p q u)"
  have "incoming_packet mm src w p t = Inr (False, ?v)"
    using v u(1) by (auto simp: incoming_packet_def valid_pair_def pt)
  then have "incoming_loop (Suc n) mm src w s = incoming_loop n mm src w ?v" using t(1) by simp
  moreover have "pmem ?v = pair_effect s (p, q) (pmem s)"
    by (simp add: mark_consumed_def update_normal_packet_def update_super_packet_def Let_def pair_effect_def pu
        update_normal_merged update_page_merged)
  moreover have "chan ?v = chan u"
    by (simp add: mark_consumed_def update_normal_packet_def update_super_packet_def Let_def)
  moreover have "handled {p, q} s ?v"
  proof -
    have "u = s\<lparr>chan := chan u, pmem := pmem u\<rparr>" using t(3) u(3) pu by (metis comm_state.surjective comm_state.update_convs(1,4))
    then have "handled {} s u" using handled_steps(1)[of s "pmem u" "chan u"] t(4) u(4) by simp
    from handled_steps(2)[OF handled_steps(3)[OF handled_steps(3)[OF handled_steps(4)[OF this]]], of q]
    have "handled {q} s (update_super_packet (GET_MY_STAGE u w) p q u)"
      by (simp add: update_super_packet_def Let_def)
    moreover have "handled {q} s (update_normal_packet p q u)"
      using handled_steps(4)[OF \<open>handled {} s u\<close>] by (simp add: update_normal_packet_def handled_def)
    ultimately show ?thesis by (auto intro: handled_steps(2))
  qed
  moreover have "chans_rep ?v (L(?c := ps))" using u(2) \<open>chan ?v = chan u\<close> by (simp add: chans_rep_def)
  ultimately show ?thesis using q2 by (intro exI[of _ ?v] exI[of _ q2]) simp
qed

lemma incoming_pairs:
  assumes "chans_rep s L" "chan s (Ucvf src w) = Some q0" "L (Ucvf src w) = pair_list prs @ e # rest"
    and "\<forall>pq \<in> set prs. valid_pair s pq" "pkind (packets s e) = EOI" "distinct (pair_list prs @ [e])" "length prs < n"
  shows "\<exists>s'. incoming_loop n mm src w s = Inr s' \<and> pmem s' = fold (pair_effect s) prs (pmem s) \<and>
    chans_rep s' (L(Ucvf src w := rest)) \<and> handled (set (pair_list prs @ [e])) s s'"
  using assms
proof (induction prs arbitrary: s L n q0)
  case Nil
  let ?c = "Ucvf src w"
  obtain t where t: "chan_consume ?c s = Inr (e, t)" "chans_rep t (L(?c := rest))" "t = s\<lparr>chan := chan t\<rparr>"
      "\<forall>d. chan t d = None \<longleftrightarrow> chan s d = None"
    using chan_consume_cases(2)[OF Nil.prems(1,2), of e rest] Nil.prems(3) by auto
  have pt: "packets t = packets s" "pmem t = pmem s" by (subst t(3), simp)+
  obtain n' where n: "n = Suc n'" using Nil.prems(7) by (cases n) auto
  have r: "chans_rep (mark_consumed e t) (L(?c := rest))" using t(2) by (simp add: chans_rep_def mark_consumed_def)
  have "handled {} s t" by (subst t(3)) (simp add: handled_def t(4))
  then have h: "handled (set (pair_list [] @ [e])) s (mark_consumed e t)" using handled_steps(2) by fastforce
  have "incoming_loop n mm src w s = Inr (mark_consumed e t)" using t(1) Nil.prems(5) n pt by (simp add: incoming_packet_def)
  moreover have "pmem (mark_consumed e t) = fold (pair_effect s) [] (pmem s)" using pt by (simp add: mark_consumed_def)
  ultimately show ?case using r h by blast
next
  case (Cons pq prs)
  let ?c = "Ucvf src w"
  obtain p q where pq: "pq = (p, q)" by (cases pq)
  obtain n' where n: "n = Suc n'" "length prs < n'" using Cons.prems(7) by (cases n) auto
  from incoming_pair[OF Cons.prems(1,2), of p q "pair_list prs @ e # rest" n' mm] Cons.prems(3,4) pq
  obtain s' q1 where s': "incoming_loop (Suc n') mm src w s = incoming_loop n' mm src w s'"
      "pmem s' = pair_effect s (p, q) (pmem s)" "chans_rep s' (L(?c := pair_list prs @ e # rest))" "chan s' ?c = Some q1"
      "handled {p, q} s s'"
    by auto
  have mem: "fst r \<notin> {p, q}" "snd r \<notin> {p, q}" if "r \<in> set prs" for r
    using Cons.prems(6) pq that by (auto simp: pair_list_def)
  note eff = handled_effect[OF s'(5) mem]
  have ek: "pkind (packets s' e) = EOI" using s'(5) Cons.prems(5,6) pq by (auto simp: handled_def)
  have f: "fold (pair_effect s') prs m = fold (pair_effect s) prs m" for m
    by (rule fold_cong) (use eff in auto)
  have p: "(L(?c := pair_list prs @ e # rest)) ?c = pair_list prs @ e # rest" "\<forall>pq \<in> set prs. valid_pair s' pq"
      "distinct (pair_list prs @ [e])" using Cons.prems(4,6) eff by auto
  from Cons.IH[OF s'(3,4) p(1,2) ek p(3) n(2), unfolded fun_upd_upd] obtain s'' where s'': "incoming_loop n' mm src w s' = Inr s''" "pmem s'' = fold (pair_effect s') prs (pmem s')"
      "chans_rep s'' (L(?c := rest))" "handled (set (pair_list prs @ [e])) s' s''"
    by blast
  have "handled (set (pair_list (pq # prs) @ [e])) s s''"
    using handled_trans[OF s'(5) s''(4)] pq by (simp add: insert_commute)
  moreover have "incoming_loop n mm src w s = Inr s''" unfolding n(1) s'(1) by (rule s''(1))
  moreover have "pmem s'' = fold (pair_effect s) (pq # prs) (pmem s)" using s'(2) s''(2) pq f by simp
  ultimately show ?case using s''(3) by blast
qed

lemma incoming_applied:
  assumes rep: "chans_rep s L" and w: "w < try_commit_begin s"
    and src: "\<forall>i < GET_MY_STAGE s w. src i = GET_FIRST_WID_OF_STAGE s i + wid_of_iter iter mod GET_REPLICATION_FACTOR s i"
    and q: "\<forall>i < GET_MY_STAGE s w. chan s (Ucvf (src i) w) \<noteq> None \<and> L (Ucvf (src i) w) = pair_list (prs i) @ e i # rest i"
    and v: "\<forall>i < GET_MY_STAGE s w. (\<forall>pq \<in> set (prs i). valid_pair s pq) \<and> pkind (packets s (e i)) = EOI"
    and d: "distinct (concat (map (\<lambda>i. pair_list (prs i) @ [e i]) [0..<GET_MY_STAGE s w]))"
    and inj: "\<forall>i < GET_MY_STAGE s w. \<forall>j < GET_MY_STAGE s w. src i = src j \<longrightarrow> i = j"
  shows "\<exists>s'. process_incoming_packets mm w iter s = Inr s' \<and>
    pmem s' = fold (\<lambda>i. fold (pair_effect s) (prs i)) [0..<GET_MY_STAGE s w] (pmem s) \<and>
    (\<exists>L'. chans_rep s' L' \<and> (\<forall>i < GET_MY_STAGE s w. L' (Ucvf (src i) w) = rest i) \<and>
       (\<forall>c. (\<forall>i < GET_MY_STAGE s w. c \<noteq> Ucvf (src i) w) \<longrightarrow> L' c = L c))"
proof -
  let ?S = "GET_MY_STAGE s w"
  let ?A = "\<lambda>k. set (concat (map (\<lambda>i. pair_list (prs i) @ [e i]) [0..<k]))"
  let ?F = "\<lambda>i t. incoming_loop drain_fuel mm (GET_FIRST_WID_OF_STAGE t i + wid_of_iter iter mod GET_REPLICATION_FACTOR t i) w t"
  have "\<exists>s'. rfold ?F [0..<k] s = Inr s' \<and> pmem s' = fold (\<lambda>i. fold (pair_effect s) (prs i)) [0..<k] (pmem s) \<and>
      handled (?A k) s s' \<and> (\<exists>L'. chans_rep s' L' \<and> (\<forall>i < k. L' (Ucvf (src i) w) = rest i) \<and>
        (\<forall>c. (\<forall>i < k. c \<noteq> Ucvf (src i) w) \<longrightarrow> L' c = L c))" if "k \<le> ?S" for k
    using that
  proof (induction k)
    case 0
    have "handled {} s s" by (simp add: handled_def)
    then show ?case using rep by auto
  next
    case (Suc k)
    then have k: "k < ?S" by simp
    from Suc.IH[OF less_imp_le[OF k]] obtain t L' where t: "rfold ?F [0..<k] s = Inr t" "pmem t = fold (\<lambda>i. fold (pair_effect s) (prs i)) [0..<k] (pmem s)"
        "handled (?A k) s t" and L': "chans_rep t L'" "\<forall>i < k. L' (Ucvf (src i) w) = rest i"
        "\<forall>c. (\<forall>i < k. c \<noteq> Ucvf (src i) w) \<longrightarrow> L' c = L c" by blast
    let ?c = "Ucvf (src k) w"
    have ne: "\<forall>i < k. ?c \<noteq> Ucvf (src i) w" using inj k by (metis chan.inject(1) less_trans nat_neq_iff)
    have Lc: "L' ?c = pair_list (prs k) @ e k # rest k" using L'(3) ne q k by simp
    have "chan t ?c \<noteq> None" using handled_chan[OF t(3)] q k by simp
    then obtain q0 where q0: "chan t ?c = Some q0" by blast
    have src_t: "GET_FIRST_WID_OF_STAGE t k + wid_of_iter iter mod GET_REPLICATION_FACTOR t k = src k"
      using src k t(3) by (simp add: handled_def get_defs)
    have split: "[0..<?S] = [0..<k] @ k # [Suc k..<?S]" using upt_add_eq_append[of 0 k "?S - k"] k by (simp add: upt_conv_Cons)
    have dk: "distinct (pair_list (prs k) @ [e k])" "?A k \<inter> set (pair_list (prs k) @ [e k]) = {}"
      using d unfolding split by auto
    have mem: "fst r \<notin> ?A k" "snd r \<notin> ?A k" if "r \<in> set (prs k)" for r
    proof -
      have "fst r \<in> set (pair_list (prs k))" "snd r \<in> set (pair_list (prs k))" using that by (auto simp: pair_list_def)
      then show "fst r \<notin> ?A k" "snd r \<notin> ?A k" using dk(2) by auto
    qed
    note eff = handled_effect[OF t(3) mem]
    have ek: "pkind (packets t (e k)) = EOI" using t(3) v k dk(2) by (auto simp: handled_def)
    have vk: "\<forall>pq \<in> set (prs k). valid_pair t pq" using v k eff by blast
    have len: "length (prs k) < drain_fuel"
    proof -
      have "length (pair_list xs) = 2 * length xs" for xs by (induction xs) simp_all
      then have "length (prs k) \<le> length (L' ?c)" using Lc by simp
      then show ?thesis using chan_nonempty(2)[OF L'(1) q0] slots_pos by (simp add: drain_fuel_def)
    qed
    from incoming_pairs[OF L'(1) q0 Lc vk ek dk(1) len, of mm]
    obtain u where u: "incoming_loop drain_fuel mm (src k) w t = Inr u" "pmem u = fold (pair_effect t) (prs k) (pmem t)"
        "chans_rep u (L'(?c := rest k))" "handled (set (pair_list (prs k) @ [e k])) t u" by blast
    have f: "fold (pair_effect t) (prs k) m = fold (pair_effect s) (prs k) m" for m
      by (rule fold_cong) (use eff in auto)
    have "rfold ?F [0..<Suc k] s = Inr u" using t(1) u(1) src_t by (simp add: rfold_append)
    moreover have "pmem u = fold (\<lambda>i. fold (pair_effect s) (prs i)) [0..<Suc k] (pmem s)" using u(2) t(2) f by simp
    moreover have "handled (?A (Suc k)) s u" using handled_trans[OF t(3) u(4)] by simp
    moreover have "\<forall>i < Suc k. (L'(?c := rest k)) (Ucvf (src i) w) = rest i" using L'(2) ne by (auto simp: less_Suc_eq)
    moreover have "\<forall>c. (\<forall>i < Suc k. c \<noteq> Ucvf (src i) w) \<longrightarrow> (L'(?c := rest k)) c = L c" using L'(3) by auto
    ultimately show ?case using u(3) by blast
  qed
  from this[of ?S] show ?thesis using w unfolding process_incoming_packets_def by auto
qed

text \<open>
  C17. Values forwarded by earlier stages are applied completely and in order: if every earlier stage has
  sent, for the iteration, a sequence of page and word pairs followed by its end-of-iteration packet
  (all in distinct packets), then \<open>process_incoming_packets\<close> returns, the memory of the worker is the old
  memory with the written bytes of all pairs merged in, stage after stage in the order sent, and the
  queues hold what was sent after the end-of-iteration packets.
\<close>

theorem incoming_values_applied:
  assumes rep: "chans_rep s L" and w: "w < try_commit_begin s"
    and src: "\<forall>i < GET_MY_STAGE s w. src i = GET_FIRST_WID_OF_STAGE s i + wid_of_iter iter mod GET_REPLICATION_FACTOR s i"
    and q: "\<forall>i < GET_MY_STAGE s w. chan s (Ucvf (src i) w) \<noteq> None \<and> L (Ucvf (src i) w) = pair_list (prs i) @ e i # rest i"
    and v: "\<forall>i < GET_MY_STAGE s w. (\<forall>pq \<in> set (prs i). valid_pair s pq) \<and> pkind (packets s (e i)) = EOI"
    and d: "distinct (concat (map (\<lambda>i. pair_list (prs i) @ [e i]) [0..<GET_MY_STAGE s w]))"
    and inj: "\<forall>i < GET_MY_STAGE s w. \<forall>j < GET_MY_STAGE s w. src i = src j \<longrightarrow> i = j"
  shows "\<exists>s'. process_incoming_packets mm w iter s = Inr s' \<and>
    pmem s' = fold (\<lambda>i. fold (pair_effect s) (prs i)) [0..<GET_MY_STAGE s w] (pmem s) \<and>
    (\<exists>L'. chans_rep s' L' \<and> (\<forall>i < GET_MY_STAGE s w. L' (Ucvf (src i) w) = rest i) \<and>
       (\<forall>c. (\<forall>i < GET_MY_STAGE s w. c \<noteq> Ucvf (src i) w) \<longrightarrow> L' c = L c))"
  by (rule incoming_applied[OF assms])

subsection \<open>A concrete queue\<close>

lemma queue_holding: "length xs \<le> slots \<Longrightarrow> \<exists>q. sw_repr q xs"
  using swq.produce_all_room[OF swq.create_repr, of xs] by auto

lemma qdemo_tables [simp]:
  "try_commit_begin qdemo = 2" "num_stages qdemo = 2" "GET_MY_STAGE qdemo (Suc 0) = 1" "GET_MY_STAGE qdemo 0 = 0"
  "GET_FIRST_WID_OF_STAGE qdemo 0 = 0" "GET_REPLICATION_FACTOR qdemo 0 = 1" "chan qdemo = chan (demo (\<lambda>_. 0))"
  by (simp_all add: qdemo_def prot_state.defs pred_state.defs pdemo_def run_state.defs rdemo_def sep_state.defs sdemo_def
      malloc_state.defs mdemo_def comm_state.defs ver_malloc_init_def Let_def demo_def start_def init_queues_def init_packets_def
      strategy_workers_def two_stages_def get_defs)

definition word_pair :: "addr \<Rightarrow> packet" where
  "word_pair a = (if a = 0x100 then zero_packet\<lparr>ptr := 0x9000, pval := 0x55, psize := 8, is_write := 1\<rparr>
     else if a = 0x120 then zero_packet\<lparr>pval := 2, psize := 8, is_write := 1\<rparr>
     else zero_packet\<lparr>ptr := 0xDEADBEEF, pkind := EOI\<rparr>)"

theorem incoming_values_applied_witness:
  "\<exists>q s'. process_incoming_packets (\<lambda>_. True) 1 0
      (qdemo\<lparr>chan := (chan qdemo)(Ucvf 0 1 \<mapsto> q), packets := word_pair\<rparr>) = Inr s' \<and> pmem s' 0x9000 = 0x55"
proof -
  obtain q where q: "sw_repr q [0x100, 0x120, 0x140]" using queue_holding[of "[0x100, 0x120, 0x140]"] by (auto simp: QUEUE_SIZE_def)
  let ?s = "qdemo\<lparr>chan := (chan qdemo)(Ucvf 0 1 \<mapsto> q), packets := word_pair\<rparr>"
  let ?L = "(\<lambda>_. [])(Ucvf 0 1 := [0x100, 0x120, 0x140 :: addr])"
  have "chans_rep qdemo (\<lambda>_. [])" using demo_ok(3)[of "\<lambda>_. 0"] by (simp add: chans_rep_def)
  from chans_rep_upd[OF this q, of "Ucvf 0 1"] have rep: "chans_rep ?s ?L" by (simp add: chans_rep_def)
  have w: "1 < try_commit_begin ?s" by simp
  have st: "GET_MY_STAGE ?s 1 = 1" using qdemo_tables(3) by (simp add: get_defs)
  have e: "\<exists>s'. process_incoming_packets (\<lambda>_. True) 1 0 ?s = Inr s' \<and>
      pmem s' = fold (\<lambda>i. fold (pair_effect ?s) [(0x100, 0x120)]) [0..<GET_MY_STAGE ?s 1] (pmem ?s) \<and>
      (\<exists>L'. chans_rep s' L' \<and> (\<forall>i < GET_MY_STAGE ?s 1. L' (Ucvf 0 1) = []) \<and>
       (\<forall>c. (\<forall>i < GET_MY_STAGE ?s 1. c \<noteq> Ucvf 0 1) \<longrightarrow> L' c = ?L c))"
    by (rule incoming_values_applied[OF rep w, where src = "\<lambda>_. 0" and e = "\<lambda>_. 0x140"])
       (use qdemo_tables(3,5,6) in \<open>simp_all add: st get_defs pair_list_def valid_pair_def word_pair_def zero_packet_def\<close>)
  then obtain s' where s': "process_incoming_packets (\<lambda>_. True) 1 0 ?s = Inr s'"
      "pmem s' = pair_effect ?s (0x100, 0x120) (pmem ?s)" unfolding st by auto
  have "lane (2 :: 64 word) 0 = 2" "lane (0x55 :: 64 word) 0 = 0x55" "bit (2 :: byte) (Suc 0)" by (simp_all add: lane_def)
  then have "pmem s' 0x9000 = 0x55" by (simp add: s'(2) pair_effect_def word_pair_def zero_packet_def merged_def)
  with s'(1) show ?thesis by blast
qed

end
