(* ===== verification/Try_Commit.thy ===== *)
theory Try_Commit
  imports Incoming
begin

unbundle bit_operations_syntax

section \<open>The try-commit unit\<close>

text \<open>
  Models \<open>try_commit\<close>, \<open>buffer_packet\<close> and \<open>forward_values_to_commit\<close> of \<open>smtx/units.cpp\<close>. A unit
  receives, iteration by iteration and stage by stage, what the workers sent for its pages; it validates
  the pairs that ask for it, buffers them, and at the end of the iteration sends the buffered packets on
  to the commit process.

  The buffer is the list of packets up to \<open>buf_index\<close>. A call of \<open>misspec\<close> ends the process; what
  follows it in the source is \<open>assert( false )\<close>. Rounds of the packet loop are bounded as in \<open>Incoming\<close>;
  \<open>try_commit\<close> takes the number of iterations to run as fuel, \<open>Spin\<close> when it is used up.
\<close>

definition forward_values_to_commit :: "wid \<Rightarrow> packet list \<Rightarrow> 'a comm_state_scheme \<Rightarrow> 'a comm_state_scheme res" where
  "forward_values_to_commit wid buf s =
     (if \<not> wid \<ge> try_commit_begin s then Inl AssertFailed
      else let c = ToCommit (wid - try_commit_begin s)
           in rfold (\<lambda>p. send wid (ptr p) (pval p) (psize p) (is_write p) (pkind p) c) buf s)"

definition buffer_packet :: "addr \<Rightarrow> packet list \<times> 'a run_state_scheme \<Rightarrow> (packet list \<times> 'a run_state_scheme) res" where
  "buffer_packet p bs =
     (case bs of (buf, s) \<Rightarrow>
        rbind (if length buf = PACKET_POOL_SIZE
               then rbind (forward_values_to_commit (my_wid s) buf s) (\<lambda>s. Inr ([], s))
               else Inr (buf, s)) (\<lambda>(buf, s).
          Inr (buf @ [packets s p], s)))"

subsection \<open>One packet\<close>

datatype unit_status = Going | Done | Misspec

text \<open>The buffer, \<open>terminated_iter\<close> and the state of the unit.\<close>

type_synonym 'a unit_run = "packet list \<times> iteration \<times> 'a pred_state_scheme"

definition fail_validation :: "'a pred_state_scheme \<Rightarrow> ('a pred_state_scheme, 'b) outcome res" where
  "fail_validation s = xbind (misspec ''try-commit failed'' s) (\<lambda>_. Inl AssertFailed)"

definition buffer_pair :: "addr \<Rightarrow> addr \<Rightarrow> 'a unit_run \<Rightarrow> ('a pred_state_scheme, unit_status \<times> 'a unit_run) outcome res" where
  "buffer_pair p shadow_p r =
     (case r of (buf, term, s) \<Rightarrow>
        xlift (rbind (buffer_packet p (buf, s)) (\<lambda>bs. rbind (buffer_packet shadow_p bs) (\<lambda>(buf, s).
          Inr (Going, buf, term, mark_consumed shadow_p s)))))"

definition try_normal :: "nat \<Rightarrow> wid \<Rightarrow> addr \<Rightarrow> 'a unit_run \<Rightarrow> ('a pred_state_scheme, unit_status \<times> 'a unit_run) outcome res" where
  "try_normal i source p r =
     (case r of (buf, term, s) \<Rightarrow>
        xbind (xlift (chan_consume (ToTry source (my_wid s - try_commit_begin s)) s)) (\<lambda>(shadow_p, s).
          let pk = packets s p in
          if is_write pk = check_num CHECK_REQUIRED then
            xbind (xlift (check_packet s (ptr pk) (pval pk) (pval (packets s shadow_p)) (psize pk) i (pmem s))) (\<lambda>(ok, m).
              let s = s\<lparr>pmem := m\<rparr> in
              if \<not> ok then fail_validation s else buffer_pair p shadow_p (buf, term, s))
          else buffer_pair p shadow_p (buf, term, s)))"

text \<open>The pages named in a read-only page are checked and the results (\<open>checks\<close>) ignored.\<close>

definition try_super :: "nat \<Rightarrow> wid \<Rightarrow> addr \<Rightarrow> 'a unit_run \<Rightarrow> ('a pred_state_scheme, unit_status \<times> 'a unit_run) outcome res" where
  "try_super i source p r =
     (case r of (buf, term, s) \<Rightarrow>
        if is_write (packets s p) = check_num CHECK_RO_PAGE
        then let pages = cdata (chunks s (pval (packets s p)));
                 checks = map (\<lambda>k. check_ro_page s (arr64 pages (8 * k)) i (pmem s)) [0..<PAGE_SIZE div 8]
             in Inr (Cont (Going, buf, term, mark_packet_chunk_read 0 (pval (packets s p)) s))
        else xbind (xlift (chan_consume (ToTry source (my_wid s - try_commit_begin s)) s)) (\<lambda>(shadow_p, s).
          let pk = packets s p in
          if is_write pk = check_num CHECK_REQUIRED then
            case check_page s (ptr pk) (cdata (chunks s (pval pk))) (cdata (chunks s (pval (packets s shadow_p)))) i (pmem s) of
              (ok, m) \<Rightarrow>
                let s = s\<lparr>pmem := m\<rparr> in
                if \<not> ok then fail_validation s else buffer_pair p shadow_p (buf, term, s)
          else buffer_pair p shadow_p (buf, term, s)))"

definition try_boi :: "(64 word \<Rightarrow> iteration \<Rightarrow> 64 word \<Rightarrow> 64 word) \<Rightarrow> (64 word \<Rightarrow> 32 word) \<Rightarrow> 'a unit_run \<Rightarrow>
    ('a pred_state_scheme, unit_status \<times> 'a unit_run) outcome res" where
  "try_boi fp fl r =
     (case r of (buf, term, s) \<Rightarrow>
        xbind (xlift (verify_loop_invariants s)) (\<lambda>ok.
          if \<not> ok then fail_validation s
          else xbind (xlift (verify_linear_predicted_values fp fl s)) (\<lambda>ok.
            if \<not> ok then fail_validation s else Inr (Cont (Going, buf, term, s)))))"

definition try_packet :: "(addr \<Rightarrow> bool) \<Rightarrow> (64 word \<Rightarrow> iteration \<Rightarrow> 64 word \<Rightarrow> 64 word) \<Rightarrow> (64 word \<Rightarrow> 32 word) \<Rightarrow> nat \<Rightarrow> wid \<Rightarrow>
    addr \<Rightarrow> 'a unit_run \<Rightarrow> ('a pred_state_scheme, unit_status \<times> 'a unit_run) outcome res" where
  "try_packet mm fp fl i source p r =
     (case r of (buf, term, s) \<Rightarrow>
      let my_id = my_wid s - try_commit_begin s; iter = current_iteration s in
      xbind (case pkind (packets s p) of
          NORMAL \<Rightarrow> try_normal i source p r
        | SUPER \<Rightarrow> try_super i source p r
        | BOI \<Rightarrow> try_boi fp fl r
        | EOI \<Rightarrow> xlift (rbind (buffer_packet p (buf, s)) (\<lambda>(buf, s). Inr (Done, buf, term, s)))
        | MISSPEC \<Rightarrow> Inr (Cont (Misspec, buf, term, s))
        | EOW \<Rightarrow>
            if term \<noteq> -1 \<and> term \<noteq> iter then Inl AssertFailed
            else xlift (rbind (if i = GET_NUM_STAGES s - 1 then buffer_packet p (buf, s) else Inr (buf, s)) (\<lambda>(buf, s).
                   Inr (Done, buf, iter, s)))
        | ALLOC \<Rightarrow>
            xlift (rbind (if my_id = 0 then buffer_packet p (buf, s) else Inr (buf, s)) (\<lambda>(buf, s).
                   rbind (if psize (packets s p) = 0 then replay_chunk mm source (pval (packets s p)) s else Inr s) (\<lambda>s.
                     Inr (Going, buf, term, s))))
        | FREE \<Rightarrow>
            xlift (rbind (if my_id = 0 then buffer_packet p (buf, s) else Inr (buf, s)) (\<lambda>(buf, s).
                     Inr (Going, buf, term, update_ver_free source (ptr (packets s p)) s))))
        (\<lambda>(st, buf, term, s). Inr (Cont (st, buf, term, mark_consumed p s))))"

subsection \<open>One stage, one iteration, the unit\<close>

fun try_stage_loop :: "nat \<Rightarrow> (addr \<Rightarrow> bool) \<Rightarrow> (64 word \<Rightarrow> iteration \<Rightarrow> 64 word \<Rightarrow> 64 word) \<Rightarrow> (64 word \<Rightarrow> 32 word) \<Rightarrow> nat \<Rightarrow> wid \<Rightarrow>
    'a unit_run \<Rightarrow> ('a pred_state_scheme, bool \<times> 'a unit_run) outcome res" where
  "try_stage_loop 0 mm fp fl i source r = Inl Spin"
| "try_stage_loop (Suc n) mm fp fl i source (buf, term, s) =
     xbind (xlift (chan_consume (ToTry source (my_wid s - try_commit_begin s)) s)) (\<lambda>(p, s).
     xbind (try_packet mm fp fl i source p (buf, term, s)) (\<lambda>(st, r).
       case st of Done \<Rightarrow> Inr (Cont (False, r)) | Misspec \<Rightarrow> Inr (Cont (True, r))
         | Going \<Rightarrow> try_stage_loop n mm fp fl i source r))"

text \<open>The stages in order; \<open>True\<close> as first component: some stage misspeculated.\<close>

fun try_stages :: "(addr \<Rightarrow> bool) \<Rightarrow> (64 word \<Rightarrow> iteration \<Rightarrow> 64 word \<Rightarrow> 64 word) \<Rightarrow> (64 word \<Rightarrow> 32 word) \<Rightarrow> nat list \<Rightarrow>
    'a unit_run \<Rightarrow> ('a pred_state_scheme, bool \<times> 'a unit_run) outcome res" where
  "try_stages mm fp fl [] r = Inr (Cont (False, r))"
| "try_stages mm fp fl (i # is) (buf, term, s) =
     xbind (try_stage_loop drain_fuel mm fp fl i
              (GET_FIRST_WID_OF_STAGE s i + wid_of_iter (current_iteration s) mod GET_REPLICATION_FACTOR s i) (buf, term, s))
       (\<lambda>(ms, r). if ms then Inr (Cont (True, r)) else try_stages mm fp fl is r)"

text \<open>One iteration; \<open>True\<close> as first component: the unit returns.\<close>

definition try_iteration :: "(addr \<Rightarrow> bool) \<Rightarrow> (64 word \<Rightarrow> iteration \<Rightarrow> 64 word \<Rightarrow> 64 word) \<Rightarrow> (64 word \<Rightarrow> 32 word) \<Rightarrow>
    'a pred_state_scheme \<Rightarrow> ('a pred_state_scheme, bool \<times> 'a pred_state_scheme) outcome res" where
  "try_iteration mm fp fl s =
     xbind (try_stages mm fp fl [0..<GET_NUM_STAGES s] ([], -1, s)) (\<lambda>(ms, buf, term, s).
       if ms then Inr (Cont (True, s))
       else xbind (xlift (forward_values_to_commit (my_wid s) buf s)) (\<lambda>s.
         if term \<noteq> -1 then Inr (Cont (True, s)) else Inr (Cont (False, advance_iter s))))"

fun try_commit :: "nat \<Rightarrow> (addr \<Rightarrow> bool) \<Rightarrow> (64 word \<Rightarrow> iteration \<Rightarrow> 64 word \<Rightarrow> 64 word) \<Rightarrow> (64 word \<Rightarrow> 32 word) \<Rightarrow>
    'a pred_state_scheme \<Rightarrow> ('a pred_state_scheme, 'a pred_state_scheme) outcome res" where
  "try_commit 0 mm fp fl s = Inl Spin"
| "try_commit (Suc n) mm fp fl s =
     xbind (try_iteration mm fp fl s) (\<lambda>(stop, s). if stop then Inr (Cont s) else try_commit n mm fp fl s)"

subsection \<open>A run of the unit that fails commits nothing\<close>

text \<open>The worker whose packets of stage \<open>i\<close> the unit reads in the current iteration.\<close>

definition source_of :: "'a run_state_scheme \<Rightarrow> nat \<Rightarrow> wid" where
  "source_of s i = GET_FIRST_WID_OF_STAGE s i + wid_of_iter (current_iteration s) mod GET_REPLICATION_FACTOR s i"

text \<open>Packets that wait for unit \<open>k\<close> in the queues of the current iteration.\<close>

definition waiting :: "'a run_state_scheme \<Rightarrow> nat \<Rightarrow> (chan \<Rightarrow> addr list) \<Rightarrow> nat" where
  "waiting s k L = (\<Sum>i < num_stages s. length (L (ToTry (source_of s i) k)))"

text \<open>
  \<open>unit_inv s0 k m buf s\<close>: since \<open>s0\<close> no queue to the commit process has changed, nor have the tables of the
  unit, and the buffer still has room for \<open>m\<close> packets in the hands of the unit and for all that wait.
\<close>

definition same_unit :: "'a run_state_scheme \<Rightarrow> 'a run_state_scheme \<Rightarrow> bool" where
  "same_unit s0 s \<longleftrightarrow> my_wid s = my_wid s0 \<and> try_commit_begin s = try_commit_begin s0 \<and> num_stages s = num_stages s0 \<and>
     stage2rep s = stage2rep s0 \<and> stage2firstwid s = stage2firstwid s0 \<and> current_iteration s = current_iteration s0"

definition same_commit :: "'a comm_state_scheme \<Rightarrow> 'a comm_state_scheme \<Rightarrow> bool" where
  "same_commit s0 s \<longleftrightarrow> (\<forall>j. chan s (ToCommit j) = chan s0 (ToCommit j))"

definition unit_inv :: "'a run_state_scheme \<Rightarrow> nat \<Rightarrow> nat \<Rightarrow> packet list \<Rightarrow> 'a run_state_scheme \<Rightarrow> bool" where
  "unit_inv s0 k m buf s \<longleftrightarrow> same_unit s0 s \<and> same_commit s0 s \<and>
     (\<exists>L. chans_rep s L \<and> length buf + m + waiting s0 k L \<le> PACKET_POOL_SIZE)"

lemma unit_inv_frame:
  assumes "unit_inv s0 k m buf s" "same_unit s t" "chan t = chan s" "m' \<le> m"
  shows "unit_inv s0 k m' buf t"
proof -
  from assms(1) obtain L where L: "chans_rep s L" "length buf + m + waiting s0 k L \<le> PACKET_POOL_SIZE"
    by (auto simp: unit_inv_def)
  have "chans_rep t L" using L(1) assms(3) by (simp add: chans_rep_def)
  moreover have "length buf + m' + waiting s0 k L \<le> PACKET_POOL_SIZE" using L(2) assms(4) by simp
  ultimately show ?thesis using assms(1-3) by (auto simp: unit_inv_def same_unit_def same_commit_def)
qed

lemma unit_inv_consume:
  assumes "unit_inv s0 k m buf s" "i < num_stages s0" "chan_consume (ToTry (source_of s0 i) k) s = Inr (p, t)"
  shows "unit_inv s0 k (Suc m) buf t \<and> packets t = packets s \<and> chunks t = chunks s"
proof -
  let ?c = "ToTry (source_of s0 i) k"
  from assms(1) obtain L where L: "chans_rep s L" "length buf + m + waiting s0 k L \<le> PACKET_POOL_SIZE"
    by (auto simp: unit_inv_def)
  obtain vs where vs: "L ?c = p # vs" "chans_rep t (L(?c := vs))" "same_rest s t" "chan t = (chan s)(?c := chan t ?c)"
    "packets t = packets s" "chunks t = chunks s"
    using chan_consume_ok[OF L(1) assms(3)] assms(3) by (auto simp: chan_consume_def rbind_eq_Inr same_rest_def split: option.splits)
  have "waiting s0 k (L(?c := vs)) < waiting s0 k L"
    unfolding waiting_def by (rule sum_strict_mono_ex1) (use assms(2) vs(1) in \<open>auto\<close>)
  then have "length buf + Suc m + waiting s0 k (L(?c := vs)) \<le> PACKET_POOL_SIZE" using L(2) by simp
  moreover have "same_commit s0 t" using assms(1) by (subst same_commit_def, subst vs(4)) (simp add: unit_inv_def same_commit_def)
  moreover have "same_unit s0 t"
    using assms(1) same_rest_run[OF vs(3)] same_restD[OF vs(3)] by (simp add: unit_inv_def same_unit_def)
  ultimately show ?thesis using vs unfolding unit_inv_def by blast
qed

lemma buffer_packet_ok:
  assumes "unit_inv s0 k (Suc m) buf s"
  shows "res_ok (\<lambda>(buf', s'). s' = s \<and> buf' = buf @ [packets s p] \<and> unit_inv s0 k m buf' s) (buffer_packet p (buf, s))"
proof -
  have "length buf < PACKET_POOL_SIZE" using assms by (auto simp: unit_inv_def)
  then show ?thesis using assms by (auto simp: buffer_packet_def unit_inv_def)
qed

text \<open>A unit that misspeculates only empties its own queues.\<close>

lemma clear_incoming_commit:
  assumes "clear_incoming_queues w s = Inr s'"
  shows "same_commit s s'"
proof (cases "w < try_commit_begin s")
  case True
  have "fold (\<lambda>i ch. ch(Ucvf i w := map_option sw_queue_clear (ch (Ucvf i w)))) xs c (ToCommit j) = c (ToCommit j)" for xs c j
    by (induction xs arbitrary: c) auto
  with assms True show ?thesis by (auto simp: clear_incoming_queues_def same_commit_def)
next
  case False
  let ?f = "\<lambda>i s. case chan s (ToTry i (w - try_commit_begin s)) of None \<Rightarrow> Inl OutOfRange
             | Some q \<Rightarrow> Inr (s\<lparr>chan := (chan s)(ToTry i (w - try_commit_begin s) \<mapsto> sw_queue_clear q)\<rparr>)"
  have "rfold ?f [0..<try_commit_begin s] s = Inr s'" using assms False by (simp add: clear_incoming_queues_def)
  then show ?thesis
    by (rule rfold_invariant[where P = "same_commit s", rotated 2]) (auto simp: same_commit_def split: option.splits)
qed

lemma same_commit_trans: "same_commit s t \<Longrightarrow> same_commit t u \<Longrightarrow> same_commit s u"
  by (simp add: same_commit_def)

lemma same_unit_trans: "same_unit s t \<Longrightarrow> same_unit t u \<Longrightarrow> same_unit s u"
  by (simp add: same_unit_def)

lemma misspec_keeps_commit:
  assumes "misspec msg s = Inr r" "try_commit_begin s \<le> my_wid s"
  shows "\<exists>s'. r = Exited s' \<and> same_commit s s'"
proof -
  let ?s = "update_pcb (note_misspec (my_wid s) (current_iteration s) msg) s"
  have b: "broadcast_event (my_wid s) 0xDEADBEEF 0 0 WRITE MISSPEC ?s = Inr ?s" using assms(2) by (simp add: broadcast_event_def)
  have s: "same_commit s ?s" by (simp add: same_commit_def update_pcb_def get_pcb_def split: option.splits)
  from assms(1) obtain v where v: "clear_incoming_queues (my_wid s) ?s = Inr v" "worker_finishes 0 v = Inr r"
    by (auto simp: misspec_def Let_def rbind_eq_Inr b split: if_splits)
  note f = clear_incoming_frame[OF v(1)]
  have le: "\<not> my_wid v < try_commit_begin v" using assms(2) same_rest_run(3)[OF f] same_restD(7)[OF f] by simp
  then have "record_exit 0 v = Inr v" "broadcast_event (my_wid v) 0xDEADBEEF 0 0 WRITE EOW v = Inr v"
    by (simp_all add: record_exit_def broadcast_event_def)
  with v(2) obtain u where u: "clear_incoming_queues (my_wid v) v = Inr u" "r = Exited u"
    by (auto simp: worker_finishes_def rbind_eq_Inr split: if_splits)
  have "same_commit s u"
    using same_commit_trans[OF same_commit_trans[OF s clear_incoming_commit[OF v(1)]] clear_incoming_commit[OF u(1)]] .
  then show ?thesis using u(2) by blast
qed

lemma replay_instance_unit:
  fixes s :: "'a run_state_scheme"
  assumes "replay_instance mm w v s = Inr s'"
  shows "same_unit s s' \<and> chan s' = chan s"
proof -
  have 1: "update_ver_malloc mm w sz p s = Inr (r, s') \<Longrightarrow> same_unit s s' \<and> chan s' = chan s" for sz p r
    by (auto simp: update_ver_malloc_def Let_def same_unit_def insert_shadow_heap_pages_def set_vm_def split: if_splits)
  have 2: "update_ver_separation_malloc mm sz w h p s = Inr (r, s') \<Longrightarrow> same_unit s s' \<and> chan s' = chan s" for sz p h r
    by (auto simp: update_ver_separation_malloc_def Let_def same_unit_def set_vheap_def split: if_splits)
  show ?thesis using assms by (auto simp: replay_instance_def rbind_eq_Inr split: if_splits prod.splits dest: 1 2)
qed

lemma replay_chunk_unit:
  fixes s :: "'a run_state_scheme"
  assumes "replay_chunk mm w c s = Inr s'"
  shows "same_unit s s' \<and> chan s' = chan s"
proof -
  have "instance_loop (replay_instance mm w) dat ks s = Inr s' \<Longrightarrow> same_unit s s' \<and> chan s' = chan s" for dat ks
  proof (induction ks arbitrary: s)
    case (Cons k ks)
    then show ?case
      by (auto simp: rbind_eq_Inr same_unit_def split: if_splits dest!: replay_instance_unit)
  qed (simp add: same_unit_def)
  then show ?thesis using assms unfolding replay_chunk_def by blast
qed

text \<open>One packet of stage \<open>i\<close>, with the packet itself still to be buffered.\<close>

lemma fail_validation_ok:
  assumes "unit_inv s0 k m buf s" "my_wid s0 = try_commit_begin s0 + k"
  shows "out_ok (same_commit s0) Q (fail_validation s)"
proof (cases "misspec ''try-commit failed'' s")
  case (Inr r)
  have "same_commit s0 s" "try_commit_begin s \<le> my_wid s" using assms by (simp_all add: unit_inv_def same_unit_def)
  with misspec_keeps_commit[OF Inr] show ?thesis by (auto simp: fail_validation_def Inr intro: same_commit_trans)
qed (simp add: fail_validation_def)

definition unit_ok :: "'a pred_state_scheme \<Rightarrow> nat \<Rightarrow> ('a pred_state_scheme, 'b \<times> 'a unit_run) outcome res \<Rightarrow> bool" where
  "unit_ok s0 k = out_ok (same_commit s0) (\<lambda>(st, buf, term, s). unit_inv s0 k 0 buf s)"

lemma same_unit_simps [simp]:
  "same_unit s s" "same_unit s (s\<lparr>pmem := m\<rparr>)" "same_unit s (mark_consumed p s)" "same_unit s (mark_packet_chunk_read st c s)"
  "same_unit s (update_ver_free w a s)"
  by (simp_all add: same_unit_def mark_consumed_def mark_packet_chunk_read_def update_ver_free_def)

lemma chan_simps [simp]:
  "chan (mark_consumed p s) = chan s" "chan (update_ver_free w a s) = chan s"
  by (simp_all add: mark_consumed_def update_ver_free_def)

lemma buffer_pair_ok:
  assumes "unit_inv s0 k (Suc (Suc m)) buf s"
  shows "unit_ok s0 k (buffer_pair p q (buf, term, s))"
proof -
  have "res_ok (\<lambda>(st, buf, term, s). unit_inv s0 k 0 buf s)
     (rbind (buffer_packet p (buf, s)) (\<lambda>bs. rbind (buffer_packet q bs) (\<lambda>(buf, s). Inr (Going, buf, term, mark_consumed q s))))"
  proof (rule res_ok_bind[OF buffer_packet_ok[OF assms]], clarify)
    fix buf1 s1 assume "unit_inv s0 k (Suc m) (buf @ [packets s p]) s"
    from buffer_packet_ok[OF this, of q] show "res_ok (\<lambda>(st, buf, term, s). unit_inv s0 k 0 buf s)
       (rbind (buffer_packet q (buf @ [packets s p], s)) (\<lambda>(buf, s). Inr (Going, buf, term, mark_consumed q s)))"
      by (rule res_ok_bind) (auto elim!: unit_inv_frame)
  qed
  then show ?thesis by (simp add: unit_ok_def buffer_pair_def out_ok_lift)
qed

lemma unit_ok_if: "(b \<Longrightarrow> unit_ok s0 k r) \<Longrightarrow> (\<not> b \<Longrightarrow> unit_ok s0 k r') \<Longrightarrow> unit_ok s0 k (if b then r else r')"
  by simp

lemma unit_ids:
  assumes "unit_inv s0 k m buf s" "my_wid s0 = try_commit_begin s0 + k"
  shows "my_wid s - try_commit_begin s = k" "num_stages s = num_stages s0" "source_of s i = source_of s0 i"
  using assms by (simp_all add: unit_inv_def same_unit_def source_of_def get_defs)

lemma validated_ok:
  assumes "unit_inv s0 k 2 buf t" "my_wid s0 = try_commit_begin s0 + k"
  shows "out_ok (same_commit s0) Q (fail_validation (t\<lparr>pmem := m\<rparr>))"
    "unit_ok s0 k (buffer_pair p q (buf, term, t\<lparr>pmem := m\<rparr>))" "unit_ok s0 k (buffer_pair p q (buf, term, t))"
proof -
  have u: "unit_inv s0 k 2 buf (t\<lparr>pmem := m\<rparr>)" by (rule unit_inv_frame[OF assms(1)]) simp_all
  show "out_ok (same_commit s0) Q (fail_validation (t\<lparr>pmem := m\<rparr>))" by (rule fail_validation_ok[OF u assms(2)])
  show "unit_ok s0 k (buffer_pair p q (buf, term, t\<lparr>pmem := m\<rparr>))" "unit_ok s0 k (buffer_pair p q (buf, term, t))"
    by (rule buffer_pair_ok[of _ _ 0], use u assms(1) in \<open>simp add: numeral_2_eq_2\<close>)+
qed

lemma try_pair_ok:
  assumes inv: "unit_inv s0 k 1 buf s" and w: "my_wid s0 = try_commit_begin s0 + k" and i: "i < num_stages s0"
  shows "unit_ok s0 k (try_normal i (source_of s0 i) p (buf, term, s))" "unit_ok s0 k (try_super i (source_of s0 i) p (buf, term, s))"
proof -
  have c: "res_ok (\<lambda>(q, t). unit_inv s0 k 2 buf t) (chan_consume (ToTry (source_of s0 i) k) s)"
    using unit_inv_consume[OF inv i] by (auto simp: res_ok_def numeral_2_eq_2)
  note v = validated_ok(1)[OF _ w] validated_ok(2,3)[OF _ w, unfolded unit_ok_def]
  show "unit_ok s0 k (try_normal i (source_of s0 i) p (buf, term, s))"
    unfolding try_normal_def unit_ok_def prod.case unit_ids(1)[OF inv w]
    by (rule out_ok_bind, unfold out_ok_lift, rule c) (auto simp: Let_def check_packet_def v split: prod.splits)
  have "unit_inv s0 k 0 buf (mark_packet_chunk_read 0 (pval (packets s p)) s)" by (rule unit_inv_frame[OF inv]) simp_all
  moreover have "unit_ok s0 k (xbind (xlift (chan_consume (ToTry (source_of s0 i) k) s)) (\<lambda>(shadow_p, s).
          let pk = packets s p in
          if is_write pk = check_num CHECK_REQUIRED then
            case check_page s (ptr pk) (cdata (chunks s (pval pk))) (cdata (chunks s (pval (packets s shadow_p)))) i (pmem s) of
              (ok, m) \<Rightarrow>
                let s = s\<lparr>pmem := m\<rparr> in
                if \<not> ok then fail_validation s else buffer_pair p shadow_p (buf, term, s)
          else buffer_pair p shadow_p (buf, term, s)))"
    unfolding unit_ok_def
    by (rule out_ok_bind, unfold out_ok_lift, rule c) (auto simp: Let_def v split: prod.splits)
  ultimately show "unit_ok s0 k (try_super i (source_of s0 i) p (buf, term, s))"
    unfolding try_super_def prod.case unit_ids(1)[OF inv w] by (simp add: unit_ok_def Let_def)
qed

lemma try_boi_ok:
  assumes inv: "unit_inv s0 k 1 buf s" and w: "my_wid s0 = try_commit_begin s0 + k"
  shows "unit_ok s0 k (try_boi fp fl (buf, term, s))"
proof -
  have "unit_inv s0 k 0 buf s" by (rule unit_inv_frame[OF inv]) simp_all
  then show ?thesis unfolding try_boi_def unit_ok_def prod.case
    by (auto intro!: out_ok_bind[where P = "\<lambda>_. True"] fail_validation_ok[OF inv w] simp: out_ok_lift res_ok_def)
qed

lemma maybe_buffer_ok:
  assumes "unit_inv s0 k 1 buf s"
  shows "res_ok (\<lambda>(buf', s'). s' = s \<and> unit_inv s0 k 0 buf' s) (if b then buffer_packet p (buf, s) else Inr (buf, s))"
proof -
  have "unit_inv s0 k 0 buf s" by (rule unit_inv_frame[OF assms]) simp_all
  moreover have "res_ok (\<lambda>(buf', s'). s' = s \<and> unit_inv s0 k 0 buf' s) (buffer_packet p (buf, s))"
    by (rule res_ok_mono[OF buffer_packet_ok[of s0 k 0]]) (use assms in auto)
  ultimately show ?thesis by simp
qed

lemma try_packet_ok:
  assumes inv: "unit_inv s0 k 1 buf s" and w: "my_wid s0 = try_commit_begin s0 + k" and i: "i < num_stages s0"
  shows "unit_ok s0 k (try_packet mm fp fl i (source_of s0 i) p (buf, term, s))"
proof -
  have z: "unit_inv s0 k 0 buf s" by (rule unit_inv_frame[OF inv]) simp_all
  have eoi: "res_ok (\<lambda>(buf', s'). s' = s \<and> unit_inv s0 k 0 buf' s) (buffer_packet p (buf, s))"
    using maybe_buffer_ok[OF inv, of True] by simp
  note b = maybe_buffer_ok[OF inv]
  have f: "unit_inv s0 k 0 buf' (update_ver_free x a s)" if "unit_inv s0 k 0 buf' s" for buf' x a
    by (rule unit_inv_frame[OF that]) simp_all
  have r: "res_ok (\<lambda>s'. unit_inv s0 k 0 buf' s') (if c then replay_chunk mm x a s else Inr s)"
    if "unit_inv s0 k 0 buf' s" for buf' x a c
    using that replay_chunk_unit[of mm x a s] unit_inv_frame[OF that] by (auto simp: res_ok_def)
  let ?Q = "\<lambda>(st, buf, term, s). unit_inv s0 k 0 buf s"
  have alloc: "res_ok ?Q (rbind (if my_wid s - try_commit_begin s = 0 then buffer_packet p (buf, s) else Inr (buf, s)) (\<lambda>(buf, s).
       rbind (if psize (packets s p) = 0 then replay_chunk mm (source_of s0 i) (pval (packets s p)) s else Inr s) (\<lambda>s.
         Inr (Going, buf, term, s))))"
    by (rule res_ok_bind[OF b]) (auto intro: res_ok_bind[OF r])
  have free: "res_ok ?Q (rbind (if my_wid s - try_commit_begin s = 0 then buffer_packet p (buf, s) else Inr (buf, s)) (\<lambda>(buf, s).
       Inr (Going, buf, term, update_ver_free (source_of s0 i) (ptr (packets s p)) s)))"
    by (rule res_ok_bind[OF b]) (auto intro: f)
  have eow': "res_ok ?Q (rbind (if i = GET_NUM_STAGES s - 1 then buffer_packet p (buf, s) else Inr (buf, s)) (\<lambda>(buf, s).
       Inr (Done, buf, current_iteration s0, s)))"
    by (rule res_ok_bind[OF b]) auto
  have eoi': "res_ok ?Q (rbind (buffer_packet p (buf, s)) (\<lambda>(buf, s). Inr (Done, buf, term, s)))"
    by (rule res_ok_bind[OF eoi]) auto
  have it: "current_iteration s = current_iteration s0" using inv by (simp add: unit_inv_def same_unit_def)
  note pair = try_pair_ok[OF inv w i, unfolded unit_ok_def]
  show ?thesis unfolding try_packet_def prod.case Let_def it
    unfolding unit_ok_def
    by (rule out_ok_bind[where P = ?Q], cases "pkind (packets s p)")
       (use pair try_boi_ok[OF inv w, unfolded unit_ok_def] z eoi' eow' alloc free
         in \<open>auto simp: out_ok_lift elim!: unit_inv_frame\<close>)
qed

lemma try_stage_loop_ok:
  assumes "unit_inv s0 k 0 buf s" "my_wid s0 = try_commit_begin s0 + k" "i < num_stages s0"
  shows "unit_ok s0 k (try_stage_loop n mm fp fl i (source_of s0 i) (buf, term, s))"
  using assms(1)
proof (induction n arbitrary: buf "term" s)
  case (Suc n)
  have c: "res_ok (\<lambda>(p, t). unit_inv s0 k 1 buf t) (chan_consume (ToTry (source_of s0 i) k) s)"
    using unit_inv_consume[OF Suc.prems assms(3)] by (auto simp: res_ok_def)
  show ?case unfolding try_stage_loop.simps unit_ok_def unit_ids(1)[OF Suc.prems assms(2)]
  proof (rule out_ok_bind, unfold out_ok_lift, rule c, clarify)
    fix p t assume t: "unit_inv s0 k 1 buf t"
    show "out_ok (same_commit s0) (\<lambda>(st, buf, term, s). unit_inv s0 k 0 buf s)
       (xbind (try_packet mm fp fl i (source_of s0 i) p (buf, term, t)) (\<lambda>(st, r).
          case st of Done \<Rightarrow> Inr (Cont (False, r)) | Misspec \<Rightarrow> Inr (Cont (True, r))
            | Going \<Rightarrow> try_stage_loop n mm fp fl i (source_of s0 i) r))"
      by (rule out_ok_bind[OF try_packet_ok[OF t assms(2,3), unfolded unit_ok_def]])
         (auto split: unit_status.split simp: Suc.IH[unfolded unit_ok_def])
  qed
qed (simp add: unit_ok_def)

lemma try_stages_ok:
  assumes "unit_inv s0 k 0 buf s" "my_wid s0 = try_commit_begin s0 + k" "\<forall>i \<in> set is. i < num_stages s0"
  shows "unit_ok s0 k (try_stages mm fp fl is (buf, term, s))"
  using assms(1,3)
proof (induction "is" arbitrary: buf "term" s)
  case (Cons i "is")
  have src: "GET_FIRST_WID_OF_STAGE s i + wid_of_iter (current_iteration s) mod GET_REPLICATION_FACTOR s i = source_of s0 i"
    using unit_ids(3)[OF Cons.prems(1) assms(2), of i] by (simp add: source_of_def)
  show ?case unfolding try_stages.simps unit_ok_def src
    by (rule out_ok_bind[OF try_stage_loop_ok[OF Cons.prems(1) assms(2), unfolded unit_ok_def]])
       (use Cons.prems(2) Cons.IH in \<open>auto simp: unit_ok_def\<close>)
qed (simp add: unit_ok_def)


text \<open>A concrete failing iteration: the first stage loaded a byte that stage 4 wrote last.\<close>

lemma unit_misspec_exits:
  assumes "try_commit_begin s \<le> my_wid s" "my_wid s \<noteq> MAIN_PROCESS_WID"
    and "\<forall>i < try_commit_begin s. chan s (ToTry i (my_wid s - try_commit_begin s)) \<noteq> None"
  shows "\<exists>s'. misspec msg s = Inr (Exited s')"
proof -
  let ?cl = "\<lambda>w :: wid. \<lambda>i s. case chan s (ToTry i (w - try_commit_begin s)) of None \<Rightarrow> Inl OutOfRange
             | Some q \<Rightarrow> Inr (s\<lparr>chan := (chan s)(ToTry i (w - try_commit_begin s) \<mapsto> sw_queue_clear q)\<rparr>)"
  have clear: "\<exists>s'. clear_incoming_queues (my_wid s) s = Inr s' \<and> (\<forall>d. chan s' d = None \<longleftrightarrow> chan s d = None) \<and>
      my_wid s' = my_wid s \<and> try_commit_begin s' = try_commit_begin s"
    if "try_commit_begin s \<le> my_wid s" "\<forall>i < try_commit_begin s. chan s (ToTry i (my_wid s - try_commit_begin s)) \<noteq> None"
    for s :: "'a run_state_scheme"
  proof -
    have "\<exists>s'. rfold (?cl (my_wid s)) xs t = Inr s' \<and> (\<forall>d. chan s' d = None \<longleftrightarrow> chan t d = None) \<and>
        my_wid s' = my_wid t \<and> try_commit_begin s' = try_commit_begin t"
      if "\<forall>i \<in> set xs. chan t (ToTry i (my_wid s - try_commit_begin t)) \<noteq> None" for xs and t :: "'a run_state_scheme"
      using that
    proof (induction xs arbitrary: t)
      case (Cons x xs)
      let ?c = "ToTry x (my_wid s - try_commit_begin t)"
      obtain q where q: "chan t ?c = Some q" using Cons.prems by auto
      let ?t = "t\<lparr>chan := (chan t)(?c \<mapsto> sw_queue_clear q)\<rparr>"
      have f: "?cl (my_wid s) x t = Inr ?t" using q by simp
      have d: "chan ?t d = None \<longleftrightarrow> chan t d = None" "my_wid ?t = my_wid t" "try_commit_begin ?t = try_commit_begin t" for d
        using q by auto
      have "\<forall>i \<in> set xs. chan ?t (ToTry i (my_wid s - try_commit_begin ?t)) \<noteq> None"
        using Cons.prems unfolding d by auto
      from Cons.IH[OF this] show ?case unfolding rfold.simps f rbind_simps(2) d .
    qed simp
    from this[of "[0..<try_commit_begin s]" s] that show ?thesis by (simp add: clear_incoming_queues_def)
  qed
  let ?s = "update_pcb (note_misspec (my_wid s) (current_iteration s) msg) s"
  have c: "chan ?s = chan s" by (simp add: update_pcb_def get_pcb_def split: option.splits)
  obtain u where u: "clear_incoming_queues (my_wid s) ?s = Inr u" "\<forall>d. chan u d = None \<longleftrightarrow> chan s d = None"
      "my_wid u = my_wid s" "try_commit_begin u = try_commit_begin s"
    using clear[of ?s] assms(1,3) c by auto
  obtain v where v: "clear_incoming_queues (my_wid u) u = Inr v" using clear[of u] u assms(1,3) by auto
  have "worker_finishes 0 u = Inr (Exited v)"
    using u v assms by (simp add: worker_finishes_def record_exit_def broadcast_event_def)
  then show ?thesis using u assms by (auto simp: misspec_def Let_def broadcast_event_def)
qed

definition stale_pair :: "addr \<Rightarrow> packet" where
  "stale_pair a = (if a = 0x100 then zero_packet\<lparr>ptr := 0x9000, pval := 0x55, psize := 8, is_write := check_num CHECK_REQUIRED\<rparr>
     else zero_packet\<lparr>pval := 1, psize := 8, is_write := check_num CHECK_REQUIRED\<rparr>)"


end
