(* ===== verification/Commit.thy ===== *)
theory Commit
  imports Try_Commit
begin

unbundle bit_operations_syntax

section \<open>The commit process\<close>

text \<open>
  Models \<open>commit\<close> of \<open>smtx/units.cpp\<close>: the main process takes the validated packets of every try-commit
  unit and applies them to its own memory, the committed state of the program. The units run ahead of each
  other; at the end of each stage of an iteration the commit process waits for all of them before it goes on
  (\<open>eoi\<close>, \<open>wait\<close>), and after the last stage the iteration counts as committed.

  The local variables are a record; \<open>terminated\<close> is only printed and left out. \<open>waitpid\<close> is a parameter: in
  round \<open>r\<close> the answer \<open>ex w\<close> says that the call for worker \<open>w\<close> did not return 0 and its status says
  exited. \<open>commit\<close> takes one answer per round as fuel, \<open>Spin\<close> when there are no more.
\<close>

record commit_vars =
  cwait :: "bool list"
  ceoi :: "bool list"
  cstage :: nat

type_synonym 'a commit_run = "commit_vars \<times> 'a pred_state_scheme"

subsection \<open>One packet\<close>

definition commit_iteration :: "'a pred_state_scheme \<Rightarrow> 'a pred_state_scheme" where
  "commit_iteration s =
     (let s = update_pcb (\<lambda>p. p\<lparr>last_committed_iteration := current_iteration s\<rparr>) s;
          s = (if current_iteration s = 0 then (update_loop_invariant_buffer s)\<lparr>good_to_go := 1\<rparr> else s)
      in advance_iter s)"

definition commit_eoi :: "nat \<Rightarrow> 'a commit_run \<Rightarrow> 'a commit_run" where
  "commit_eoi i r =
     (case r of (v, s) \<Rightarrow>
        let v = v\<lparr>ceoi := (ceoi v)[i := True]\<rparr> in
        if \<not> (\<forall>j < num_aux_workers s. ceoi v ! j) then (v\<lparr>cwait := (cwait v)[i := True]\<rparr>, s)
        else
          let n = num_aux_workers s;
              v = v\<lparr>ceoi := replicate n False @ drop n (ceoi v), cwait := replicate n False @ drop n (cwait v)\<rparr>
          in if cstage v = GET_NUM_STAGES s - 1 then (v\<lparr>cstage := 0\<rparr>, commit_iteration s)
             else (v\<lparr>cstage := cstage v + 1\<rparr>, s))"

definition commit_source :: "commit_vars \<Rightarrow> 'a pred_state_scheme \<Rightarrow> wid" where
  "commit_source v s =
     GET_FIRST_WID_OF_STAGE s (cstage v) + wid_of_iter (current_iteration s) mod GET_REPLICATION_FACTOR s (cstage v)"

text \<open>Allocations of iteration 0 are sent back to all workers, with source and heap packed into the value.\<close>

definition pack_instance :: "wid \<Rightarrow> 32 word \<Rightarrow> 64 word \<times> int" where
  "pack_instance source h =
     (if h = -1 then (of_nat source, REGULAR) else (push_bit 32 (of_nat source) OR ucast h, SEPARATION))"

definition commit_instance :: "(addr \<Rightarrow> bool) \<Rightarrow> wid \<Rightarrow> addr \<times> 32 word \<times> 32 word \<Rightarrow> 'a pred_state_scheme \<Rightarrow> 'a pred_state_scheme res" where
  "commit_instance mm source v s =
     rbind (replay_instance mm source v s) (\<lambda>s.
       case v of (p, sz, h) \<Rightarrow>
         if current_iteration s = 0
         then case pack_instance source h of (val, w) \<Rightarrow> commit_queue_broadcast_event MAIN_PROCESS_WID p sz val w ALLOC s
         else Inr s)"

definition commit_packet :: "(addr \<Rightarrow> bool) \<Rightarrow> nat \<Rightarrow> addr \<Rightarrow> 'a commit_run \<Rightarrow> 'a commit_run res" where
  "commit_packet mm i p r =
     (case r of (v, s) \<Rightarrow>
      rbind (case pkind (packets s p) of
          NORMAL \<Rightarrow> rbind (chan_consume (ToCommit i) s) (\<lambda>(q, s). Inr (v, mark_consumed q (update_normal_packet p q s)))
        | BOI \<Rightarrow> Inl AssertFailed
        | SUPER \<Rightarrow> rbind (chan_consume (ToCommit i) s) (\<lambda>(q, s). Inr (v, update_super_packet 0 p q s))
        | EOI \<Rightarrow> Inr (commit_eoi i (v, s))
        | EOW \<Rightarrow> Inr (v, s)
        | ALLOC \<Rightarrow>
            if psize (packets s p) = 0
            then rbind (instance_loop (commit_instance mm (commit_source v s)) (cdata (chunks s (pval (packets s p))))
                          [0..<PAGE_SIZE div sizeof_instance] s) (\<lambda>s.
                   Inr (v, mark_packet_chunk_read 0 (pval (packets s p)) s))
            else Inr (v, s)
        | FREE \<Rightarrow> Inr (v, update_ver_free (commit_source v s) (ptr (packets s p)) s)
        | MISSPEC \<Rightarrow> Inl AssertFailed) (\<lambda>(v, s).
      Inr (v, mark_consumed p s)))"

subsection \<open>The loops\<close>

fun commit_queue_loop :: "nat \<Rightarrow> (addr \<Rightarrow> bool) \<Rightarrow> nat \<Rightarrow> 'a commit_run \<Rightarrow> 'a commit_run res" where
  "commit_queue_loop 0 mm i r = Inl Spin"
| "commit_queue_loop (Suc n) mm i (v, s) =
     (case chan s (ToCommit i) of None \<Rightarrow> Inl OutOfRange
      | Some q \<Rightarrow>
          if sw_queue_empty q then Inr (v, s)
          else rbind (chan_consume (ToCommit i) s) (\<lambda>(p, s).
               rbind (commit_packet mm i p (v, s)) (\<lambda>(v, s).
                 if cwait v ! i then Inr (v, s) else commit_queue_loop n mm i (v, s))))"

definition commit_units :: "(addr \<Rightarrow> bool) \<Rightarrow> 'a commit_run \<Rightarrow> 'a commit_run res" where
  "commit_units mm r =
     rfold (\<lambda>i r. if cwait (fst r) ! i then Inr r else commit_queue_loop drain_fuel mm i r) [0..<num_aux_workers (snd r)] r"

definition commit_queues_empty :: "'a comm_state_scheme \<Rightarrow> bool res" where
  "commit_queues_empty s =
     rfold (\<lambda>i b. case chan s (ToCommit i) of None \<Rightarrow> Inl OutOfRange
             | Some q \<Rightarrow> Inr (if \<not> sw_queue_empty q then False else b)) [0..<num_aux_workers s] True"

text \<open>One round of the outer loop; \<open>True\<close>: the process leaves it.\<close>

definition commit_round :: "(addr \<Rightarrow> bool) \<Rightarrow> nat \<Rightarrow> (wid \<Rightarrow> bool) \<Rightarrow> 'a commit_run \<Rightarrow> (bool \<times> 'a commit_run) res" where
  "commit_round mm n_all ex r =
     rbind (commit_units mm r) (\<lambda>r.
     let all_terminated = list_all ex [0..<n_all] in
     rbind (commit_queues_empty (snd r)) (\<lambda>empty. Inr (all_terminated \<and> empty, r)))"

fun commit_loop :: "(addr \<Rightarrow> bool) \<Rightarrow> nat \<Rightarrow> (wid \<Rightarrow> bool) list \<Rightarrow> 'a commit_run \<Rightarrow> 'a commit_run res" where
  "commit_loop mm n_all [] r = Inl Spin"
| "commit_loop mm n_all (ex # exs) r =
     rbind (commit_round mm n_all ex r) (\<lambda>(stop, r). if stop then Inr r else commit_loop mm n_all exs r)"

definition commit_start :: "nat \<Rightarrow> commit_vars" where
  "commit_start n = \<lparr>cwait = replicate n False, ceoi = replicate n False, cstage = 0\<rparr>"

definition commit :: "(addr \<Rightarrow> bool) \<Rightarrow> nat \<Rightarrow> (wid \<Rightarrow> bool) list \<Rightarrow> 'a pred_state_scheme \<Rightarrow> 'a pred_state_scheme res" where
  "commit mm n_all exs s = rbind (commit_loop mm n_all exs (commit_start (num_aux_workers s), s)) (\<lambda>r. Inr (snd r))"

subsection \<open>Runs of the commit process\<close>

text \<open>
  One packet taken from unit \<open>i\<close>, as a step labelled with the unit and the kind of the packet. Between
  steps the other processes may change the shared state in any way (\<open>others\<close>), except what only the commit
  process writes: its own variables (iteration counter, copies of the tables, further fields of the process)
  and \<open>last_committed_iteration\<close>.
\<close>

definition others :: "'a pred_state_scheme \<Rightarrow> 'a pred_state_scheme \<Rightarrow> bool" where
  "others s t \<longleftrightarrow> current_iteration t = current_iteration s \<and> num_aux_workers t = num_aux_workers s \<and> num_stages t = num_stages s \<and>
     try_commit_begin t = try_commit_begin s \<and> my_wid t = my_wid s \<and> pred_state.more t = pred_state.more s \<and>
     last_committed_iteration (pcb_of t) = last_committed_iteration (pcb_of s)"

inductive commit_step :: "(addr \<Rightarrow> bool) \<Rightarrow> 'a commit_run \<Rightarrow> nat \<times> ptype \<Rightarrow> 'a commit_run \<Rightarrow> bool" for mm where
  packet: "\<not> cwait v ! i \<Longrightarrow> i < num_aux_workers s \<Longrightarrow> chan_consume (ToCommit i) s = Inr (p, t) \<Longrightarrow>
    commit_packet mm i p (v, t) = Inr r \<Longrightarrow> commit_step mm (v, s) (i, pkind (packets t p)) r"

inductive commit_trace :: "(addr \<Rightarrow> bool) \<Rightarrow> 'a commit_run \<Rightarrow> (nat \<times> ptype) list \<Rightarrow> 'a commit_run \<Rightarrow> bool" for mm r where
  start: "commit_trace mm r [] r"
| step: "commit_trace mm r tr r1 \<Longrightarrow> commit_step mm r1 l r2 \<Longrightarrow> commit_trace mm r (tr @ [l]) r2"
| env: "commit_trace mm r tr (v, s) \<Longrightarrow> others s t \<Longrightarrow> commit_trace mm r tr (v, t)"

inductive_cases commit_stepE: "commit_step mm r l r'"

lemma others_refl [simp]: "others s s"
  by (simp add: others_def)

lemma others_trans: "others s t \<Longrightarrow> others t u \<Longrightarrow> others s u"
  by (simp add: others_def)

lemma others_simps [simp]:
  "others s (s\<lparr>pmem := m\<rparr>)" "others s (s\<lparr>chan := ch\<rparr>)" "others s (mark_consumed p s)" "others s (mark_packet_chunk_read st c s)"
  "others s (update_ver_free w a s)" "others s (update_normal_packet p q s)" "others s (update_super_packet k p q s)"
  by (simp_all add: others_def mark_consumed_def mark_packet_chunk_read_def update_ver_free_def pcb_of_def update_normal_packet_def
      update_super_packet_def Let_def)

lemma others_same_rest: "same_rest s t \<Longrightarrow> others s t"
proof -
  assume r: "same_rest s t"
  then have *: "t = s\<lparr>packet_nexts := packet_nexts t, packet_chunk_nexts := packet_chunk_nexts t,
            commit_process_packet_next := commit_process_packet_next t,
            packets := packets t, chunks := chunks t, chan := chan t\<rparr>"
    by (simp add: same_rest_def)
  have "pred_state.more t = pred_state.more s" by (subst *) simp
  then show ?thesis using r by (simp add: others_def same_rest_run same_restD pcb_of_def)
qed

lemma consume_others: "chan_consume c s = Inr (p, t) \<Longrightarrow> others s t"
  by (auto simp: chan_consume_def rbind_eq_Inr split: option.splits)

lemma replay_instance_others:
  fixes s :: "'a pred_state_scheme"
  assumes "replay_instance mm w v s = Inr s'"
  shows "others s s'"
proof -
  have 1: "update_ver_malloc mm w sz p s = Inr (r, s') \<Longrightarrow> others s s'" for sz p r
    by (auto simp: update_ver_malloc_def Let_def others_def pcb_of_def insert_shadow_heap_pages_def set_vm_def split: if_splits)
  have 2: "update_ver_separation_malloc mm sz w h p s = Inr (r, s') \<Longrightarrow> others s s'" for sz p h r
    by (auto simp: update_ver_separation_malloc_def Let_def others_def pcb_of_def set_vheap_def split: if_splits)
  show ?thesis using assms by (auto simp: replay_instance_def rbind_eq_Inr split: if_splits prod.splits dest: 1 2)
qed

lemma commit_instance_others:
  assumes "commit_instance mm w v s = Inr s'"
  shows "others s s'"
proof -
  obtain p sz h where v: "v = (p, sz, h)" by (cases v)
  obtain val wr where pk: "pack_instance w h = (val, wr)" by (cases "pack_instance w h")
  from assms obtain t where t: "replay_instance mm w v s = Inr t"
      "t = s' \<or> commit_queue_broadcast_event MAIN_PROCESS_WID p sz val wr ALLOC t = Inr s'"
    by (auto simp: commit_instance_def rbind_eq_Inr v pk split: if_splits)
  then have "others t s'" using commit_queue_broadcast_frame others_same_rest others_refl by blast
  with replay_instance_others[OF t(1)] show ?thesis by (rule others_trans)
qed

lemma commit_instances_others: "instance_loop (commit_instance mm w) dat ks s = Inr s' \<Longrightarrow> others s s'"
proof (induction ks arbitrary: s)
  case (Cons k ks)
  then show ?case by (auto simp: rbind_eq_Inr split: if_splits dest!: commit_instance_others intro: others_trans)
qed simp

text \<open>A packet that is no end of iteration changes nothing the synchronisation depends on.\<close>

lemma commit_packet_cases:
  assumes "commit_packet mm i p (v, s) = Inr (v', s')"
  shows "if pkind (packets s p) = EOI then (v', s') = apsnd (mark_consumed p) (commit_eoi i (v, s)) else v' = v \<and> others s s'"
proof -
  have m: "others a b \<Longrightarrow> others a (mark_consumed p b)" for a b :: "'a pred_state_scheme"
    using others_trans others_simps(3) by blast
  have n: "others s (mark_consumed q (update_normal_packet p q t))" if "chan_consume (ToCommit i) s = Inr (q, t)" for q t
    using consume_others[OF that] others_trans others_simps(3,6) by blast
  have u: "others s (update_super_packet 0 p q t)" if "chan_consume (ToCommit i) s = Inr (q, t)" for q t
    using consume_others[OF that] others_trans others_simps(7) by blast
  have a: "others s (mark_packet_chunk_read 0 c t)" if "instance_loop (commit_instance mm w) dat ks s = Inr t" for w dat ks t c
    using commit_instances_others[OF that] others_trans others_simps(4) by blast
  show ?thesis using assms
    by (cases "pkind (packets s p)") (auto simp: commit_packet_def rbind_eq_Inr split: if_splits prod.splits intro!: m n u a)
qed

subsection \<open>The units are synchronised stage by stage\<close>

lemma update_loop_invariant_buffer_others: "others s (update_loop_invariant_buffer s)"
proof -
  have "others s t \<Longrightarrow> others s (fold (\<lambda>e s. if li_ptr (li_at s e) \<noteq> 0
                 then set_li (fst e) (snd e) ((li_at s e)\<lparr>li_value := load_le 8 (pmem s) (li_ptr (li_at s e))\<rparr>) s else s) es t)" for es t
    by (induction es arbitrary: t) (auto simp: others_def set_li_def pcb_of_def)
  then show ?thesis by (simp add: update_loop_invariant_buffer_def)
qed

lemma commit_iteration_effect:
  "try_commit_begin (commit_iteration s) = try_commit_begin s" "my_wid (commit_iteration s) = my_wid s"
  "pred_state.more (commit_iteration s) = pred_state.more s"
  "current_iteration (commit_iteration s) = current_iteration s + 1" "num_aux_workers (commit_iteration s) = num_aux_workers s"
  "num_stages (commit_iteration s) = num_stages s" "last_committed_iteration (pcb_of (commit_iteration s)) = current_iteration s"
proof -
  let ?u = "update_pcb (\<lambda>p. p\<lparr>last_committed_iteration := current_iteration s\<rparr>) s"
  let ?l = "update_loop_invariant_buffer ?u"
  have "others t (if b then (update_loop_invariant_buffer t)\<lparr>good_to_go := 1\<rparr> else t)" for b and t :: "'a pred_state_scheme"
    using update_loop_invariant_buffer_others[of t] by (simp add: others_def pcb_of_def)
  then have l: "others ?u (if current_iteration ?u = 0 then ?l\<lparr>good_to_go := 1\<rparr> else ?u)" .
  have u: "current_iteration ?u = current_iteration s" "num_aux_workers ?u = num_aux_workers s" "num_stages ?u = num_stages s"
      "last_committed_iteration (pcb_of ?u) = current_iteration s" "try_commit_begin ?u = try_commit_begin s" "my_wid ?u = my_wid s"
      "pred_state.more ?u = pred_state.more s"
    by (simp_all add: update_pcb_def get_pcb_def pcb_of_def split: option.splits)
  show "try_commit_begin (commit_iteration s) = try_commit_begin s" "my_wid (commit_iteration s) = my_wid s"
    "pred_state.more (commit_iteration s) = pred_state.more s" "current_iteration (commit_iteration s) = current_iteration s + 1" "num_aux_workers (commit_iteration s) = num_aux_workers s"
    "num_stages (commit_iteration s) = num_stages s" "last_committed_iteration (pcb_of (commit_iteration s)) = current_iteration s"
    using l u unfolding commit_iteration_def Let_def others_def by (simp_all add: advance_iter_def pcb_of_def)
qed

text \<open>
  \<open>barrier n ns it0 c v s\<close>: with \<open>c i\<close> ends of iteration taken from unit \<open>i\<close>, all units are in the same
  round \<open>r\<close> or one ahead; those ahead wait; stage and iteration are those of round \<open>r\<close>.
\<close>

definition barrier :: "nat \<Rightarrow> nat \<Rightarrow> iteration \<Rightarrow> (nat \<Rightarrow> nat) \<Rightarrow> 'a commit_run \<Rightarrow> bool" where
  "barrier n ns it0 c vs \<longleftrightarrow> (case vs of (v, s) \<Rightarrow>
     num_aux_workers s = n \<and> num_stages s = ns \<and> length (ceoi v) = n \<and> cwait v = ceoi v \<and>
     (\<exists>r. (\<forall>i < n. c i = r + (if ceoi v ! i then 1 else 0)) \<and> (\<exists>i < n. \<not> ceoi v ! i) \<and>
        cstage v = r mod ns \<and> current_iteration s = it0 + int (r div ns) \<and>
        (ns \<le> r \<longrightarrow> last_committed_iteration (pcb_of s) = current_iteration s - 1)))"

lemma barrier_others: "barrier n ns it0 c (v, s) \<Longrightarrow> others s t \<Longrightarrow> barrier n ns it0 c (v, t)"
  by (simp add: barrier_def others_def)

lemma barrier_eoi:
  assumes b: "barrier n ns it0 c (v, s)" and i: "i < n" "\<not> cwait v ! i" and ns: "0 < ns"
  shows "barrier n ns it0 (c(i := Suc (c i))) (commit_eoi i (v, s))"
proof -
  from b obtain r where r: "\<forall>j < n. c j = r + (if ceoi v ! j then 1 else 0)" "cstage v = r mod ns"
      "current_iteration s = it0 + int (r div ns)" "ns \<le> r \<longrightarrow> last_committed_iteration (pcb_of s) = current_iteration s - 1"
    and f: "num_aux_workers s = n" "num_stages s = ns" "length (ceoi v) = n" "cwait v = ceoi v"
    unfolding barrier_def prod.case by blast
  let ?e = "(ceoi v)[i := True]"
  show ?thesis
  proof (cases "\<forall>j < n. ?e ! j")
    case False
    have "\<forall>j < n. (c(i := Suc (c i))) j = r + (if ?e ! j then 1 else 0)" using r(1) i f by (auto simp: nth_list_update)
    then show ?thesis using False r(2-) f by (auto simp: commit_eoi_def Let_def barrier_def intro!: exI[of _ r])
  next
    case True
    then have a: "\<forall>j < n. j \<noteq> i \<longrightarrow> ceoi v ! j" using f(3) by (auto simp: nth_list_update split: if_splits)
    have c: "\<forall>j < n. (c(i := Suc (c i))) j = Suc r" using r(1) a i f(4) by auto
    have last: "cstage v = ns - 1 \<longleftrightarrow> Suc (r mod ns) = ns" using r(2) ns by auto
    have n0: "\<exists>j < n. \<not> replicate n False ! j" using i(1) by auto
    show ?thesis
    proof (cases "Suc (r mod ns) = ns")
      case True
      have "Suc r div ns = Suc (r div ns)" "Suc r mod ns = 0" using True by (simp_all add: div_Suc mod_Suc)
      then show ?thesis using \<open>\<forall>j < n. ?e ! j\<close> c last True f n0 r(3)
        by (auto simp: commit_eoi_def Let_def barrier_def get_defs commit_iteration_effect intro!: exI[of _ "Suc r"])
    next
      case False
      have q: "Suc r div ns = r div ns" "Suc r mod ns = Suc (r mod ns)" using False by (simp_all add: div_Suc mod_Suc)
      have "ns \<le> Suc r \<longleftrightarrow> ns \<le> r"
        using False ns by (metis le_Suc_eq mod_less order_refl less_Suc_eq_le not_less)
      then show ?thesis using \<open>\<forall>j < n. ?e ! j\<close> c last False f n0 r(2-4) q
        by (auto simp: commit_eoi_def Let_def barrier_def get_defs intro!: exI[of _ "Suc r"])
    qed
  qed
qed

lemma barrier_start: "0 < num_aux_workers s \<Longrightarrow> 0 < num_stages s \<Longrightarrow>
    barrier (num_aux_workers s) (num_stages s) (current_iteration s) (\<lambda>_. 0) (commit_start (num_aux_workers s), s)"
  by (auto simp: barrier_def commit_start_def intro!: exI[of _ 0])

lemma barrier_step:
  assumes "commit_step mm vs (i, k) vs'" "barrier n ns it0 c vs" "0 < ns"
  shows "barrier n ns it0 (if k = EOI then c(i := Suc (c i)) else c) vs'"
proof -
  from assms(1) obtain v s p t where st: "vs = (v, s)" "\<not> cwait v ! i" "i < num_aux_workers s"
      "chan_consume (ToCommit i) s = Inr (p, t)" "commit_packet mm i p (v, t) = Inr vs'" "k = pkind (packets t p)"
    by (cases rule: commit_step.cases) blast
  obtain v' s' where vs': "vs' = (v', s')" by (cases vs')
  have b: "barrier n ns it0 c (v, t)" using barrier_others[OF _ consume_others[OF st(4)]] assms(2) st(1) by blast
  have i: "i < n" using assms(2) st(1,3) by (simp add: barrier_def)
  show ?thesis
  proof (cases "k = EOI")
    case True
    obtain w u where e: "commit_eoi i (v, t) = (w, u)" by (cases "commit_eoi i (v, t)")
    have "vs' = (w, mark_consumed p u)" using commit_packet_cases[of mm i p v t v' s'] st True e vs' by simp
    then show ?thesis using barrier_eoi[OF b i st(2) assms(3)] True e barrier_others[OF _ others_simps(3)] by simp
  next
    case False
    then show ?thesis using commit_packet_cases[of mm i p v t v' s'] st vs' barrier_others[OF b] by auto
  qed
qed

lemma barrier_trace:
  assumes "commit_trace mm vs tr vs'" "barrier n ns it0 (\<lambda>_. 0) vs" "0 < ns"
  shows "barrier n ns it0 (\<lambda>i. count_list tr (i, EOI)) vs'"
  using assms(1)
proof induction
  case (step tr r1 l r2)
  obtain i k where l: "l = (i, k)" by (cases l)
  have "(if k = EOI then (\<lambda>i. count_list tr (i, EOI))(i := Suc (count_list tr (i, EOI))) else (\<lambda>i. count_list tr (i, EOI))) =
      (\<lambda>j. count_list (tr @ [l]) (j, EOI))" by (auto simp: l)
  with barrier_step[OF step.hyps(2)[unfolded l] step.IH assms(3)] show ?case by simp
next
  case (env tr v s t)
  then show ?case by (blast intro: barrier_others)
qed (use assms(2) in simp)

text \<open>The loops of the process only take such steps, and it leaves the outer loop with empty queues.\<close>

lemma commit_packet_aux:
  assumes "commit_packet mm i p (v, s) = Inr (v', s')"
  shows "num_aux_workers s' = num_aux_workers s"
  using commit_packet_cases[OF assms]
  by (auto simp: commit_eoi_def Let_def others_def commit_iteration_effect mark_consumed_def split: if_splits)

lemma commit_queue_loop_trace:
  assumes "commit_queue_loop k mm i (v, s) = Inr (v', s')" "i < num_aux_workers s" "\<not> cwait v ! i" "commit_trace mm r0 tr (v, s)"
  shows "(\<exists>tr'. commit_trace mm r0 tr' (v', s')) \<and> num_aux_workers s' = num_aux_workers s"
  using assms
proof (induction k arbitrary: v s tr)
  case (Suc k)
  show ?case
  proof (cases "\<exists>q. chan s (ToCommit i) = Some q \<and> sw_queue_empty q")
    case True
    then show ?thesis using Suc.prems by auto
  next
    case False
    then obtain p t w u where t: "chan_consume (ToCommit i) s = Inr (p, t)" "commit_packet mm i p (v, t) = Inr (w, u)"
        "(if cwait w ! i then Inr (w, u) else commit_queue_loop k mm i (w, u)) = Inr (v', s')"
      using Suc.prems(1) by (auto simp: rbind_eq_Inr split: option.splits)
    have tr: "commit_trace mm r0 (tr @ [(i, pkind (packets t p))]) (w, u)"
      by (rule commit_trace.step[OF Suc.prems(4) packet[OF Suc.prems(3,2) t(1,2)]])
    have n: "num_aux_workers u = num_aux_workers s"
      using commit_packet_aux[OF t(2)] consume_others[OF t(1)] by (simp add: others_def)
    show ?thesis
    proof (cases "cwait w ! i")
      case True
      then show ?thesis using t(3) tr n by auto
    next
      case False
      then show ?thesis using Suc.IH[of w u] t(3) tr n Suc.prems(2) by auto
    qed
  qed
qed simp

lemma commit_units_trace:
  assumes "commit_units mm r = Inr r'" "commit_trace mm r0 tr r"
  shows "\<exists>tr'. commit_trace mm r0 tr' r'"
proof -
  let ?f = "\<lambda>i r. if cwait (fst r) ! i then Inr r else commit_queue_loop drain_fuel mm i r"
  let ?P = "\<lambda>r1. (\<exists>tr'. commit_trace mm r0 tr' r1) \<and> num_aux_workers (snd r1) = num_aux_workers (snd r)"
  have "rfold ?f [0..<num_aux_workers (snd r)] r = Inr r'" using assms(1) by (simp add: commit_units_def)
  then have "?P r'"
  proof (rule rfold_invariant[where P = ?P, rotated 2])
    fix i r1 r2 assume i: "i \<in> set [0..<num_aux_workers (snd r)]" and p: "?P r1" and f: "?f i r1 = Inr r2"
    obtain tr' where tr': "commit_trace mm r0 tr' r1" using p by blast
    show "?P r2"
    proof (cases "cwait (fst r1) ! i")
      case False
      then show ?thesis
        using commit_queue_loop_trace[of drain_fuel mm i "fst r1" "snd r1" "fst r2" "snd r2" r0 tr'] tr' p i f by simp
    qed (use p f in simp)
  qed (use assms(2) in auto)
  then show ?thesis by blast
qed

lemma commit_queues_empty_all:
  assumes "commit_queues_empty s = Inr True" "i < num_aux_workers s"
  shows "\<exists>q. chan s (ToCommit i) = Some q \<and> sw_queue_empty q"
proof -
  let ?f = "\<lambda>i b. case chan s (ToCommit i) of None \<Rightarrow> Inl OutOfRange
             | Some q \<Rightarrow> Inr (if \<not> sw_queue_empty q then False else b)"
  have "rfold ?f xs b = Inr True \<Longrightarrow> b \<and> (\<forall>i \<in> set xs. \<exists>q. chan s (ToCommit i) = Some q \<and> sw_queue_empty q)" for xs b
  proof (induction xs arbitrary: b)
    case (Cons x xs)
    then obtain q where q: "chan s (ToCommit x) = Some q" by (auto split: option.splits)
    then show ?case using Cons.IH[of "if \<not> sw_queue_empty q then False else b"] Cons.prems by (auto split: if_splits)
  qed simp
  then show ?thesis using assms by (auto simp: commit_queues_empty_def)
qed

lemma commit_trace_end:
  assumes "commit_loop mm n_all exs r = Inr (v, t)" "commit_trace mm r0 tr r"
  shows "(\<exists>tr'. commit_trace mm r0 tr' (v, t)) \<and> (\<exists>ex \<in> set exs. \<forall>w < n_all. ex w) \<and> commit_queues_empty t = Inr True"
  using assms
proof (induction exs arbitrary: r tr)
  case (Cons ex exs)
  from Cons.prems(1) obtain r1 em where r1: "commit_units mm r = Inr r1" "commit_queues_empty (snd r1) = Inr em"
      "(if list_all ex [0..<n_all] \<and> em then Inr r1 else commit_loop mm n_all exs r1) = Inr (v, t)"
    by (auto simp: commit_round_def rbind_eq_Inr Let_def)
  obtain tr1 where tr1: "commit_trace mm r0 tr1 r1" using commit_units_trace[OF r1(1) Cons.prems(2)] by blast
  show ?case
  proof (cases "list_all ex [0..<n_all] \<and> em")
    case True
    then show ?thesis using r1 tr1 by (auto simp: list_all_iff)
  next
    case False
    then have "commit_loop mm n_all exs r1 = Inr (v, t)" using r1(3) by (simp split: if_splits)
    from Cons.IH[OF this tr1] show ?thesis by auto
  qed
qed simp

text \<open>What belongs to the process alone is only changed by the process: all but the iteration is kept.\<close>

definition same_process :: "'a pred_state_scheme \<Rightarrow> 'a pred_state_scheme \<Rightarrow> bool" where
  "same_process s t \<longleftrightarrow> num_aux_workers t = num_aux_workers s \<and> try_commit_begin t = try_commit_begin s \<and> my_wid t = my_wid s \<and>
     pred_state.more t = pred_state.more s"

lemma commit_packet_process:
  assumes "commit_packet mm i p (v, s) = Inr (v', s')"
  shows "same_process s s'"
  using commit_packet_cases[OF assms]
  by (auto simp: commit_eoi_def Let_def others_def same_process_def commit_iteration_effect mark_consumed_def split: if_splits)

lemma commit_trace_process:
  assumes "commit_trace mm r tr r'"
  shows "same_process (snd r) (snd r')"
  using assms
proof induction
  case (step tr r1 l r2)
  from step.hyps(2) obtain v s p t i where st: "r1 = (v, s)" "chan_consume (ToCommit i) s = Inr (p, t)" "commit_packet mm i p (v, t) = Inr r2"
    by (cases rule: commit_step.cases) blast
  have "same_process s t" using consume_others[OF st(2)] by (simp add: others_def same_process_def)
  moreover have "same_process t (snd r2)" using commit_packet_process[of mm i p v t "fst r2" "snd r2"] st(3) by simp
  ultimately show ?case using step.IH st(1) by (simp add: same_process_def)
qed (simp_all add: same_process_def others_def)

text \<open>
  C6. The commit process is a barrier: in every run, whatever the other processes do between two packets,
  the numbers of end-of-iteration packets taken from the units differ by at most one; exactly the units that
  are ahead wait; the stage and the iteration being committed are those of the slowest unit; and
  \<open>last_committed_iteration\<close> is the last iteration of which every unit has delivered all stages.
\<close>

theorem commit_is_barrier:
  assumes "commit_trace mm (commit_start (num_aux_workers s), s) tr (v, t)" "0 < num_aux_workers s" "0 < num_stages s"
  shows "\<exists>r. (\<forall>i < num_aux_workers s. count_list tr (i, EOI) = r + (if cwait v ! i then 1 else 0)) \<and>
    (\<exists>i < num_aux_workers s. \<not> cwait v ! i) \<and> cstage v = r mod num_stages s \<and>
    current_iteration t = current_iteration s + int (r div num_stages s) \<and>
    (num_stages s \<le> r \<longrightarrow> last_committed_iteration (pcb_of t) = current_iteration t - 1)"
  using barrier_trace[OF assms(1) barrier_start[OF assms(2,3)] assms(3)] unfolding barrier_def prod.case by metis

lemma qdemo_commit: "num_aux_workers qdemo = 1" "current_iteration qdemo = 4" "\<exists>q. chan qdemo (ToCommit 0) = Some q \<and> sw_queue_empty q"
proof -
  note defs = qdemo_def prot_state.defs pred_state.defs pdemo_def run_state.defs rdemo_def sep_state.defs sdemo_def
      malloc_state.defs mdemo_def comm_state.defs ver_malloc_init_def Let_def demo_def start_def init_queues_def init_packets_def
  show "num_aux_workers qdemo = 1" "current_iteration qdemo = 4" by (simp_all add: defs)
  have "chan qdemo (ToCommit 0) = Some sw_queue_create" by (simp add: defs)
  moreover have "sw_queue_empty sw_queue_create" using swq.is_empty_repr[OF swq.create_repr] by simp
  ultimately show "\<exists>q. chan qdemo (ToCommit 0) = Some q \<and> sw_queue_empty q" by blast
qed

lemma commit_idle:
  assumes "num_aux_workers s = 1" "chan s (ToCommit 0) = Some q" "sw_queue_empty q"
  shows "commit mm n [\<lambda>_. True] s = Inr s"
proof -
  obtain k where fuel: "drain_fuel = Suc k" by (cases drain_fuel) (auto simp: drain_fuel_def QUEUE_SIZE_def)
  have "commit_units mm (commit_start 1, s) = Inr (commit_start 1, s)"
    unfolding commit_units_def fuel using assms by (simp add: commit_start_def)
  moreover have "commit_queues_empty s = Inr True" using assms by (simp add: commit_queues_empty_def)
  ultimately show ?thesis using assms(1) by (simp add: commit_def commit_round_def list_all_iff)
qed

theorem commit_is_barrier_witness:
  "\<exists>q v t. commit_trace (\<lambda>_. True) (commit_start 1, qdemo\<lparr>chan := (chan qdemo)(ToCommit 0 \<mapsto> q), packets := word_pair\<rparr>)
      [(0, EOI)] (v, t) \<and> cstage v = 1 \<and> current_iteration t = 4"
proof -
  obtain q where q: "sw_repr q [0x140]" using queue_holding[of "[0x140]"] by (auto simp: QUEUE_SIZE_def)
  let ?s = "qdemo\<lparr>chan := (chan qdemo)(ToCommit 0 \<mapsto> q), packets := word_pair\<rparr>"
  have "chans_rep qdemo (\<lambda>_. [])" using demo_ok(3)[of "\<lambda>_. 0"] by (simp add: chans_rep_def)
  from chans_rep_upd[OF this q, of "ToCommit 0"] have rep: "chans_rep ?s ((\<lambda>_. [])(ToCommit 0 := [0x140]))" by (simp add: chans_rep_def)
  have c0: "chan ?s (ToCommit 0) = Some q" by simp
  obtain t where t: "chan_consume (ToCommit 0) ?s = Inr (0x140, t)" "t = ?s\<lparr>chan := chan t\<rparr>"
    using chan_consume_cases(2)[OF rep c0, of "0x140" "[]"] by auto
  have pt: "pkind (packets t 0x140) = EOI" by (subst t(2)) (simp add: word_pair_def zero_packet_def)
  have aux: "num_aux_workers ?s = 1" "num_stages ?s = 2" "\<not> cwait (commit_start 1) ! 0"
    using qdemo_commit(1) qdemo_tables(2) by (simp_all add: commit_start_def)
  obtain v u where r: "commit_packet (\<lambda>_. True) 0 0x140 (commit_start 1, t) = Inr (v, u)"
    using pt by (cases "commit_eoi 0 (commit_start 1, t)") (auto simp: commit_packet_def)
  have tr: "commit_trace (\<lambda>_. True) (commit_start 1, ?s) ([] @ [(0, EOI)]) (v, u)"
    using commit_trace.step[OF commit_trace.start packet[OF aux(3) _ t(1) r]] aux pt by simp
  have n: "0 < num_aux_workers ?s" "0 < num_stages ?s" using aux by simp_all
  from commit_is_barrier[OF _ n, unfolded aux(1), OF tr, unfolded aux(2)] obtain r where "count_list ([] @ [(0, EOI)]) (0 :: nat, EOI) = r"
      "cstage v = r mod 2" "current_iteration u = 4 + int (r div 2)" using qdemo_commit(2) by auto
  then show ?thesis using tr by auto
qed



end
