(* ===== verification/Loopevent.thy ===== *)
theory Loopevent
  imports Commit
begin

unbundle bit_operations_syntax

section \<open>Beginning and end of an iteration\<close>

text \<open>
  Models \<open>loopevent.cpp\<close> and the page helpers of \<open>utils.cpp\<close>. At the beginning of an iteration a worker
  takes in what the earlier stages sent, puts the predicted values into memory and protects its heap pages;
  at the end it sends every touched page that has metadata, and the metadata itself, to the later stages
  and to the try-commit units, resets the metadata, and reports the end of the iteration.

  The buffer of read-only pages is memory of the process at the address \<open>ro_data\<close>. The busy wait for
  \<open>good_to_go\<close> takes a list of state changes, what the other processes do after each of its rounds;
  \<open>Spin\<close> when the list is used up. \<open>exit(0)\<close> in \<open>check_misspec\<close> ends the process (\<open>Exited\<close>). CPU affinities and
  the profiling counters are not modelled.
\<close>

record loop_state = pred_state +
  ro_data :: addr
  ro_index :: nat
  shadow_globals :: "addr list"
  shadow_stacks :: "addr list"
  stack_begin :: addr
  stack_bound :: addr

subsection \<open>Pages\<close>

text \<open>\<open>for (i = 0; i < 4096; i += 128)\<close>, eight vectors per round.\<close>

definition page_rounds :: "nat list" where
  "page_rounds = map (\<lambda>k. 128 * k) [0..<4096 div 128]"

definition round_vectors :: "nat list" where
  "round_vectors = [0, 16, 32, 48, 64, 80, 96, 112]"

definition is_zero_page :: "addr \<Rightarrow> mem \<Rightarrow> bool" where
  "is_zero_page p m \<longleftrightarrow>
     list_all (\<lambda>i. list_all (\<lambda>j. let buf = load_le 16 m (p + of_nat (i + j)) :: m128 in mm_testz buf buf) round_vectors) page_rounds"

definition set_zero_page :: "addr \<Rightarrow> mem \<Rightarrow> mem" where
  "set_zero_page p m =
     fold (\<lambda>i. fold (\<lambda>j m. store_le 16 m (p + of_nat (i + j)) (0 :: m128)) round_vectors) page_rounds m"

text \<open>One round of the loop of \<open>clear_read\<close>: the counter, whether the page is read-only so far, the memory.\<close>

definition clear_read_block :: "addr \<Rightarrow> nat \<Rightarrow> nat \<times> bool \<times> mem \<Rightarrow> nat \<times> bool \<times> mem" where
  "clear_read_block shadow i r =
     (case r of (nonzero, readonly, m) \<Rightarrow>
        let s0 = load_le 8 m (shadow + of_nat i) :: 64 word;
            s1 = load_le 8 m (shadow + of_nat (i + 8)) :: 64 word
        in if s0 = 0 \<and> s1 = 0 then (nonzero, readonly, m)
           else
             let nonzero = (if s0 \<noteq> 0 then nonzero + 1 else nonzero);
                 nonzero = (if s1 \<noteq> 0 then nonzero + 1 else nonzero);
                 readonly = (if s0 AND 0xfbfbfbfbfbfbfbfb \<noteq> 0 \<or> s1 AND 0xfbfbfbfbfbfbfbfb \<noteq> 0 then False else readonly);
                 mask0 = drop_bit 2 s0 AND NOT (drop_bit 1 s0) AND 0x0101010101010101;
                 mask1 = drop_bit 2 s1 AND NOT (drop_bit 1 s1) AND 0x0101010101010101;
                 m = store_le 8 m (shadow + of_nat i) (load_le 8 m (shadow + of_nat i) OR (s0 AND mask0));
                 m = store_le 8 m (shadow + of_nat (i + 8)) (load_le 8 m (shadow + of_nat (i + 8)) OR (s1 AND mask1))
             in (nonzero, readonly, m))"

definition clear_read :: "addr \<Rightarrow> mem \<Rightarrow> nat \<times> mem" where
  "clear_read shadow m =
     (case fold (clear_read_block shadow) page_blocks (0, True, m) of (nonzero, readonly, m) \<Rightarrow>
        (if readonly then 0 else nonzero, m))"

definition check_nrbw :: "addr \<Rightarrow> mem \<Rightarrow> bool" where
  "check_nrbw shadow m \<longleftrightarrow>
     list_all (\<lambda>i. let s0 = load_le 8 m (shadow + of_nat i) :: 64 word;
                       s1 = load_le 8 m (shadow + of_nat (i + 8)) :: 64 word
                   in s0 = 0 \<and> s1 = 0 \<or> mm_test_all_zeros (mm_from64 s1 s0) (mm_set1_epi8 1)) page_blocks"

subsection \<open>Sending a page\<close>

definition RO_ENTRY_BUFFER_SIZE :: nat where "RO_ENTRY_BUFFER_SIZE = PAGE_SIZE div 8"

definition forward_ro_page :: "wid \<Rightarrow> iteration \<Rightarrow> 'a loop_state_scheme \<Rightarrow> 'a loop_state_scheme res" where
  "forward_ro_page wid iter s =
     (if ro_index s \<noteq> 0
      then rbind (forward_page wid iter (ro_data s) CHECK_RO_PAGE s) (\<lambda>s.
             Inr (s\<lparr>pmem := zero_range (ro_data s) PAGE_SIZE (pmem s)\<rparr>))
      else Inr s)"

definition buffer_ro_page :: "wid \<Rightarrow> iteration \<Rightarrow> addr \<Rightarrow> 'a loop_state_scheme \<Rightarrow> 'a loop_state_scheme res" where
  "buffer_ro_page wid iter page s =
     rbind (if ro_index s = RO_ENTRY_BUFFER_SIZE
            then rbind (forward_ro_page wid iter s) (\<lambda>s. Inr (s\<lparr>ro_index := 0\<rparr>))
            else Inr s) (\<lambda>s.
       Inr (s\<lparr>pmem := store_le 8 (pmem s) (ro_data s + of_nat (8 * ro_index s)) page, ro_index := ro_index s + 1\<rparr>))"

text \<open>The words of a page that have metadata, each as a pair of packets.\<close>

definition forward_word :: "wid \<Rightarrow> iteration \<Rightarrow> addr \<Rightarrow> addr \<Rightarrow> check_code \<Rightarrow> nat \<Rightarrow> 'a loop_state_scheme \<Rightarrow> 'a loop_state_scheme res" where
  "forward_word wid iter a shadow check i s =
     (let sv = load_le 8 (pmem s) (shadow + of_nat i) :: 64 word in
      if sv \<noteq> 0
      then rbind (forward_packet wid iter (a + of_nat i) (load_le 8 (pmem s) (a + of_nat i)) 8 check s) (\<lambda>s.
             forward_packet wid iter 0 sv 8 check s)
      else Inr s)"

definition zero_shadow :: "addr \<Rightarrow> 'a loop_state_scheme \<Rightarrow> 'a loop_state_scheme res" where
  "zero_shadow shadow s = Inr (s\<lparr>pmem := set_zero_page shadow (pmem s)\<rparr>)"

definition forward_pair :: "nat \<Rightarrow> wid \<Rightarrow> iteration \<Rightarrow> addr \<Rightarrow> addr \<Rightarrow> check_code \<Rightarrow> 'a loop_state_scheme \<Rightarrow> 'a loop_state_scheme res" where
  "forward_pair nonzero wid iter a shadow check s =
     (if nonzero > 8
      then rbind (forward_page wid iter a check s) (\<lambda>s. rbind (forward_page wid iter shadow check s) (zero_shadow shadow))
      else if nonzero \<noteq> 0
      then rbind (rfold (forward_word wid iter a shadow check) (map (\<lambda>k. 8 * k) [0..<PAGE_SIZE div 8]) s) (zero_shadow shadow)
      else rbind (buffer_ro_page wid iter a s) (zero_shadow shadow))"

subsection \<open>Separation heaps\<close>

text \<open>The pages of \<open>[begin, bound)\<close>; the reserved ranges end far below the top of the address space.\<close>

definition region_pages :: "addr \<Rightarrow> addr \<Rightarrow> addr list" where
  "region_pages begin bound = map (\<lambda>k. begin + of_nat (k * PAGE_SIZE)) [0..<(unat bound - unat begin + PAGE_SIZE - 1) div PAGE_SIZE]"

definition nrbw_page :: "wid \<Rightarrow> iteration \<Rightarrow> addr \<Rightarrow> 'a loop_state_scheme \<Rightarrow> ('a loop_state_scheme, 'a loop_state_scheme) outcome res" where
  "nrbw_page wid iter a s =
     (let shadow = get_shadow_of a in
      if pmem s shadow AND 0x80 \<noteq> 0 then
        case clear_read shadow ((pmem s)(shadow := pmem s shadow AND 0x7f)) of (nonzero, m) \<Rightarrow>
          let s = s\<lparr>pmem := m\<rparr> in
          if check_nrbw shadow m then xlift (forward_pair nonzero wid iter a shadow CHECK_FREE s)
          else misspec ''nrbw check failed'' s
      else Inr (Cont s))"

definition check_region_nrbw :: "nat set option \<Rightarrow> wid \<Rightarrow> iteration \<Rightarrow> 'a loop_state_scheme \<Rightarrow> ('a loop_state_scheme, 'a loop_state_scheme) outcome res" where
  "check_region_nrbw region wid iter s =
     (case region of None \<Rightarrow> Inr (Cont s)
      | Some hs \<Rightarrow> xfold (\<lambda>h s. xfold (nrbw_page wid iter) (region_pages (heap_begin h s) (heap_bound h s)) s) (sorted_list_of_set hs) s)"

definition check_versioned_region_nrbw :: "nat set option \<Rightarrow> wid \<Rightarrow> iteration \<Rightarrow> 'a loop_state_scheme \<Rightarrow> ('a loop_state_scheme, 'a loop_state_scheme) outcome res" where
  "check_versioned_region_nrbw region wid iter s =
     (case region of None \<Rightarrow> Inr (Cont s)
      | Some hs \<Rightarrow> xfold (\<lambda>h. xfold (\<lambda>j s. xfold (nrbw_page wid iter) (region_pages (versioned_heap_begin j h s) (versioned_heap_bound j h s)) s)
          [0..<MAX_WORKERS]) (sorted_list_of_set hs) s)"

definition region_page :: "check_code \<Rightarrow> wid \<Rightarrow> iteration \<Rightarrow> addr \<Rightarrow> 'a loop_state_scheme \<Rightarrow> 'a loop_state_scheme res" where
  "region_page check wid iter a s =
     (let shadow = get_shadow_of a in
      if pmem s shadow AND 0x80 \<noteq> 0 then
        case clear_read shadow ((pmem s)(shadow := pmem s shadow AND 0x7f)) of (nonzero, m) \<Rightarrow>
          forward_pair nonzero wid iter a shadow check (s\<lparr>pmem := m\<rparr>)
      else Inr s)"

definition forward_region :: "nat set option \<Rightarrow> wid \<Rightarrow> iteration \<Rightarrow> check_code \<Rightarrow> 'a loop_state_scheme \<Rightarrow> 'a loop_state_scheme res" where
  "forward_region region wid iter check s =
     (case region of None \<Rightarrow> Inr s
      | Some hs \<Rightarrow> rfold (\<lambda>h s. rfold (region_page check wid iter) (region_pages (heap_begin h s) (heap_bound h s)) s) (sorted_list_of_set hs) s)"

definition forward_versioned_region :: "nat set option \<Rightarrow> wid \<Rightarrow> iteration \<Rightarrow> check_code \<Rightarrow> 'a loop_state_scheme \<Rightarrow> 'a loop_state_scheme res" where
  "forward_versioned_region region wid iter check s =
     (case region of None \<Rightarrow> Inr s
      | Some hs \<Rightarrow> rfold (\<lambda>h. rfold (\<lambda>j s. rfold (region_page check wid iter) (region_pages (versioned_heap_begin j h s) (versioned_heap_bound j h s)) s)
          [0..<MAX_WORKERS]) (sorted_list_of_set hs) s)"

subsection \<open>The end of an iteration\<close>

text \<open>The loop body of the three loops over shadow pages: globals, stack, heap.\<close>

definition send_touched :: "wid \<Rightarrow> iteration \<Rightarrow> addr \<Rightarrow> 'a loop_state_scheme \<Rightarrow> 'a loop_state_scheme res" where
  "send_touched wid iter shadow s =
     (if pmem s shadow AND 0x80 \<noteq> 0 then
        let s = s\<lparr>pmem := (pmem s)(shadow := pmem s shadow AND 0x7f)\<rparr> in
        if is_zero_page shadow (pmem s) then Inr s
        else case clear_read shadow (pmem s) of (nonzero, m) \<Rightarrow>
               forward_pair nonzero wid iter (get_original_of shadow) shadow CHECK_REQUIRED (s\<lparr>pmem := m\<rparr>)
      else Inr s)"

definition flush_mallocs :: "wid \<Rightarrow> 'a loop_state_scheme \<Rightarrow> 'a loop_state_scheme res" where
  "flush_mallocs wid s =
     rbind (broadcast_malloc_chunk wid (vm_elem s wid) (of_nat (vm_index s wid * sizeof_instance)) s) (\<lambda>s.
       Inr (s\<lparr>pmem := zero_range (vm_elem s wid) (sizeof_instance * PAGE_SIZE) (pmem s), vm_index := (vm_index s)(wid := 0)\<rparr>))"

text \<open>What the worker that ran the iteration sends.\<close>

definition send_iteration :: "wid \<Rightarrow> iteration \<Rightarrow> 'a loop_state_scheme \<Rightarrow> 'a loop_state_scheme res" where
  "send_iteration wid iter s =
     rbind (flush_mallocs wid (update_shadow_for_linear_predicted_values (update_shadow_for_loop_invariants s))) (\<lambda>s.
     rbind (rfold (send_touched wid iter) (shadow_globals s) s) (\<lambda>s.
     rbind (rfold (send_touched wid iter) (shadow_stacks s) s) (\<lambda>s.
     rbind (rfold (send_touched wid iter) (sorted_list_of_set (shadow_heaps s)) s) (\<lambda>s.
       forward_ro_page wid iter s))))"

definition end_iter :: "'a loop_state_scheme \<Rightarrow> 'a loop_state_scheme res" where
  "end_iter s =
     (let wid = my_wid s; iter = current_iteration s; stage = GET_MY_STAGE s wid in
      rbind (if run_iteration s wid iter then send_iteration wid iter s else Inr s) (\<lambda>s.
      rbind (if wid - GET_FIRST_WID_OF_STAGE s stage = GET_WID_OFFSET_IN_STAGE s (wid_of_iter iter) stage
             then broadcast_event wid 0xDEADBEEF 0 0 WRITE EOI s else Inr s) (\<lambda>s.
        Inr (advance_iter s))))"

subsection \<open>The beginning of an iteration\<close>

definition check_misspec :: "'a loop_state_scheme \<Rightarrow> ('a loop_state_scheme, 'a loop_state_scheme) outcome res" where
  "check_misspec s =
     (let (p, s) = get_pcb s in
      if misspeculation_happened p \<and> misspeculated_iteration p \<le> current_iteration s then Inr (Exited s) else Inr (Cont s))"

fun wait_good_to_go :: "(addr \<Rightarrow> bool) \<Rightarrow> wid \<Rightarrow> ('a loop_state_scheme \<Rightarrow> 'a loop_state_scheme) list \<Rightarrow> 'a loop_state_scheme \<Rightarrow>
    'a loop_state_scheme res" where
  "wait_good_to_go mm wid [] s = (if good_to_go s \<noteq> 0 then Inr s else Inl Spin)"
| "wait_good_to_go mm wid (env # envs) s =
     (if good_to_go s \<noteq> 0 then Inr s
      else rbind (process_reverse_commit_queue mm wid s) (\<lambda>s. wait_good_to_go mm wid envs (env s)))"

definition begin_iter :: "(addr \<Rightarrow> bool) \<Rightarrow> (addr \<Rightarrow> bool) \<Rightarrow> (64 word \<Rightarrow> iteration \<Rightarrow> 64 word \<Rightarrow> 64 word) \<Rightarrow> (64 word \<Rightarrow> 32 word) \<Rightarrow>
    ('a loop_state_scheme \<Rightarrow> 'a loop_state_scheme) list \<Rightarrow> 'a loop_state_scheme \<Rightarrow> ('a loop_state_scheme, 'a loop_state_scheme) outcome res" where
  "begin_iter mm mp fp fl envs s =
     (let wid = my_wid s; iter = current_iteration s in
      xbind (xlift (if iter \<noteq> 0 then wait_good_to_go mm wid envs s else Inr s)) (\<lambda>s.
      xbind (xlift (process_incoming_packets mm wid iter s)) (\<lambda>s.
      xbind (check_misspec s) (\<lambda>s.
      xbind (xlift (if iter \<noteq> 0 \<and> GET_MY_STAGE s wid = 0
                    then rbind (update_loop_invariants mp s) (\<lambda>s.
                         rbind (update_linear_predicted_values fp fl mp s) (\<lambda>s.
                           to_try_commit wid 0xDEADBEEF 0 0 WRITE BOI s))
                    else Inr s)) (\<lambda>s.
        xlift (if run_iteration s wid iter then reset_protection mp s else Inr s))))))"

subsection \<open>What the page helpers compute\<close>

lemma round_vectors_eq: "round_vectors = map (\<lambda>k. 16 * k) [0..<8]"
  by (simp add: round_vectors_def upt_rec)

text \<open>The vectors of all rounds cover the page.\<close>

lemma page_positions:
  "(\<forall>i \<in> set page_rounds. \<forall>j \<in> set round_vectors. \<forall>l < 16. P (i + j + l)) \<longleftrightarrow> (\<forall>n < 4096. P n)"
proof
  assume a: "\<forall>i \<in> set page_rounds. \<forall>j \<in> set round_vectors. \<forall>l < 16. P (i + j + l)"
  show "\<forall>n < 4096. P n"
  proof (intro allI impI)
    fix n :: nat assume n: "n < 4096"
    have "128 * (n div 128) \<in> set page_rounds" using n by (auto simp: page_rounds_def)
    moreover have "16 * (n mod 128 div 16) \<in> set round_vectors" by (auto simp: round_vectors_eq)
    moreover have "n mod 16 < 16" by simp
    ultimately have "P (128 * (n div 128) + 16 * (n mod 128 div 16) + n mod 16)" using a by blast
    moreover have "128 * (n div 128) + 16 * (n mod 128 div 16) + n mod 16 = n"
    proof -
      have a: "n mod 128 mod 16 = n mod 16" by (simp add: mod_mod_cancel)
      show ?thesis using div_mult_mod_eq[of n 128] div_mult_mod_eq[of "n mod 128" 16] unfolding a by linarith
    qed
    ultimately show "P n" by simp
  qed
next
  assume "\<forall>n < 4096. P n"
  then show "\<forall>i \<in> set page_rounds. \<forall>j \<in> set round_vectors. \<forall>l < 16. P (i + j + l)"
    by (auto simp: page_rounds_def round_vectors_eq)
qed

lemma is_zero_page_iff: "is_zero_page p m \<longleftrightarrow> (\<forall>i < PAGE_SIZE. m (p + of_nat i) = 0)"
proof -
  have "mm_testz b b \<longleftrightarrow> (\<forall>l < 16. lane b l = 0)" for b by (simp add: mm_testz_def zero_lanes_iff)
  then have "is_zero_page p m \<longleftrightarrow> (\<forall>i \<in> set page_rounds. \<forall>j \<in> set round_vectors. \<forall>l < 16. m (p + of_nat (i + j + l)) = 0)"
    by (simp add: is_zero_page_def list_all_iff Let_def lane_load_le add.assoc)
  also have "\<dots> \<longleftrightarrow> (\<forall>n < 4096. m (p + of_nat n) = 0)" by (rule page_positions)
  finally show ?thesis by (simp add: PAGE_SIZE_def)
qed

lemma set_zero_page_eq: "set_zero_page p m = zero_range p PAGE_SIZE m"
proof
  fix x
  have inner: "fold (\<lambda>j m. store_le 16 m (p + of_nat (i + j)) (0 :: m128)) js m' x =
      (if \<exists>j \<in> set js. unat (x - (p + of_nat (i + j))) < 16 then 0 else m' x)" for i js m'
    by (induction js arbitrary: m') (auto simp: store_le_apply)
  have outer: "fold (\<lambda>i. fold (\<lambda>j m. store_le 16 m (p + of_nat (i + j)) (0 :: m128)) round_vectors) is m' x =
      (if \<exists>i \<in> set is. \<exists>j \<in> set round_vectors. unat (x - (p + of_nat (i + j))) < 16 then 0 else m' x)" for "is" m'
    by (induction "is" arbitrary: m') (auto simp: inner simp del: of_nat_add)
  have "unat (x - (p + of_nat (i + j))) < 16 \<longleftrightarrow> i + j \<le> unat (x - p) \<and> unat (x - p) < i + j + 16"
    if "i \<in> set page_rounds" "j \<in> set round_vectors" for i j
    by (rule unat_sub_less_iff) (use that in \<open>auto simp: page_rounds_def round_vectors_eq\<close>)
  moreover have "i + j \<le> u \<and> u < i + j + 16 \<longleftrightarrow> (\<exists>l < 16. u = i + j + l)" for i j u :: nat
    by (auto intro: exI[of _ "u - (i + j)"])
  ultimately have "(\<exists>i \<in> set page_rounds. \<exists>j \<in> set round_vectors. unat (x - (p + of_nat (i + j))) < 16) \<longleftrightarrow>
      \<not> (\<forall>i \<in> set page_rounds. \<forall>j \<in> set round_vectors. \<forall>l < 16. unat (x - p) \<noteq> i + j + l)"
    by auto
  also have "\<dots> \<longleftrightarrow> unat (x - p) < 4096" using page_positions[of "\<lambda>n. unat (x - p) \<noteq> n"] by auto
  finally show "set_zero_page p m x = zero_range p PAGE_SIZE m x"
    unfolding set_zero_page_def zero_range_def outer PAGE_SIZE_def by simp
qed

text \<open>\<open>clear_read\<close> writes every word back as it was: the bits it adds are among those already set.\<close>

lemma store_load_same: "store_le 8 m a (load_le 8 m a :: 64 word) = m"
  by (auto simp: fun_eq_iff store_le_apply lane_load_le)

lemma clear_read_fold:
  fixes W :: "nat \<Rightarrow> 64 word"
  assumes W: "\<And>k. W k = load_le 8 m (shadow + of_nat (8 * k))"
  shows "fold (clear_read_block shadow) (map (\<lambda>b. 16 * b) [0..<n]) (0, True, m) =
     (card {k. k < 2 * n \<and> W k \<noteq> 0}, (\<forall>k < 2 * n. W k AND 0xfbfbfbfbfbfbfbfb = 0), m)"
proof (induction n)
  case (Suc n)
  have w: "load_le 8 m (shadow + of_nat (16 * n)) = W (2 * n)" "load_le 8 m (shadow + of_nat (16 * n + 8)) = W (Suc (2 * n))"
    by (simp_all add: W algebra_simps)
  have "{k. k < 2 * Suc n \<and> W k \<noteq> 0} = {k. k < 2 * n \<and> W k \<noteq> 0} \<union> (if W (2 * n) \<noteq> 0 then {2 * n} else {}) \<union>
      (if W (Suc (2 * n)) \<noteq> 0 then {Suc (2 * n)} else {})" by (auto simp: less_Suc_eq)
  then have c: "card {k. k < 2 * Suc n \<and> W k \<noteq> 0} = card {k. k < 2 * n \<and> W k \<noteq> 0} +
      (if W (2 * n) \<noteq> 0 then 1 else 0) + (if W (Suc (2 * n)) \<noteq> 0 then 1 else 0)"
    by (simp add: card_insert_if)
  have a: "(\<forall>k < 2 * Suc n. W k AND 0xfbfbfbfbfbfbfbfb = 0) \<longleftrightarrow> (\<forall>k < 2 * n. W k AND 0xfbfbfbfbfbfbfbfb = 0) \<and>
      W (2 * n) AND 0xfbfbfbfbfbfbfbfb = 0 \<and> W (Suc (2 * n)) AND 0xfbfbfbfbfbfbfbfb = 0" by (auto simp: less_Suc_eq)
  note st = store_load_same[of m "shadow + of_nat (16 * n)", unfolded w] store_load_same[of m "shadow + of_nat (16 * n + 8)", unfolded w]
  show ?case unfolding c a
    by (simp only: upt_Suc_append le0 map_append fold_append comp_apply list.map fold_simps Suc.IH)
      (simp add: clear_read_block_def Let_def w st del: of_nat_add of_nat_mult)
qed simp

lemma all_in_words: "(\<forall>k < n. \<forall>l < 8. P (8 * k + l)) \<longleftrightarrow> (\<forall>i < 8 * n. P i)" for n :: nat
proof
  assume a: "\<forall>k < n. \<forall>l < 8. P (8 * k + l)"
  show "\<forall>i < 8 * n. P i"
  proof (intro allI impI)
    fix i assume "i < 8 * n"
    then have "i div 8 < n" "i mod 8 < 8" by auto
    then have "P (8 * (i div 8) + i mod 8)" using a by blast
    then show "P i" by simp
  qed
qed auto

definition meta_words :: "addr \<Rightarrow> mem \<Rightarrow> nat set" where
  "meta_words shadow m = {k. k < PAGE_SIZE div 8 \<and> (load_le 8 m (shadow + of_nat (8 * k)) :: 64 word) \<noteq> 0}"

lemma clear_read_eq:
  "clear_read shadow m = (if \<forall>i < PAGE_SIZE. m (shadow + of_nat i) AND 0xfb = 0 then 0 else card (meta_words shadow m), m)"
proof -
  let ?W = "\<lambda>k. load_le 8 m (shadow + of_nat (8 * k)) :: 64 word"
  have "?W k AND 0xfbfbfbfbfbfbfbfb = 0 \<longleftrightarrow> (\<forall>l < 8. m (shadow + of_nat (8 * k + l)) AND 0xfb = 0)" for k
    unfolding zero_lanes64_iff using lane_const64(4) by (simp add: lane_and lane_load_le add.assoc)
  then have "(\<forall>k < 512. ?W k AND 0xfbfbfbfbfbfbfbfb = 0) \<longleftrightarrow> (\<forall>k < 512. \<forall>l < 8. m (shadow + of_nat (8 * k + l)) AND 0xfb = 0)"
    by simp
  also have "\<dots> \<longleftrightarrow> (\<forall>i < PAGE_SIZE. m (shadow + of_nat i) AND 0xfb = 0)"
    unfolding all_in_words[where P = "\<lambda>i. m (shadow + of_nat i) AND 0xfb = 0"] by (simp add: PAGE_SIZE_def)
  finally show ?thesis
    using clear_read_fold[of ?W m shadow 256]
    by (auto simp: clear_read_def page_blocks_def PAGE_SIZE_def meta_words_def simp del: of_nat_mult)
qed

lemma check_nrbw_iff: "check_nrbw shadow m \<longleftrightarrow> (\<forall>i < PAGE_SIZE. \<not> bit (m (shadow + of_nat i)) 0)"
proof -
  let ?W = "\<lambda>a. load_le 8 m (shadow + of_nat a) :: 64 word"
  have b: "b AND 1 = 0 \<longleftrightarrow> \<not> bit b 0" for b :: byte using and_exp_nonzero[of b 0] by auto
  have t: "mm_test_all_zeros (mm_from64 (?W (i + 8)) (?W i)) (mm_set1_epi8 1) \<longleftrightarrow> (\<forall>l < 16. \<not> bit (m (shadow + of_nat (i + l))) 0)" for i
  proof -
    have "lane (mm_from64 (?W (i + 8)) (?W i)) l = m (shadow + of_nat (i + l))" if "l < 16" for l
    proof (cases "l < 8")
      case False
      then have "shadow + of_nat (i + 8) + of_nat (l - 8) = shadow + of_nat (i + l)" by (simp add: of_nat_diff)
      moreover have "lane (mm_from64 (?W (i + 8)) (?W i)) l = m (shadow + of_nat (i + 8) + of_nat (l - 8))"
        using that False lane_load_le[where 'a = 64, of "l - 8" 8 m "shadow + of_nat (i + 8)"] by (simp add: lane_mm_from64)
      ultimately show ?thesis by (simp only:)
    qed (use that in \<open>simp add: lane_mm_from64 lane_load_le add.assoc\<close>)
    then show ?thesis unfolding mm_test_all_zeros_def zero_lanes_iff mm_set1_epi8_def by (simp add: lane_and b)
  qed
  have z: "?W i = 0 \<and> ?W (i + 8) = 0 \<Longrightarrow> mm_test_all_zeros (mm_from64 (?W (i + 8)) (?W i)) (mm_set1_epi8 1)" for i
    by (simp add: mm_test_all_zeros_def mm_from64_def mm_set_epi32_def)
  have e: "?W i = 0 \<and> ?W (i + 8) = 0 \<or> mm_test_all_zeros (mm_from64 (?W (i + 8)) (?W i)) (mm_set1_epi8 1) \<longleftrightarrow>
      (\<forall>l < 16. \<not> bit (m (shadow + of_nat (i + l))) 0)" for i using z t by blast
  have "check_nrbw shadow m \<longleftrightarrow> (\<forall>k < 256. \<forall>l < 16. \<not> bit (m (shadow + of_nat (16 * k + l))) 0)"
    unfolding check_nrbw_def list_all_iff Let_def page_blocks_def e
    by (auto simp: PAGE_SIZE_def simp del: of_nat_add of_nat_mult)
  also have "\<dots> \<longleftrightarrow> (\<forall>i < 4096. \<not> bit (m (shadow + of_nat i)) 0)"
  proof
    assume a: "\<forall>k < 256. \<forall>l < 16. \<not> bit (m (shadow + of_nat (16 * k + l))) 0"
    show "\<forall>i < 4096. \<not> bit (m (shadow + of_nat i)) 0"
    proof (intro allI impI)
      fix i :: nat assume "i < 4096"
      then have "i div 16 < 256" "i mod 16 < 16" by auto
      then have "\<not> bit (m (shadow + of_nat (16 * (i div 16) + i mod 16))) 0" using a by blast
      then show "\<not> bit (m (shadow + of_nat i)) 0" by simp
    qed
  qed (auto simp del: of_nat_add of_nat_mult)
  finally show ?thesis by (simp add: PAGE_SIZE_def)
qed

text \<open>
  C40. \<open>clear_read\<close> sets no metadata: it reports 0 for a page without stores and otherwise the number of
  8-byte words with metadata, and leaves the metadata as it is, although it is meant to mark the bytes that
  were only loaded for validation. A byte that was only loaded keeps the metadata 4, which the try-commit
  unit does not validate.
\<close>

theorem clear_read_spec:
  "clear_read shadow m =
     (if \<forall>i < PAGE_SIZE. m (shadow + of_nat i) AND 0xfb = 0 then 0
      else card {k. k < PAGE_SIZE div 8 \<and> (load_le 8 m (shadow + of_nat (8 * k)) :: 64 word) \<noteq> 0}, m)"
  by (rule clear_read_eq[unfolded meta_words_def])

theorem clear_read_spec_witness: "clear_read 0x200000005000 (\<lambda>_. 4) = (0, \<lambda>_. 4)"
  using clear_read_spec[of "0x200000005000" "\<lambda>_. 4"] by simp

subsection \<open>The metadata after an iteration\<close>

text \<open>What sending leaves alone.\<close>

definition same_loop :: "'a loop_state_scheme \<Rightarrow> 'a loop_state_scheme \<Rightarrow> bool" where
  "same_loop s t \<longleftrightarrow> ro_data t = ro_data s \<and> shadow_globals t = shadow_globals s \<and> shadow_stacks t = shadow_stacks s \<and>
     shadow_heaps t = shadow_heaps s \<and> current_iteration t = current_iteration s"

lemma same_loop_simps [simp]: "same_loop s s" "same_loop s (s\<lparr>pmem := m\<rparr>)" "same_loop s (s\<lparr>pmem := m, ro_index := i\<rparr>)"
  by (simp_all add: same_loop_def)

lemma same_loop_trans: "same_loop s t \<Longrightarrow> same_loop t u \<Longrightarrow> same_loop s u"
  by (simp add: same_loop_def)

lemma same_rest_loop:
  assumes "same_rest s (t :: 'a loop_state_scheme)"
  shows "same_loop s t" "pmem t = pmem s" "ro_index t = ro_index s" "vm_elem t = vm_elem s" "ro_data t = ro_data s"
proof -
  have *: "t = s\<lparr>packet_nexts := packet_nexts t, packet_chunk_nexts := packet_chunk_nexts t,
            commit_process_packet_next := commit_process_packet_next t,
            packets := packets t, chunks := chunks t, chan := chan t\<rparr>"
    using assms by (simp add: same_rest_def)
  show "same_loop s t" by (subst *) (simp add: same_loop_def)
  show "pmem t = pmem s" by (subst *) simp
  show "ro_index t = ro_index s" by (subst *) simp
  show "vm_elem t = vm_elem s" by (subst *) simp
  show "ro_data t = ro_data s" by (subst *) simp
qed

text \<open>\<open>wrote A s t\<close>: from \<open>s\<close> to \<open>t\<close> memory changes only inside \<open>A\<close> and in the buffer of read-only pages.\<close>

definition wrote :: "addr set \<Rightarrow> 'a loop_state_scheme \<Rightarrow> 'a loop_state_scheme \<Rightarrow> bool" where
  "wrote A s t \<longleftrightarrow> same_loop s t \<and> (ro_index s \<le> RO_ENTRY_BUFFER_SIZE \<longrightarrow> ro_index t \<le> RO_ENTRY_BUFFER_SIZE) \<and>
     (ro_index s \<le> RO_ENTRY_BUFFER_SIZE \<longrightarrow>
       (\<forall>x. x \<notin> A \<longrightarrow> \<not> unat (x - ro_data s) < PAGE_SIZE \<longrightarrow> pmem t x = pmem s x))"

lemma wrote_trans: "wrote A s t \<Longrightarrow> wrote B t u \<Longrightarrow> wrote (A \<union> B) s u"
  by (auto simp: wrote_def same_loop_def)

lemma wrote_same_rest: "same_rest s t \<Longrightarrow> wrote {} s t"
  using same_rest_loop[of s t] by (simp add: wrote_def)

lemma forward_ro_page_wrote: "forward_ro_page w iter s = Inr t \<Longrightarrow> wrote {} s t"
proof -
  assume r: "forward_ro_page w iter s = Inr t"
  have z: "wrote {} u (u\<lparr>pmem := zero_range (ro_data u) PAGE_SIZE (pmem u)\<rparr>)" for u :: "'a loop_state_scheme"
    by (simp add: wrote_def zero_range_def)
  show ?thesis
  proof (cases "ro_index s = 0")
    case False
    then obtain u where u: "forward_page w iter (ro_data s) CHECK_RO_PAGE s = Inr u"
        "t = u\<lparr>pmem := zero_range (ro_data u) PAGE_SIZE (pmem u)\<rparr>"
      using r by (auto simp: forward_ro_page_def rbind_eq_Inr)
    from wrote_trans[OF wrote_same_rest[OF forward_page_frame[OF u(1)]] z[of u]] show ?thesis using u(2) by simp
  qed (use r in \<open>simp add: forward_ro_page_def wrote_def\<close>)
qed

lemma buffer_ro_page_wrote:
  assumes "buffer_ro_page w iter page s = Inr t"
  shows "wrote {} s t"
proof -
  from assms obtain u where u: "(if ro_index s = RO_ENTRY_BUFFER_SIZE
            then rbind (forward_ro_page w iter s) (\<lambda>s. Inr (s\<lparr>ro_index := 0\<rparr>)) else Inr s) = Inr u"
      "t = u\<lparr>pmem := store_le 8 (pmem u) (ro_data u + of_nat (8 * ro_index u)) page, ro_index := ro_index u + 1\<rparr>"
    by (auto simp: buffer_ro_page_def rbind_eq_Inr)
  have su: "wrote {} s u \<and> (ro_index s \<le> RO_ENTRY_BUFFER_SIZE \<longrightarrow> ro_index u < RO_ENTRY_BUFFER_SIZE)"
  proof (cases "ro_index s = RO_ENTRY_BUFFER_SIZE")
    case True
    then obtain v where v: "forward_ro_page w iter s = Inr v" "u = v\<lparr>ro_index := 0\<rparr>" using u(1) by (auto simp: rbind_eq_Inr)
    have "wrote {} v u" unfolding v(2) by (simp add: wrote_def same_loop_def)
    with wrote_trans[OF forward_ro_page_wrote[OF v(1)]] show ?thesis using v(2) by (fastforce simp: RO_ENTRY_BUFFER_SIZE_def PAGE_SIZE_def)
  qed (use u(1) in \<open>auto simp: wrote_def\<close>)
  have in_buf: "unat (x - ro_data u) < PAGE_SIZE"
    if "ro_index u < RO_ENTRY_BUFFER_SIZE" "unat (x - (ro_data u + of_nat (8 * ro_index u))) < 8" for x
  proof -
    have "8 * ro_index u + 8 \<le> PAGE_SIZE" using that(1) by (simp add: RO_ENTRY_BUFFER_SIZE_def PAGE_SIZE_def)
    moreover have "unat (x - ro_data u) < 8 * ro_index u + 8"
      using that(2) unat_sub_less_iff[of "8 * ro_index u" 8 x "ro_data u"] calculation by (simp add: PAGE_SIZE_def del: of_nat_mult)
    ultimately show ?thesis by simp
  qed
  show ?thesis using su in_buf unfolding u(2) wrote_def same_loop_def by (auto simp: store_le_apply)
qed

definition page_at :: "addr \<Rightarrow> addr set" where
  "page_at p = {x. unat (x - p) < PAGE_SIZE}"

lemma zero_shadow_wrote:
  assumes "zero_shadow sh s = Inr t"
  shows "wrote (page_at sh) s t" "\<forall>x \<in> page_at sh. pmem t x = 0"
  using assms by (auto simp: zero_shadow_def wrote_def page_at_def set_zero_page_eq zero_range_def)

lemma forward_word_wrote:
  assumes "forward_word w iter a sh check i s = Inr t"
  shows "wrote {} s t"
proof -
  let ?sv = "load_le 8 (pmem s) (sh + of_nat i) :: 64 word"
  show ?thesis
  proof (cases "?sv = 0")
    case False
    then obtain u where u: "forward_packet w iter (a + of_nat i) (load_le 8 (pmem s) (a + of_nat i)) 8 check s = Inr u"
        "forward_packet w iter 0 ?sv 8 check u = Inr t"
      using assms by (auto simp: forward_word_def Let_def rbind_eq_Inr)
    then show ?thesis
      using wrote_trans[OF wrote_same_rest[OF forward_packet_frame[OF u(1)]] wrote_same_rest[OF forward_packet_frame[OF u(2)]]] by simp
  qed (use assms in \<open>simp add: forward_word_def wrote_def\<close>)
qed

lemma rfold_wrote:
  assumes "\<And>x s t. f x s = Inr t \<Longrightarrow> wrote {} s t" "rfold f xs s = Inr t"
  shows "wrote {} s t"
  using assms(2)
proof (rule rfold_invariant[where P = "wrote {} s", rotated 2])
  fix x u v assume "wrote {} s u" "f x u = Inr v"
  then show "wrote {} s v" using wrote_trans[of "{}" s u "{}" v] assms(1) by simp
qed (simp add: wrote_def)

text \<open>In all three cases the metadata of the page is zero afterwards.\<close>

lemma forward_pair_wrote:
  assumes "forward_pair n w iter a sh check s = Inr t"
  shows "wrote (page_at sh) s t \<and> (\<forall>x \<in> page_at sh. pmem t x = 0)"
proof -
  obtain u where u: "wrote {} s u" "zero_shadow sh u = Inr t"
  proof -
    consider "n > 8" | "n \<noteq> 0" "\<not> n > 8" | "n = 0" by blast
    then show ?thesis
    proof cases
      case 1
      then obtain v u where v: "forward_page w iter a check s = Inr v" "forward_page w iter sh check v = Inr u" "zero_shadow sh u = Inr t"
        using assms by (auto simp: forward_pair_def rbind_eq_Inr)
      from wrote_trans[OF wrote_same_rest[OF forward_page_frame[OF v(1)]] wrote_same_rest[OF forward_page_frame[OF v(2)]]] v(3)
      show ?thesis using that by simp
    next
      case 2
      then obtain u where v: "rfold (forward_word w iter a sh check) (map (\<lambda>k. 8 * k) [0..<PAGE_SIZE div 8]) s = Inr u" "zero_shadow sh u = Inr t"
        using assms by (auto simp: forward_pair_def rbind_eq_Inr)
      have "wrote {} s u" by (rule rfold_wrote[OF forward_word_wrote v(1)])
      then show ?thesis using that v(2) by blast
    next
      case 3
      then obtain u where "buffer_ro_page w iter a s = Inr u" "zero_shadow sh u = Inr t"
        using assms by (auto simp: forward_pair_def rbind_eq_Inr)
      then show ?thesis using that buffer_ro_page_wrote by blast
    qed
  qed
  from wrote_trans[OF u(1) zero_shadow_wrote(1)[OF u(2)]] zero_shadow_wrote(2)[OF u(2)] show ?thesis by simp
qed

lemma page_at_self: "p \<in> page_at p"
  by (simp add: page_at_def PAGE_SIZE_def)

lemma page_at_mem: "x \<in> page_at p \<Longrightarrow> \<exists>i < PAGE_SIZE. x = p + of_nat i"
  unfolding page_at_def using eq_add_of_nat_unat[of x p] by auto

lemma bit7: "b AND 0x80 \<noteq> 0 \<longleftrightarrow> bit b 7" for b :: byte
  using and_exp_nonzero[of b 7] by simp

lemma send_touched_wrote:
  assumes "send_touched w iter sh s = Inr t"
  shows "if bit (pmem s sh) 7 then wrote (page_at sh) s t \<and> (\<forall>x \<in> page_at sh. pmem t x = 0) else t = s"
proof (cases "bit (pmem s sh) 7")
  case True
  let ?s = "s\<lparr>pmem := (pmem s)(sh := pmem s sh AND 0x7f)\<rparr>"
  have w: "wrote (page_at sh) s ?s" using page_at_self[of sh] by (auto simp: wrote_def)
  show ?thesis
  proof (cases "is_zero_page sh (pmem ?s)")
    case z: True
    then have "t = ?s" using assms True by (simp add: send_touched_def bit7 Let_def)
    moreover have "\<forall>x \<in> page_at sh. pmem ?s x = 0" using z unfolding is_zero_page_iff by (blast dest: page_at_mem)
    ultimately show ?thesis using True w by simp
  next
    case False
    then have "forward_pair (fst (clear_read sh (pmem ?s))) w iter (get_original_of sh) sh CHECK_REQUIRED ?s = Inr t"
      using assms True by (simp add: send_touched_def bit7 Let_def clear_read_eq split: prod.splits)
    from forward_pair_wrote[OF this] wrote_trans[OF w, of "page_at sh" t] show ?thesis using True by simp
  qed
qed (use assms in \<open>simp add: send_touched_def bit7\<close>)

text \<open>
  The pages \<open>P\<close> with metadata are aligned and apart from the buffers. \<open>swept s0 A s\<close>: of the pages in \<open>A\<close>, those
  touched in \<open>s0\<close> are zero, all others of \<open>P\<close> are as in \<open>s0\<close>.
\<close>

definition swept :: "addr set \<Rightarrow> 'a loop_state_scheme \<Rightarrow> addr set \<Rightarrow> 'a loop_state_scheme \<Rightarrow> bool" where
  "swept P s0 A s \<longleftrightarrow> same_loop s0 s \<and> ro_index s \<le> RO_ENTRY_BUFFER_SIZE \<and>
     (\<forall>sh \<in> P. \<forall>x \<in> page_at sh. pmem s x = (if sh \<in> A \<and> bit (pmem s0 sh) 7 then 0 else pmem s0 x))"

definition apart :: "addr set \<Rightarrow> addr \<Rightarrow> nat \<Rightarrow> bool" where
  "apart P a n \<longleftrightarrow> (\<forall>sh \<in> P. \<forall>x \<in> page_at sh. \<not> unat (x - a) < n)"

lemma pages_disjoint:
  assumes "unat p mod PAGE_SIZE = 0" "unat q mod PAGE_SIZE = 0" "x \<in> page_at p" "x \<in> page_at q"
  shows "p = q"
proof -
  have div: "unat x div PAGE_SIZE = unat p div PAGE_SIZE" if al: "unat p mod PAGE_SIZE = 0" and x: "x \<in> page_at p" for p
  proof -
    obtain i where i: "i < PAGE_SIZE" "x = p + of_nat i" using page_at_mem[OF x] by blast
    obtain k where k: "unat p = 4096 * k" using al by (auto simp: PAGE_SIZE_def)
    have "unat p < 2 ^ 64" using unsigned_less[of p] by simp
    then have "4096 * k + i < 2 ^ 64" using k i(1) by (simp add: PAGE_SIZE_def)
    then have "unat x = 4096 * k + i" unfolding i(2) unat_add_of_nat k by (rule mod_less)
    then show ?thesis using i(1) k by (simp add: PAGE_SIZE_def)
  qed
  from div[OF assms(1,3)] div[OF assms(2,4)] have "unat p div PAGE_SIZE = unat q div PAGE_SIZE" by simp
  then have "unat p = unat q" using assms(1,2) by (metis mult_div_mod_eq)
  then show ?thesis by (rule unsigned_word_eqI)
qed

lemma swept_step:
  assumes sw: "swept P s0 A s" and sh: "sh \<in> P" and r: "send_touched w iter sh s = Inr t"
    and al: "\<forall>p \<in> P. unat p mod PAGE_SIZE = 0" and ap: "apart P (ro_data s0) PAGE_SIZE"
  shows "swept P s0 (insert sh A) t"
proof -
  have self: "pmem s sh = (if sh \<in> A \<and> bit (pmem s0 sh) 7 then 0 else pmem s0 sh)"
    using sw sh page_at_self by (auto simp: swept_def)
  show ?thesis
  proof (cases "bit (pmem s sh) 7")
    case False
    then have "t = s" "bit (pmem s0 sh) 7 \<longrightarrow> sh \<in> A" using send_touched_wrote[OF r] self by (auto split: if_splits)
    then show ?thesis using sw by (auto simp: swept_def)
  next
    case True
    then have t: "wrote (page_at sh) s t" "\<forall>x \<in> page_at sh. pmem t x = 0" and b: "bit (pmem s0 sh) 7"
      using send_touched_wrote[OF r] self by (auto split: if_splits)
    have sl: "same_loop s0 t" "ro_index t \<le> RO_ENTRY_BUFFER_SIZE" "ro_data s = ro_data s0"
      using sw t(1) by (auto simp: swept_def wrote_def same_loop_def)
    have keep: "pmem t x = pmem s x" if "p \<in> P" "x \<in> page_at p" "p \<noteq> sh" for p x
    proof -
      have "x \<notin> page_at sh" using pages_disjoint[of p sh x] that al sh by auto
      moreover have "\<not> unat (x - ro_data s) < PAGE_SIZE" using ap that sl(3) by (auto simp: apart_def)
      ultimately show ?thesis using t(1) sw by (simp add: wrote_def swept_def)
    qed
    have "pmem t x = (if p \<in> insert sh A \<and> bit (pmem s0 p) 7 then 0 else pmem s0 x)" if "p \<in> P" "x \<in> page_at p" for p x
    proof (cases "p = sh")
      case True
      then show ?thesis using t(2) b that by simp
    next
      case False
      then show ?thesis using keep[OF that False] sw that by (simp add: swept_def)
    qed
    then show ?thesis using sl by (simp add: swept_def)
  qed
qed

lemma swept_fold:
  assumes "swept P s0 A s" "set xs \<subseteq> P" "rfold (send_touched w iter) xs s = Inr t"
    and "\<forall>p \<in> P. unat p mod PAGE_SIZE = 0" "apart P (ro_data s0) PAGE_SIZE"
  shows "swept P s0 (set xs \<union> A) t"
  using assms(1-3)
proof (induction xs arbitrary: s A)
  case (Cons x xs)
  then obtain u where u: "send_touched w iter x s = Inr u" "rfold (send_touched w iter) xs u = Inr t" by (auto simp: rbind_eq_Inr)
  have "swept P s0 (insert x A) u" using swept_step[OF Cons.prems(1) _ u(1) assms(4,5)] Cons.prems(2) by simp
  from Cons.IH[OF this _ u(2)] Cons.prems(2) show ?case by simp
qed simp

text \<open>The passes over predicted values keep the touched bits.\<close>

lemma fold_keeps_bit7:
  assumes "\<And>x m. bit (f x m a :: byte) 7 \<longleftrightarrow> bit (m a) 7"
  shows "bit (fold f xs m a) 7 \<longleftrightarrow> bit (m a) 7"
  by (induction xs arbitrary: m) (simp_all add: assms)

lemma shadow_passes_touched:
  "bit (pmem (update_shadow_for_loop_invariants s) a) 7 \<longleftrightarrow> bit (pmem s a) 7"
  "bit (pmem (update_shadow_for_linear_predicted_values s) a) 7 \<longleftrightarrow> bit (pmem s a) 7"
proof -
  have b: "bit (0xfe :: byte) 7" "\<not> bit (8 :: byte) 7" by simp_all
  show "bit (pmem (update_shadow_for_loop_invariants s) a) 7 \<longleftrightarrow> bit (pmem s a) 7"
    unfolding update_shadow_for_loop_invariants_def Let_def
    by (simp, rule fold_keeps_bit7) (auto intro!: fold_keeps_bit7 simp: b bit_simps split: if_splits)
  show "bit (pmem (update_shadow_for_linear_predicted_values s) a) 7 \<longleftrightarrow> bit (pmem s a) 7"
    unfolding update_shadow_for_linear_predicted_values_def Let_def
    by (simp, rule fold_keeps_bit7) (auto intro!: fold_keeps_bit7 simp: b bit_simps split: if_splits)
qed

definition metadata_pages :: "'a loop_state_scheme \<Rightarrow> addr set" where
  "metadata_pages s = set (shadow_globals s) \<union> set (shadow_stacks s) \<union> shadow_heaps s"

lemma flush_mallocs_effect:
  assumes "flush_mallocs w s = Inr t" "apart P (vm_elem s w) (sizeof_instance * PAGE_SIZE)"
  shows "same_loop s t" "ro_index t = ro_index s" "\<forall>sh \<in> P. \<forall>x \<in> page_at sh. pmem t x = pmem s x"
proof -
  from assms(1) obtain u where u: "broadcast_malloc_chunk w (vm_elem s w) (of_nat (vm_index s w * sizeof_instance)) s = Inr u"
      "t = u\<lparr>pmem := zero_range (vm_elem u w) (sizeof_instance * PAGE_SIZE) (pmem u), vm_index := (vm_index u)(w := 0)\<rparr>"
    by (auto simp: flush_mallocs_def rbind_eq_Inr)
  note f = same_rest_loop[OF broadcast_malloc_chunk_frame[OF u(1)]]
  show "same_loop s t" "ro_index t = ro_index s" using f u(2) by (simp_all add: same_loop_def)
  show "\<forall>sh \<in> P. \<forall>x \<in> page_at sh. pmem t x = pmem s x"
    using f assms(2) unfolding u(2) by (simp add: zero_range_def apart_def)
qed

lemma send_all_swept:
  assumes r: "rfold (send_touched w iter) (shadow_globals s) s = Inr s1" "rfold (send_touched w iter) (shadow_stacks s1) s1 = Inr s2"
      "rfold (send_touched w iter) (sorted_list_of_set (shadow_heaps s2)) s2 = Inr s3"
    and P: "P = metadata_pages s" "finite (shadow_heaps s)" "\<forall>p \<in> P. unat p mod PAGE_SIZE = 0" "apart P (ro_data s) PAGE_SIZE"
    and i: "ro_index s \<le> RO_ENTRY_BUFFER_SIZE"
  shows "swept P s P s3"
proof -
  have sub: "set (shadow_globals s) \<subseteq> P" "set (shadow_stacks s) \<subseteq> P" "set (sorted_list_of_set (shadow_heaps s)) \<subseteq> P"
    using P(2) by (auto simp: P(1) metadata_pages_def)
  have 0: "swept P s {} s" using i by (simp add: swept_def)
  note 1 = swept_fold[OF 0 sub(1) r(1) P(3,4)]
  then have e1: "shadow_stacks s1 = shadow_stacks s" by (simp add: swept_def same_loop_def)
  note 2 = swept_fold[OF 1 sub(2) r(2)[unfolded e1] P(3,4)]
  then have e2: "shadow_heaps s2 = shadow_heaps s" by (simp add: swept_def same_loop_def)
  note 3 = swept_fold[OF 2 sub(3) r(3)[unfolded e2] P(3,4)]
  have "set (sorted_list_of_set (shadow_heaps s)) \<union> (set (shadow_stacks s) \<union> (set (shadow_globals s) \<union> {})) = P"
    using P(1,2) by (auto simp: metadata_pages_def)
  with 3 show ?thesis by simp
qed

text \<open>
  C12. The next iteration starts with clean metadata: when the worker that ran the iteration returns from
  \<open>end_iter\<close>, no page of globals, stack or heap is marked touched, the metadata of every page that was is
  zero, and the iteration counter has advanced. The pages are aligned and do not overlap the buffers of
  read-only pages and of allocation records.
\<close>

theorem end_iter_resets_metadata:
  assumes r: "end_iter s = Inr s'" "run_iteration s (my_wid s) (current_iteration s)" "finite (shadow_heaps s)"
    and P: "\<forall>p \<in> metadata_pages s. unat p mod PAGE_SIZE = 0" "apart (metadata_pages s) (ro_data s) PAGE_SIZE"
      "apart (metadata_pages s) (vm_elem s (my_wid s)) (sizeof_instance * PAGE_SIZE)" "ro_index s \<le> RO_ENTRY_BUFFER_SIZE"
  shows "current_iteration s' = current_iteration s + 1 \<and>
    (\<forall>sh \<in> metadata_pages s. \<not> touched s' sh \<and> (touched s sh \<longrightarrow> (\<forall>i < PAGE_SIZE. pmem s' (sh + of_nat i) = 0)))"
proof -
  let ?w = "my_wid s" and ?it = "current_iteration s"
  let ?s = "update_shadow_for_linear_predicted_values (update_shadow_for_loop_invariants s)"
  have s1: "same_loop s ?s" "ro_index ?s = ro_index s" "vm_elem ?s = vm_elem s" "bit (pmem ?s a) 7 \<longleftrightarrow> bit (pmem s a) 7" for a
    by (simp_all add: shadow_passes_touched) (simp_all add: update_shadow_for_linear_predicted_values_def
        update_shadow_for_loop_invariants_def same_loop_def)
  obtain t a b c d u where f: "flush_mallocs ?w ?s = Inr t" "rfold (send_touched ?w ?it) (shadow_globals t) t = Inr a"
      "rfold (send_touched ?w ?it) (shadow_stacks a) a = Inr b" "rfold (send_touched ?w ?it) (sorted_list_of_set (shadow_heaps b)) b = Inr c"
      "forward_ro_page ?w ?it c = Inr d" "broadcast_event ?w 0xDEADBEEF 0 0 WRITE EOI d = Inr u \<or> u = d" "s' = advance_iter u"
  proof -
    from r(1,2) obtain d u where d: "send_iteration ?w ?it s = Inr d"
        and u: "broadcast_event ?w 0xDEADBEEF 0 0 WRITE EOI d = Inr u \<or> u = d" "s' = advance_iter u"
      by (auto simp: end_iter_def Let_def rbind_eq_Inr split: if_splits)
    from d show ?thesis unfolding send_iteration_def rbind_eq_Inr using that u by blast
  qed
  note fl = flush_mallocs_effect[OF f(1), unfolded s1(3), OF P(3)]
  have st: "same_loop s t" using same_loop_trans[OF s1(1) fl(1)] .
  then have mp: "metadata_pages t = metadata_pages s" by (simp add: metadata_pages_def same_loop_def)
  have rd: "ro_data t = ro_data s" "shadow_heaps t = shadow_heaps s" using st by (simp_all add: same_loop_def)
  have sw: "swept (metadata_pages s) t (metadata_pages s) c"
    by (rule send_all_swept[OF f(2-4)]) (use mp rd P r(3) fl(2) s1(2) in simp_all)
  have du: "same_loop d u" "pmem u = pmem d" using f(6) same_rest_loop(1,2)[OF broadcast_event_frame] by auto
  have wd: "wrote {} c d" by (rule forward_ro_page_wrote[OF f(5)])
  have "current_iteration u = current_iteration s"
    using du(1) wd sw st by (simp add: wrote_def swept_def same_loop_def)
  then have it: "current_iteration s' = current_iteration s + 1" using f(7) by (simp add: advance_iter_def)
  have mem: "pmem s' x = (if bit (pmem s sh) 7 then 0 else pmem t x)" if sh: "sh \<in> metadata_pages s" "x \<in> page_at sh" for sh x
  proof -
    have "\<not> unat (x - ro_data c) < PAGE_SIZE" using sh P(2) sw rd by (auto simp: apart_def swept_def same_loop_def)
    then have "pmem s' x = pmem c x" using wd sw f(7) du(2) by (simp add: wrote_def swept_def advance_iter_def)
    moreover have "bit (pmem t sh) 7 \<longleftrightarrow> bit (pmem s sh) 7" using fl(3) sh(1) page_at_self s1(4) by auto
    ultimately show ?thesis using sw sh by (simp add: swept_def)
  qed
  have "sh + of_nat i \<in> page_at sh" if "i < PAGE_SIZE" for sh i
    using that by (simp add: page_at_def unat_of_nat PAGE_SIZE_def)
  moreover have "bit (pmem t sh) 7 \<longleftrightarrow> bit (pmem s sh) 7" if "sh \<in> metadata_pages s" for sh
    using fl(3) that page_at_self s1(4) by auto
  ultimately show ?thesis using it mem page_at_self unfolding touched_def by auto
qed

subsection \<open>A concrete iteration\<close>

definition ldemo :: loop_state where
  "ldemo = pred_state.extend (qdemo\<lparr>num_linear_predictable_loads := 0\<rparr>) (loop_state.fields 0x7e0000000000 0 [] [] 0 0)"

lemmas ldemo_defs = ldemo_def pred_state.defs loop_state.defs qdemo_def prot_state.defs pdemo_def run_state.defs rdemo_def
  sep_state.defs sdemo_def malloc_state.defs mdemo_def comm_state.defs ver_malloc_init_def

text \<open>The pools, queues and tables of the concrete state are those of \<open>demo\<close>.\<close>

lemma ldemo_comm [simp]:
  "packet_begins ldemo = packet_begins (demo (\<lambda>_. 0))" "packet_ends ldemo = packet_ends (demo (\<lambda>_. 0))"
  "packet_nexts ldemo = packet_nexts (demo (\<lambda>_. 0))" "packet_chunk_begins ldemo = packet_chunk_begins (demo (\<lambda>_. 0))"
  "packet_chunk_ends ldemo = packet_chunk_ends (demo (\<lambda>_. 0))" "packet_chunk_nexts ldemo = packet_chunk_nexts (demo (\<lambda>_. 0))"
  "commit_process_packet_begin ldemo = commit_process_packet_begin (demo (\<lambda>_. 0))"
  "commit_process_packet_end ldemo = commit_process_packet_end (demo (\<lambda>_. 0))"
  "commit_process_packet_next ldemo = commit_process_packet_next (demo (\<lambda>_. 0))" "packets ldemo = packets (demo (\<lambda>_. 0))"
  "chunks ldemo = chunks (demo (\<lambda>_. 0))"
  "chan ldemo = chan (demo (\<lambda>_. 0))" "try_commit_begin ldemo = 2" "num_aux_workers ldemo = 1" "num_stages ldemo = num_stages (demo (\<lambda>_. 0))"
  "stage2rep ldemo = stage2rep (demo (\<lambda>_. 0))" "wid2stage ldemo = wid2stage (demo (\<lambda>_. 0))"
  "stage2firstwid ldemo = stage2firstwid (demo (\<lambda>_. 0))" "my_wid ldemo = 0" "vm_index ldemo = (\<lambda>_. 0)" "vm_elem ldemo = (\<lambda>_. 0x7f0000000000)"
  "current_iteration ldemo = 4" "ro_data ldemo = 0x7e0000000000" "ro_index ldemo = 0" "shadow_globals ldemo = []" "shadow_stacks ldemo = []"
  "num_loop_invariant_loads ldemo = 0" "num_linear_predictable_loads ldemo = 0" "num_contexts ldemo = 1"
  by (simp_all add: ldemo_defs Let_def)

lemma ldemo_ok:
  fixes s :: loop_state
  assumes "s = ldemo\<lparr>pmem := m, shadow_heaps := H, vm_index := v\<rparr>"
  shows "packets_wf s" "strategy_wf s" "chans_rep s (\<lambda>_. [])" "free_packets s 0 = free_packets (demo (\<lambda>_. 0)) 0"
  using demo_ok[where m = "\<lambda>_. 0"] unfolding assms
  by (simp_all add: packets_wf_def strategy_wf_def chans_rep_def free_packets_def packet_slots_def)

lemma ldemo_broadcast:
  fixes s :: loop_state
  assumes s: "s = ldemo\<lparr>pmem := m, shadow_heaps := H, vm_index := v\<rparr>"
  shows "\<exists>s'. broadcast_event 0 0xDEADBEEF 0 0 WRITE EOI s = Inr s'"
proof -
  let ?f = "send 0 0xDEADBEEF 0 0 WRITE EOI"
  note ok = ldemo_ok[OF s]
  have main: "(0 :: nat) \<noteq> MAIN_PROCESS_WID" by (simp add: MAIN_PROCESS_WID_def)
  have c: "broadcast_chans 0 s = [Ucvf 0 (Suc 0)]" "try_chans 0 s = [ToTry 0 0]"
    unfolding s by (simp_all add: broadcast_chans_def try_chans_def demo_def get_defs two_stages_def numeral_2_eq_2)
  have "\<exists>s'. rfold ?f [Ucvf 0 (Suc 0), ToTry 0 0] s = Inr s'"
    by (rule send_all_returns[OF ok(1) _ main ok(3)]) (simp_all add: s has_room_def QUEUE_SIZE_def ok(4)[unfolded s] demo_ok(4) PACKET_POOL_SIZE_def)
  then obtain t s' where t: "?f (Ucvf 0 (Suc 0)) s = Inr t" "?f (ToTry 0 0) t = Inr s'" by (auto simp: rbind_eq_Inr)
  have "same_rest s t" by (rule send_frame[OF t(1)])
  then show ?thesis using t c s by (simp add: broadcast_event_def try_chans_same)
qed

lemma apart_single:
  assumes "unat (a - b) + PAGE_SIZE \<le> 2 ^ 64" "n \<le> unat (a - b)"
  shows "apart {a} b n"
proof -
  have "\<not> unat (a + of_nat i - b) < n" if "i < PAGE_SIZE" for i
  proof -
    have "unat (a - b + of_nat i) = unat (a - b) + i" unfolding unat_add_of_nat using that assms(1) by (intro mod_less) simp
    moreover have "a + of_nat i - b = a - b + of_nat i" by simp
    ultimately show ?thesis using assms(2) by (simp only: not_less)
  qed
  then show ?thesis unfolding apart_def by (blast dest: page_at_mem)
qed

text \<open>The worker of stage 0 at the end of iteration 4; one page was touched and nothing recorded on it.\<close>

theorem end_iter_resets_metadata_witness:
  "\<exists>s'. end_iter (ldemo\<lparr>pmem := (\<lambda>_. 0)(0x200000005000 := 0x80), shadow_heaps := {0x200000005000}\<rparr>) = Inr s' \<and>
     pmem s' 0x200000005000 = 0"
proof -
  let ?a = "0x200000005000 :: addr"
  let ?s = "ldemo\<lparr>pmem := (\<lambda>_. 0)(?a := 0x80), shadow_heaps := {?a}\<rparr>"
  have s1: "update_shadow_for_linear_predicted_values (update_shadow_for_loop_invariants ?s) = ?s"
    by (simp add: update_shadow_for_linear_predicted_values_def update_shadow_for_loop_invariants_def li_entries_def lp_entries_def)
  let ?t = "ldemo\<lparr>pmem := zero_range 0x7f0000000000 (sizeof_instance * PAGE_SIZE) ((\<lambda>_. 0)(?a := 0x80)), shadow_heaps := {?a}, vm_index := (\<lambda>_. 0)(0 := 0)\<rparr>"
  have fl: "flush_mallocs 0 ?s = Inr ?t" by (simp add: flush_mallocs_def broadcast_malloc_chunk_def)
  have z: "zero_range 0x7f0000000000 (sizeof_instance * PAGE_SIZE) ((\<lambda>_. 0)(?a := 0x80)) = (\<lambda>_. 0)(?a := 0x80)"
    by (auto simp: zero_range_def fun_eq_iff sizeof_instance_def PAGE_SIZE_def)
  let ?u = "ldemo\<lparr>pmem := (\<lambda>_. 0), shadow_heaps := {?a}, vm_index := (\<lambda>_. 0)(0 := 0)\<rparr>"
  have "((\<lambda>_. 0)(?a := 0x80, ?a := 0)) = (\<lambda>_. 0 :: byte)" by auto
  then have st: "send_touched 0 4 ?a ?t = Inr ?u"
    unfolding z by (simp add: send_touched_def is_zero_page_iff Let_def)
  have "send_iteration 0 4 ?s = Inr ?u" unfolding send_iteration_def s1 fl using st by (simp add: forward_ro_page_def)
  moreover have run: "run_iteration ?s 0 4"
    by (simp add: run_iteration_def get_defs demo_def two_stages_def)
  moreover obtain s' where "broadcast_event 0 0xDEADBEEF 0 0 WRITE EOI ?u = Inr s'" using ldemo_broadcast[of ?u] by blast
  ultimately have e: "\<exists>s'. end_iter ?s = Inr s'" by (simp add: end_iter_def Let_def)
  have mp: "metadata_pages ?s = {?a}" by (simp add: metadata_pages_def)
  have ap: "apart {?a} 0x7e0000000000 PAGE_SIZE" "apart {?a} 0x7f0000000000 (sizeof_instance * PAGE_SIZE)"
    by (rule apart_single, simp_all add: PAGE_SIZE_def sizeof_instance_def)+
  from e obtain s' where s': "end_iter ?s = Inr s'" by blast
  have "touched ?s ?a" by (simp add: touched_def)
  with end_iter_resets_metadata[OF s', unfolded mp] run ap have "\<forall>i < PAGE_SIZE. pmem s' (?a + of_nat i) = 0"
    by (simp add: PAGE_SIZE_def)
  then have "pmem s' (?a + of_nat 0) = 0" by (rule allE[of _ 0]) (simp add: PAGE_SIZE_def)
  then show ?thesis using s' by auto
qed

end
