(* ===== verification/Procmaps.thy ===== *)
theory Procmaps
  imports Layout
begin

unbundle bit_operations_syntax

section \<open>The memory map of the process\<close>

text \<open>
  Models \<open>internals/smtx/procmapsinfo.h\<close>: the runtime reads \<open>/proc/self/maps\<close> when it starts, to find the
  pages of globals and of the stack. The contents of the file, as a list of lines, are an argument. The set of
  regions, ordered by \<open>begin\<close>, is a list sorted by \<open>rbegin\<close>; inserting a region whose \<open>begin\<close> is already
  present changes nothing. Indexing a vector or string beyond its end is undefined in C++ and \<open>OutOfRange\<close> here.

  \<open>strtoul\<close> with base 16 and \<open>operator>>\<close> for \<open>uint64_t\<close> (base 10) are modelled with their white space,
  sign and range rules.
\<close>

subsection \<open>Numbers and tokens\<close>

definition is_space :: "char \<Rightarrow> bool" where
  "is_space c \<longleftrightarrow> c \<in> set [CHR '' '', CHR 0x09, CHR 0x0A, CHR 0x0B, CHR 0x0C, CHR 0x0D]"

definition hex_digit :: "char \<Rightarrow> nat option" where
  "hex_digit c =
     (let n = of_char c :: nat in
      if 48 \<le> n \<and> n \<le> 57 then Some (n - 48)
      else if 97 \<le> n \<and> n \<le> 102 then Some (n - 87)
      else if 65 \<le> n \<and> n \<le> 70 then Some (n - 55) else None)"

definition dec_digit :: "char \<Rightarrow> nat option" where
  "dec_digit c = (let n = of_char c :: nat in if 48 \<le> n \<and> n \<le> 57 then Some (n - 48) else None)"

text \<open>The longest prefix of digits: its value after \<open>acc\<close>, and how many digits there are.\<close>

fun read_digits :: "(char \<Rightarrow> nat option) \<Rightarrow> nat \<Rightarrow> nat \<Rightarrow> string \<Rightarrow> nat \<times> nat" where
  "read_digits dig base acc [] = (acc, 0)"
| "read_digits dig base acc (c # cs) =
     (case dig c of None \<Rightarrow> (acc, 0)
      | Some d \<Rightarrow> let (v, n) = read_digits dig base (base * acc + d) cs in (v, n + 1))"

definition read_sign :: "string \<Rightarrow> bool \<times> string" where
  "read_sign cs = (case cs of c # cs' \<Rightarrow> if c = CHR ''-'' then (True, cs') else if c = CHR ''+'' then (False, cs') else (False, cs)
     | [] \<Rightarrow> (False, []))"

text \<open>A value outside the range of \<open>unsigned long\<close> is replaced by \<open>ULONG_MAX\<close>; no digits give 0.\<close>

definition strtoul16 :: "string \<Rightarrow> 64 word" where
  "strtoul16 s =
     (let (neg, cs) = read_sign (dropWhile is_space s);
          cs = (case cs of CHR ''0'' # x # d # ds \<Rightarrow>
                  if x \<in> {CHR ''x'', CHR ''X''} \<and> hex_digit d \<noteq> None then d # ds else cs | _ \<Rightarrow> cs);
          v = fst (read_digits hex_digit 16 0 cs)
      in if v \<ge> 2 ^ 64 then -1 else if neg then - of_nat v else of_nat v)"

text \<open>\<open>string_to<uint64_t>\<close>: the stream fails without a digit or out of range, which fails the assertion.\<close>

definition string_to_uint64 :: "string \<Rightarrow> 64 word res" where
  "string_to_uint64 s =
     (let (neg, cs) = read_sign (dropWhile is_space s);
          (v, n) = read_digits dec_digit 10 0 cs
      in if n = 0 \<or> v \<ge> 2 ^ 64 then Inl AssertFailed else Inr (if neg then - of_nat v else of_nat v))"

text \<open>\<open>getline\<close> up to the delimiter, again and again; empty items are dropped.\<close>

fun pieces :: "char \<Rightarrow> string \<Rightarrow> string list" where
  "pieces d [] = [[]]"
| "pieces d (c # cs) = (if c = d then [] # pieces d cs else (c # hd (pieces d cs)) # tl (pieces d cs))"

definition split :: "string \<Rightarrow> char \<Rightarrow> string list" where
  "split s d = filter (\<lambda>t. t \<noteq> []) (pieces d s)"

subsection \<open>Regions\<close>

record region =
  rbegin :: addr
  rend :: addr
  rread :: bool
  rwrite :: bool
  rexecute :: bool
  rshared :: bool
  roffset :: "64 word"
  rdev :: string
  rinode :: "64 word"
  rpathname :: string

definition token_at :: "string list \<Rightarrow> nat \<Rightarrow> string res" where
  "token_at ts i = (if i < length ts then Inr (ts ! i) else Inl OutOfRange)"

text \<open>\<open>s[i]\<close>: the character after the last one is the null character.\<close>

definition char_at :: "string \<Rightarrow> nat \<Rightarrow> char res" where
  "char_at s i = (if i < length s then Inr (s ! i) else if i = length s then Inr (CHR 0x00) else Inl OutOfRange)"

definition parse_region :: "string \<Rightarrow> region res" where
  "parse_region line =
     (let tokens = split line (CHR '' '') in
      if length tokens \<noteq> 5 \<and> length tokens \<noteq> 6 then Inl AssertFailed
      else
        let addrs = split (tokens ! 0) (CHR ''-'') in
        rbind (token_at addrs 0) (\<lambda>b. rbind (token_at addrs 1) (\<lambda>e.
        rbind (char_at (tokens ! 1) 0) (\<lambda>r. rbind (char_at (tokens ! 1) 1) (\<lambda>w.
        rbind (char_at (tokens ! 1) 2) (\<lambda>x. rbind (char_at (tokens ! 1) 3) (\<lambda>sh.
        rbind (string_to_uint64 (tokens ! 2)) (\<lambda>off. rbind (string_to_uint64 (tokens ! 4)) (\<lambda>ino.
          Inr \<lparr>rbegin = strtoul16 b, rend = strtoul16 e, rread = (r = CHR ''r''), rwrite = (w = CHR ''w''),
               rexecute = (x = CHR ''x''), rshared = (sh = CHR ''s''), roffset = off, rdev = tokens ! 3, rinode = ino,
               rpathname = (if length tokens = 6 then tokens ! 5 else [])\<rparr>)))))))))"

fun insert_region :: "region \<Rightarrow> region list \<Rightarrow> region list" where
  "insert_region r [] = [r]"
| "insert_region r (x # xs) =
     (if rbegin r < rbegin x then r # x # xs
      else if rbegin x < rbegin r then x # insert_region r xs else x # xs)"

definition read_maps :: "string list option \<Rightarrow> region list res" where
  "read_maps file =
     (case file of None \<Rightarrow> Inl AssertFailed
      | Some ls \<Rightarrow> rfold (\<lambda>line rs. if line = [] then Inr rs else rbind (parse_region line) (\<lambda>r. Inr (insert_region r rs))) ls [])"

fun isReadOnly :: "region list \<Rightarrow> addr \<Rightarrow> bool" where
  "isReadOnly [] a = False"
| "isReadOnly (r # rs) a =
     (if rbegin r \<le> a then (if rbegin r \<le> a \<and> a < rend r then rread r \<and> \<not> rwrite r else isReadOnly rs a) else False)"

fun doesExist :: "region list \<Rightarrow> addr \<Rightarrow> bool" where
  "doesExist [] a = False"
| "doesExist (r # rs) a =
     (if rbegin r \<le> a then (if rbegin r \<le> a \<and> a < rend r then True else doesExist rs a) else False)"

fun getStackRegion :: "region list \<Rightarrow> (addr \<times> addr) res" where
  "getStackRegion [] = Inl AssertFailed"
| "getStackRegion (r # rs) = (if rpathname r = ''[stack]'' then Inr (rbegin r, rend r) else getStackRegion rs)"

subsection \<open>The set of regions\<close>

definition regions_sorted :: "region list \<Rightarrow> bool" where
  "regions_sorted rs \<longleftrightarrow> sorted_wrt (\<lambda>x y. rbegin x < rbegin y) rs"

lemma set_insert_region: "set (insert_region r rs) \<subseteq> insert r (set rs)"
  by (induction rs) auto

lemma insert_region_sorted: "regions_sorted rs \<Longrightarrow> regions_sorted (insert_region r rs)"
proof (induction rs)
  case (Cons x xs)
  have "rbegin x < rbegin y" if "rbegin x < rbegin r" "y \<in> set (insert_region r xs)" for y
    using that Cons.prems set_insert_region[of r xs] by (auto simp: regions_sorted_def)
  then show ?case using Cons by (auto simp: regions_sorted_def)
qed (simp add: regions_sorted_def)

lemma read_maps_sorted:
  assumes "read_maps file = Inr rs"
  shows "regions_sorted rs"
proof -
  let ?f = "\<lambda>line rs. if line = [] then Inr rs else rbind (parse_region line) (\<lambda>r. Inr (insert_region r rs))"
  from assms obtain ls where "rfold ?f ls [] = Inr rs" by (auto simp: read_maps_def split: option.splits)
  then show ?thesis
    by (rule rfold_invariant[where P = regions_sorted, rotated 2])
       (auto simp: rbind_eq_Inr insert_region_sorted split: if_splits, simp add: regions_sorted_def)
qed

lemma doesExist_iff: "regions_sorted rs \<Longrightarrow> doesExist rs a \<longleftrightarrow> (\<exists>r \<in> set rs. rbegin r \<le> a \<and> a < rend r)"
  by (induction rs) (auto simp: regions_sorted_def)

lemma isReadOnly_sound:
  "regions_sorted rs \<Longrightarrow> isReadOnly rs a \<Longrightarrow> \<exists>r \<in> set rs. rbegin r \<le> a \<and> a < rend r \<and> rread r \<and> \<not> rwrite r"
  by (induction rs) (auto simp: regions_sorted_def split: if_splits)

lemma isReadOnly_complete:
  assumes "regions_sorted rs" "r \<in> set rs" "rbegin r \<le> a" "a < rend r" "rread r" "\<not> rwrite r"
    and "\<forall>r' \<in> set rs. r' \<noteq> r \<longrightarrow> \<not> (rbegin r' \<le> a \<and> a < rend r')"
  shows "isReadOnly rs a"
  using assms
proof (induction rs)
  case (Cons x xs)
  show ?case
  proof (cases "x = r")
    case False
    then have "r \<in> set xs" "rbegin x < rbegin r" using Cons.prems(1,2) by (auto simp: regions_sorted_def)
    moreover have "rbegin x \<le> a" using calculation(2) Cons.prems(3) by simp
    moreover have "\<not> a < rend x" using Cons.prems(7) False calculation(3) by auto
    ultimately show ?thesis using Cons by (auto simp: regions_sorted_def)
  qed (use Cons.prems in simp)
qed simp

subsection \<open>Reading back a line of the file\<close>

lemma read_digits_all:
  assumes "\<forall>c \<in> set xs. dig c \<noteq> None"
  shows "read_digits dig base acc xs = (foldl (\<lambda>a c. base * a + the (dig c)) acc xs, length xs)"
  using assms by (induction xs arbitrary: acc) auto

fun num_str :: "(nat \<Rightarrow> char) \<Rightarrow> nat \<Rightarrow> nat \<Rightarrow> string" where
  "num_str dc base n = (if n < base \<or> base < 2 then [dc n] else num_str dc base (n div base) @ [dc (n mod base)])"

declare num_str.simps [simp del]

definition hexc :: "nat \<Rightarrow> char" where
  "hexc n = char_of (if n < 10 then 48 + n else 87 + n)"

definition hex_str :: "nat \<Rightarrow> string" where "hex_str n = num_str hexc 16 n"
definition dec_str :: "nat \<Rightarrow> string" where "dec_str n = num_str hexc 10 n"

lemma num_str_digits:
  assumes "2 \<le> base" "\<And>d. d < base \<Longrightarrow> dig (dc d) = Some d"
  shows "num_str dc base n \<noteq> [] \<and> (\<forall>c \<in> set (num_str dc base n). \<exists>d < base. c = dc d) \<and>
    foldl (\<lambda>a c. base * a + the (dig c)) 0 (num_str dc base n) = n"
proof (induction n rule: less_induct)
  case (less n)
  show ?case
  proof (cases "n < base")
    case True
    then show ?thesis using assms by (auto simp: num_str.simps[of dc base n])
  next
    case False
    then have lt: "n div base < n" using assms(1) by (intro div_less_dividend) auto
    have "n mod base < base" using assms(1) by simp
    then have "\<exists>d < base. dc (n mod base) = dc d" by blast
    with \<open>n mod base < base\<close> less.IH[OF lt] False assms show ?thesis by (auto simp: num_str.simps[of dc base n])
  qed
qed

lemma hexc_digit: "d < 16 \<Longrightarrow> hex_digit (hexc d) = Some d" "d < 10 \<Longrightarrow> dec_digit (hexc d) = Some d"
  by (auto simp: hex_digit_def dec_digit_def hexc_def Let_def)

lemma hexc_other: "d < 16 \<Longrightarrow> hexc d \<notin> {CHR '' '', CHR ''-'', CHR ''+'', CHR ''x'', CHR ''X''} \<and> \<not> is_space (hexc d)"
proof -
  assume "d < 16"
  then have o: "(of_char (hexc d) :: nat) = (if d < 10 then 48 + d else 87 + d)" by (simp add: hexc_def)
  show ?thesis using o \<open>d < 16\<close> by (auto simp: is_space_def split: if_splits)
qed

lemma hex_str_ok:
  "hex_str n \<noteq> []" "c \<in> set (hex_str n) \<Longrightarrow> \<exists>d < 16. c = hexc d" "read_digits hex_digit 16 0 (hex_str n) = (n, length (hex_str n))"
proof -
  note d = num_str_digits[of 16 hex_digit hexc n, folded hex_str_def] hexc_digit(1)
  show "hex_str n \<noteq> []" "c \<in> set (hex_str n) \<Longrightarrow> \<exists>d < 16. c = hexc d" using d by auto
  show "read_digits hex_digit 16 0 (hex_str n) = (n, length (hex_str n))"
    using d by (subst read_digits_all) fastforce+
qed

lemma dec_str_ok:
  "dec_str n \<noteq> []" "c \<in> set (dec_str n) \<Longrightarrow> \<exists>d < 10. c = hexc d" "read_digits dec_digit 10 0 (dec_str n) = (n, length (dec_str n))"
proof -
  note d = num_str_digits[of 10 dec_digit hexc n, folded dec_str_def] hexc_digit(2)
  show "dec_str n \<noteq> []" "c \<in> set (dec_str n) \<Longrightarrow> \<exists>d < 10. c = hexc d" using d by auto
  show "read_digits dec_digit 10 0 (dec_str n) = (n, length (dec_str n))"
    using d by (subst read_digits_all) fastforce+
qed

lemma read_sign_digits:
  assumes "xs \<noteq> []" "\<forall>c \<in> set xs. \<exists>d < 16. c = hexc d"
  shows "read_sign (dropWhile is_space xs) = (False, xs)"
proof -
  obtain c cs where xs: "xs = c # cs" using assms(1) by (cases xs) auto
  then have "c \<notin> {CHR '' '', CHR ''-'', CHR ''+'', CHR ''x'', CHR ''X''} \<and> \<not> is_space c" using assms(2) hexc_other by auto
  then show ?thesis by (simp add: read_sign_def xs)
qed

lemma strtoul16_hex: "n < 2 ^ 64 \<Longrightarrow> strtoul16 (hex_str n) = of_nat n"
proof -
  assume n: "n < 2 ^ 64"
  have x: "x \<notin> {CHR ''x'', CHR ''X''}" if "x \<in> set (hex_str n)" for x using hex_str_ok(2)[OF that] hexc_other by auto
  have pre: "(case hex_str n of CHR ''0'' # x # d # ds \<Rightarrow>
                  if x \<in> {CHR ''x'', CHR ''X''} \<and> hex_digit d \<noteq> None then d # ds else hex_str n | _ \<Rightarrow> hex_str n) = hex_str n"
    using x by (auto split: list.split char.split bool.split) blast+
  have sg: "read_sign (dropWhile is_space (hex_str n)) = (False, hex_str n)"
    using read_sign_digits hex_str_ok(1,2) by blast
  show ?thesis unfolding strtoul16_def sg Let_def prod.case pre using n by (simp add: hex_str_ok(3))
qed

lemma string_to_dec: "n < 2 ^ 64 \<Longrightarrow> string_to_uint64 (dec_str n) = Inr (of_nat n)"
proof -
  assume n: "n < 2 ^ 64"
  have "\<forall>c \<in> set (dec_str n). \<exists>d < 16. c = hexc d" 
  proof
    fix c assume "c \<in> set (dec_str n)"
    then obtain d where "d < 10" "c = hexc d" using dec_str_ok(2) by blast
    then show "\<exists>d < 16. c = hexc d" by (intro exI[of _ d]) simp
  qed
  from read_sign_digits[OF dec_str_ok(1) this] have sg: "read_sign (dropWhile is_space (dec_str n)) = (False, dec_str n)" .
  show ?thesis unfolding string_to_uint64_def sg Let_def prod.case using n dec_str_ok(1,3)[of n] by simp
qed

text \<open>Splitting a line built from tokens.\<close>

lemma pieces_token: "d \<notin> set xs \<Longrightarrow> pieces d (xs @ d # ys) = xs # pieces d ys" "d \<notin> set xs \<Longrightarrow> pieces d xs = [xs]"
  by (induction xs) auto

lemma split_token: "d \<notin> set xs \<Longrightarrow> xs \<noteq> [] \<Longrightarrow> split (xs @ d # ys) d = xs # split ys d"
  "d \<notin> set xs \<Longrightarrow> xs \<noteq> [] \<Longrightarrow> split xs d = [xs]" "split (replicate k d @ ys) d = split ys d" "split [] d = []"
  by (simp_all add: split_def pieces_token) (induction k; simp)

text \<open>
  A line as the kernel writes it: addresses in hexadecimal, four permission characters, offset, device, inode
  in decimal, and after one or more spaces the path, if there is one. \<open>off\<close> is the text of the offset.
\<close>

definition perm_str :: "region \<Rightarrow> string" where
  "perm_str r = [if rread r then CHR ''r'' else CHR ''-'', if rwrite r then CHR ''w'' else CHR ''-'',
     if rexecute r then CHR ''x'' else CHR ''-'', if rshared r then CHR ''s'' else CHR ''p'']"

definition print_region :: "nat \<Rightarrow> string \<Rightarrow> region \<Rightarrow> string" where
  "print_region k off r =
     hex_str (unat (rbegin r)) @ CHR ''-'' # hex_str (unat (rend r)) @ CHR '' '' # perm_str r @ CHR '' '' # off @ CHR '' '' # rdev r @
     CHR '' '' # dec_str (unat (rinode r)) @ (if rpathname r = [] then [] else CHR '' '' # replicate k (CHR '' '') @ rpathname r)"

definition token :: "string \<Rightarrow> bool" where
  "token t \<longleftrightarrow> t \<noteq> [] \<and> CHR '' '' \<notin> set t"

lemma hex_str_no: "CHR '' '' \<notin> set (hex_str n)" "CHR ''-'' \<notin> set (hex_str n)" and dec_str_no: "CHR '' '' \<notin> set (dec_str n)"
proof -
  have "c \<notin> set (hex_str n)" if "c = CHR '' '' \<or> c = CHR ''-''" for c
  proof
    assume "c \<in> set (hex_str n)"
    then obtain d where "d < 16" "c = hexc d" using hex_str_ok(2) by blast
    then show False using hexc_other[of d] that by auto
  qed
  then show "CHR '' '' \<notin> set (hex_str n)" "CHR ''-'' \<notin> set (hex_str n)" by simp_all
  show "CHR '' '' \<notin> set (dec_str n)"
  proof
    assume "CHR '' '' \<in> set (dec_str n)"
    then obtain d where "d < 10" "CHR '' '' = hexc d" using dec_str_ok(2) by blast
    then show False using hexc_other[of d] by simp
  qed
qed

lemma split_line:
  assumes "token off" "token (rdev r)"
  shows "split (print_region k off r) (CHR '' '') =
    [hex_str (unat (rbegin r)) @ CHR ''-'' # hex_str (unat (rend r)), perm_str r, off, rdev r, dec_str (unat (rinode r))] @
    (if rpathname r = [] then [] else split (rpathname r) (CHR '' ''))"
proof -
  let ?a = "hex_str (unat (rbegin r)) @ CHR ''-'' # hex_str (unat (rend r))"
  let ?rest = "if rpathname r = [] then [] else CHR '' '' # replicate k (CHR '' '') @ rpathname r"
  have a: "CHR '' '' \<notin> set ?a" "?a \<noteq> []" using hex_str_no by auto
  have p: "CHR '' '' \<notin> set (perm_str r)" "perm_str r \<noteq> []" by (auto simp: perm_str_def)
  have l: "print_region k off r = ?a @ CHR '' '' # perm_str r @ CHR '' '' # off @ CHR '' '' # rdev r @ CHR '' '' # dec_str (unat (rinode r)) @ ?rest"
    by (simp add: print_region_def)
  have i: "split (dec_str (unat (rinode r)) @ ?rest) (CHR '' '') =
      dec_str (unat (rinode r)) # (if rpathname r = [] then [] else split (rpathname r) (CHR '' ''))"
    using dec_str_no dec_str_ok(1) by (simp add: split_token)
  show ?thesis unfolding l using split_token(1)[OF a] split_token(1)[OF p] assms i by (simp add: split_token(1) token_def)
qed

lemma parse_print:
  assumes "token off" "token (rdev r)" "rpathname r = [] \<or> token (rpathname r)"
  shows "parse_region (print_region k off r) =
    (case string_to_uint64 off of Inl e \<Rightarrow> Inl e | Inr v \<Rightarrow> Inr (r\<lparr>roffset := v\<rparr>))"
proof -
  let ?a = "hex_str (unat (rbegin r))" and ?b = "hex_str (unat (rend r))"
  let ?ts = "[?a @ CHR ''-'' # ?b, perm_str r, off, rdev r, dec_str (unat (rinode r))] @ (if rpathname r = [] then [] else [rpathname r])"
  have ts: "split (print_region k off r) (CHR '' '') = ?ts"
    using split_line[OF assms(1,2)] assms(3) by (auto simp: token_def split_token(2))
  have ab: "split (?a @ CHR ''-'' # ?b) (CHR ''-'') = [?a, ?b]"
    using hex_str_no hex_str_ok(1) by (simp add: split_token)
  have lt: "unat w < 2 ^ 64" for w :: "64 word" using unsigned_less[of w] by simp
  have h: "strtoul16 ?a = rbegin r" "strtoul16 ?b = rend r" using strtoul16_hex[OF lt] by simp_all
  have i: "string_to_uint64 (dec_str (unat (rinode r))) = Inr (rinode r)" using string_to_dec[OF lt] by simp
  show ?thesis
    unfolding parse_region_def ts Let_def
    by (cases "string_to_uint64 off") (auto simp: ab h i token_at_def char_at_def perm_str_def)
qed


definition rdemo_region :: region where
  "rdemo_region = \<lparr>rbegin = 0x400000, rend = 0x401000, rread = True, rwrite = False, rexecute = True, rshared = False,
     roffset = 0x1000, rdev = ''08:01'', rinode = 77, rpathname = ''/bin/prog''\<rparr>"


text \<open>A path with a space in it (or the mark \<open>(deleted)\<close> the kernel appends) has more than six tokens.\<close>

lemma path_with_space_asserts:
  assumes "token off" "token (rdev r)" "rpathname r = p @ CHR '' '' # q" "token p" "token q"
  shows "parse_region (print_region k off r) = Inl AssertFailed"
proof -
  have "split (rpathname r) (CHR '' '') = [p, q]" using assms(3-5) by (simp add: split_token token_def)
  then show ?thesis unfolding parse_region_def split_line[OF assms(1,2)] using assms(3) by simp
qed

end

