(* ===== verification/Control.thy ===== *)
theory Control
  imports Loopevent Procmaps
begin

unbundle bit_operations_syntax

section \<open>Process control\<close>

text \<open>
  Models \<open>smtx/smtx.cpp\<close>, \<open>control.cpp\<close> and the invocation functions of \<open>loopevent.cpp\<close>: start-up, the number
  of workers, forking and joining.

  Parameters stand for what the operating system answers: the lines of \<open>/proc/self/maps\<close>, where mappings
  succeed (\<open>mm\<close>), the value of \<open>NPROCESSORS\<close>, the addresses of fresh shared memory (\<open>pk\<close>, \<open>cm\<close>, \<open>ck\<close>), and
  \<open>pids w\<close>, what the \<open>w\<close>-th \<open>fork\<close> returns in the process that runs: 0 in the child. The callback is the
  code the compiler generated for the loop; it may return or end the process. \<open>atoi\<close> outside the range of
  \<open>int\<close> is undefined in C++ and not bounded here. Installing signal handlers and debug output are left out.
\<close>

record control_state = loop_state +
  num_procs :: int
  num_available :: int
  num_active :: int
  worker_pids :: "wid \<Rightarrow> int"

subsection \<open>Start-up\<close>

definition map_shadow :: "(addr \<Rightarrow> bool) \<Rightarrow> addr \<Rightarrow> 'a loop_state_scheme \<Rightarrow> 'a loop_state_scheme res" where
  "map_shadow mm i s =
     (if \<not> mm (get_shadow_of i) then Inl AssertFailed
      else Inr (s\<lparr>pmem := zero_range (get_shadow_of i) PAGE_SIZE (pmem s)\<rparr>))"

definition init_global_page :: "(addr \<Rightarrow> bool) \<Rightarrow> region list \<Rightarrow> addr \<Rightarrow> 'a loop_state_scheme \<Rightarrow> 'a loop_state_scheme res" where
  "init_global_page mm maps i s =
     (if \<not> doesExist maps i then Inr s
      else rbind (map_shadow mm i s) (\<lambda>s.
        if isReadOnly maps i then Inr s else Inr (s\<lparr>shadow_globals := shadow_globals s @ [get_shadow_of i]\<rparr>)))"

definition init_stack_page :: "(addr \<Rightarrow> bool) \<Rightarrow> addr \<Rightarrow> 'a loop_state_scheme \<Rightarrow> 'a loop_state_scheme res" where
  "init_stack_page mm i s =
     rbind (map_shadow mm i s) (\<lambda>s. Inr (s\<lparr>shadow_stacks := shadow_stacks s @ [get_shadow_of i]\<rparr>))"

definition init :: "string list option \<Rightarrow> (addr \<Rightarrow> bool) \<Rightarrow> addr \<Rightarrow> addr \<Rightarrow> 'a loop_state_scheme \<Rightarrow> 'a loop_state_scheme res" where
  "init file mm etext end s =
     (let s = s\<lparr>shadow_globals := [], shadow_stacks := [], shadow_heaps := {}, heap_size_map := Map.empty\<rparr> in
      rbind (read_maps file) (\<lambda>maps.
      let hbound = ROUND_UP end (of_nat PAGE_SIZE); hbegin = etext AND PAGE_MASK in
      rbind (rfold (init_global_page mm maps) (region_pages hbegin hbound) s) (\<lambda>s.
      rbind (getStackRegion maps) (\<lambda>(sb, se).
      let s = s\<lparr>stack_begin := sb AND PAGE_MASK, stack_bound := ROUND_UP se (of_nat PAGE_SIZE)\<rparr> in
      rbind (rfold (init_stack_page mm) (region_pages (stack_begin s) (stack_bound s)) s) (\<lambda>s.
        Inr (ver_malloc_init s))))))"

definition set_try_commit_begin :: "wid \<Rightarrow> 'a control_state_scheme \<Rightarrow> 'a control_state_scheme res" where
  "set_try_commit_begin wid s = (if try_commit_begin s \<noteq> 0 then Inl AssertFailed else Inr (s\<lparr>try_commit_begin := wid\<rparr>))"

definition reset_try_commit_begin :: "'a control_state_scheme \<Rightarrow> 'a control_state_scheme" where
  "reset_try_commit_begin s = s\<lparr>try_commit_begin := 0\<rparr>"

subsection \<open>The number of workers\<close>

definition atoi :: "string \<Rightarrow> int" where
  "atoi str = (let (neg, cs) = read_sign (dropWhile is_space str); v = int (fst (read_digits dec_digit 10 0 cs))
     in if neg then - v else v)"

definition num_available_workers :: "string option \<Rightarrow> 'a control_state_scheme \<Rightarrow> int \<times> 'a control_state_scheme" where
  "num_available_workers nprocessors s =
     (let s = (if num_available s = -1
               then case nprocessors of
                   Some str \<Rightarrow> s\<lparr>num_procs := atoi str, num_aux_workers := 1,
                                  num_available := (if atoi str - 2 > 0 then atoi str - 2 else 0)\<rparr>
                 | None \<Rightarrow> s\<lparr>num_available := 0\<rparr>
               else s)
      in (num_available s, s))"

definition begin_invocation :: "addr \<Rightarrow> string option \<Rightarrow> 'a control_state_scheme \<Rightarrow> int \<times> 'a control_state_scheme" where
  "begin_invocation ebp nprocessors s =
     (let s = reset_current_iter (s\<lparr>stack_bound := ebp\<rparr>);
          s = update_pcb (\<lambda>p. p\<lparr>exit_taken := 0, misspeculation_happened := False, misspeculated_worker := 0,
                misspeculated_iteration := -1, misspeculation_reason := None, last_committed_iteration := -1\<rparr>) s
      in num_available_workers nprocessors s)"

definition end_invocation :: "'a control_state_scheme \<Rightarrow> nat \<times> 'a control_state_scheme" where
  "end_invocation s = (let (p, s) = get_pcb s in (exit_taken p, destroy_pcb s))"

subsection \<open>Forking and joining\<close>

fun fork_loop :: "(wid \<Rightarrow> int) \<Rightarrow> iteration \<Rightarrow> wid list \<Rightarrow> 'a control_state_scheme \<Rightarrow> (wid \<times> 'a control_state_scheme) res" where
  "fork_loop pids iter [] s = Inr (MAIN_PROCESS_WID, set_current_iter iter s)"
| "fork_loop pids iter (w # ws) s =
     (if pids w = 0 then rbind (init_worker iter w s) (\<lambda>s. Inr (w, s))
      else fork_loop pids iter ws (s\<lparr>worker_pids := (worker_pids s)(w := pids w)\<rparr>))"

definition spawn_workers :: "(wid \<Rightarrow> int) \<Rightarrow> int \<Rightarrow> int \<Rightarrow> iteration \<Rightarrow> 'a control_state_scheme \<Rightarrow> (wid \<times> 'a control_state_scheme) res" where
  "spawn_workers pids num_workers n_aux iter s =
     (let s = s\<lparr>num_active := num_workers, num_available := num_available s - num_workers\<rparr> in
      rbind (set_try_commit_begin (nat num_workers) s) (\<lambda>s.
        fork_loop pids iter [0..<nat (num_workers + n_aux)] s))"

definition spawn_workers_callback :: "string option \<Rightarrow> addr list \<Rightarrow> addr \<Rightarrow> addr list \<Rightarrow> (wid \<Rightarrow> int) \<Rightarrow>
    ('a control_state_scheme \<Rightarrow> ('a control_state_scheme, 'a control_state_scheme) outcome res) \<Rightarrow>
    nat \<Rightarrow> (addr \<Rightarrow> bool) \<Rightarrow> (64 word \<Rightarrow> iteration \<Rightarrow> 64 word \<Rightarrow> 64 word) \<Rightarrow> (64 word \<Rightarrow> 32 word) \<Rightarrow> iteration \<Rightarrow> 'a control_state_scheme \<Rightarrow> ('a control_state_scheme, wid \<times> 'a control_state_scheme) outcome res" where
  "spawn_workers_callback nprocessors pk cm ck pids callback fuel mm fp fl iter s =
     (if my_wid s \<noteq> MAIN_PROCESS_WID then Inl AssertFailed
      else
        let (num_workers, s) = num_available_workers nprocessors s;
            s = init_queues (nat num_workers) (num_aux_workers s) s;
            s = init_packets (nat num_workers + num_aux_workers s) pk cm ck s;
            s = s\<lparr>good_to_go := 0\<rparr>
        in xbind (xlift (spawn_workers pids num_workers (int (num_aux_workers s)) iter s)) (\<lambda>(id, s).
             if id = MAIN_PROCESS_WID then Inr (Cont (id, s))
             else xbind (if id < nat num_workers then callback s
                         else if id < nat num_workers + num_aux_workers s then try_commit fuel mm fp fl s
                         else Inl AssertFailed) (\<lambda>s.
                  xbind (worker_finishes 0 s) (\<lambda>_. Inl AssertFailed))))"

text \<open>What \<open>join_children\<close> does once all workers have ended and everything is committed.\<close>

definition finish_join :: "'a control_state_scheme \<Rightarrow> nat \<times> 'a control_state_scheme" where
  "finish_join s =
     (let s = reset_predictors s;
          s = s\<lparr>chan := (\<lambda>_. None)\<rparr>;
          s = reset_try_commit_begin s;
          s = s\<lparr>num_available := num_available s + num_active s, num_active := 0\<rparr>;
          (p, s) = get_pcb s
      in (if \<not> misspeculation_happened p then exit_taken p else 0, s))"

definition join_children :: "(addr \<Rightarrow> bool) \<Rightarrow> (wid \<Rightarrow> bool) list \<Rightarrow> 'a control_state_scheme \<Rightarrow> (nat \<times> 'a control_state_scheme) res" where
  "join_children mm exs s =
     (if my_wid s \<noteq> MAIN_PROCESS_WID then Inl AssertFailed
      else rbind (commit mm (nat (num_active s) + num_aux_workers s) exs s) (\<lambda>s. Inr (finish_join s)))"

subsection \<open>Joining undoes spawning\<close>

lemma same_more_control:
  fixes s t :: "'a control_state_scheme"
  assumes "pred_state.more t = pred_state.more s"
  shows "num_available t = num_available s" "num_active t = num_active s"
  using assms by (cases s, cases t, simp)+

lemma others_control: "others s t \<Longrightarrow> same_process s t"
  by (simp add: others_def same_process_def)

lemma finish_join_effect:
  assumes "finish_join s = (e, t)"
  shows "my_wid t = my_wid s" "num_available t = num_available s + num_active s" "num_active t = 0" "try_commit_begin t = 0"
    "e = (if misspeculation_happened (pcb_of t) then 0 else exit_taken (pcb_of t))"
  using assms
  by (auto simp: finish_join_def Let_def reset_try_commit_begin_def reset_predictors_def get_pcb_def pcb_of_def zero_pcb_def
      split: option.splits if_splits)

lemma fork_loop_main:
  assumes "fork_loop pids iter ws s = Inr (MAIN_PROCESS_WID, t)" "\<forall>w \<in> set ws. w \<noteq> MAIN_PROCESS_WID"
  shows "(\<forall>w \<in> set ws. pids w \<noteq> 0) \<and> num_available t = num_available s \<and> num_active t = num_active s \<and>
    num_aux_workers t = num_aux_workers s \<and> my_wid t = my_wid s \<and> try_commit_begin t = try_commit_begin s"
  using assms
proof (induction ws arbitrary: s)
  case (Cons w ws)
  have "pids w \<noteq> 0" using Cons.prems by (auto simp: rbind_eq_Inr)
  with Cons show ?case by auto
qed (auto simp: set_current_iter_def)

text \<open>Only the main process returns from spawning.\<close>

lemma spawn_returns_main:
  assumes "spawn_workers_callback np pk cm ck pids cb fuel mm fp fl iter s = Inr (Cont (wid, t))"
  shows "wid = MAIN_PROCESS_WID \<and> my_wid s = MAIN_PROCESS_WID \<and>
    spawn_workers pids (fst (num_available_workers np s)) (int (num_aux_workers (snd (num_available_workers np s)))) iter
      ((init_packets (nat (fst (num_available_workers np s)) + num_aux_workers (snd (num_available_workers np s))) pk cm ck
         (init_queues (nat (fst (num_available_workers np s))) (num_aux_workers (snd (num_available_workers np s))) (snd (num_available_workers np s))))
        \<lparr>good_to_go := 0\<rparr>) = Inr (wid, t)"
proof -
  obtain n s1 where n: "num_available_workers np s = (n, s1)" by (cases "num_available_workers np s")
  have aux: "num_aux_workers (init_queues a b s1) = num_aux_workers s1" "num_aux_workers (init_packets c pk cm ck s2) = num_aux_workers s2"
    for a b c and s2 :: "'a control_state_scheme" by (simp_all add: init_queues_def init_packets_def Let_def)
  show ?thesis using assms
    by (auto simp: spawn_workers_callback_def Let_def n aux xbind_eq_Cont xlift_eq_Cont split: if_splits)
qed

text \<open>
  C14. Joining undoes spawning: when the main process has spawned its workers, the other processes have run,
  and it has joined them, the number of available workers is what it was, no worker is active, and
  \<open>try_commit_begin\<close> is reset, so that the next invocation can spawn again. Only the main process returns
  from spawning, and every \<open>fork\<close> in it gave a process id. The result is the exit that was taken, or 0
  after a misspeculation.
\<close>

theorem join_undoes_spawn:
  assumes "spawn_workers_callback np pk cm ck pids cb fuel mm fp fl iter s = Inr (Cont (wid, t))" "others t u"
    and "join_children mm' exs u = Inr (e, v)"
    and "0 \<le> fst (num_available_workers np s)"
      "nat (fst (num_available_workers np s)) + num_aux_workers (snd (num_available_workers np s)) \<le> MAIN_PROCESS_WID"
  shows "wid = MAIN_PROCESS_WID \<and> my_wid v = MAIN_PROCESS_WID \<and> num_available v = fst (num_available_workers np s) \<and> num_active v = 0 \<and>
    try_commit_begin v = 0 \<and>
    (\<forall>w < nat (fst (num_available_workers np s)) + num_aux_workers (snd (num_available_workers np s)). pids w \<noteq> 0) \<and>
    e = (if misspeculation_happened (pcb_of v) then 0 else exit_taken (pcb_of v))"
proof -
  obtain n s1 where n: "num_available_workers np s = (n, s1)" by (cases "num_available_workers np s")
  let ?a = "num_aux_workers s1"
  let ?s2 = "(init_packets (nat n + ?a) pk cm ck (init_queues (nat n) ?a s1))\<lparr>good_to_go := 0\<rparr>"
  have sp: "wid = MAIN_PROCESS_WID" "my_wid s = MAIN_PROCESS_WID" "spawn_workers pids n (int ?a) iter ?s2 = Inr (wid, t)"
    using spawn_returns_main[OF assms(1)] n by auto
  have s2: "num_available ?s2 = n" "my_wid ?s2 = MAIN_PROCESS_WID" "num_aux_workers ?s2 = ?a"
    using n sp(2) by (auto simp: num_available_workers_def Let_def init_queues_def init_packets_def split: if_splits option.splits)
  let ?s3 = "?s2\<lparr>num_active := n, num_available := 0, try_commit_begin := nat n\<rparr>"
  have nat: "nat (n + int ?a) = nat n + ?a" using assms(4) n by simp
  have "fork_loop pids iter [0..<nat n + ?a] ?s3 = Inr (MAIN_PROCESS_WID, t)"
    using sp(1,3) s2 nat by (auto simp: spawn_workers_def Let_def set_try_commit_begin_def split: if_splits)
  from fork_loop_main[OF this] have t: "\<forall>w < nat n + ?a. pids w \<noteq> 0" "num_available t = 0" "num_active t = n" "my_wid t = MAIN_PROCESS_WID"
    using assms(5) n s2 by auto
  from assms(3) obtain c where c: "commit mm' (nat (num_active u) + num_aux_workers u) exs u = Inr c" and v: "finish_join c = (e, v)"
    by (auto simp: join_children_def rbind_eq_Inr split: if_splits)
  obtain w where w: "commit_loop mm' (nat (num_active u) + num_aux_workers u) exs (commit_start (num_aux_workers u), u) = Inr (w, c)"
    using c by (auto simp: commit_def rbind_eq_Inr)
  have "same_process u c" using commit_trace_end[OF w commit_trace.start] commit_trace_process by fastforce
  moreover have "same_process t u" by (rule others_control[OF assms(2)])
  ultimately have "num_available c = 0" "num_active c = n" "my_wid c = MAIN_PROCESS_WID"
    using t same_more_control[of c u] same_more_control[of u t] by (auto simp: same_process_def)
  then have "my_wid v = MAIN_PROCESS_WID" "num_available v = n" "num_active v = 0" "try_commit_begin v = 0"
      "e = (if misspeculation_happened (pcb_of v) then 0 else exit_taken (pcb_of v))"
    using finish_join_effect[OF v] by simp_all
  then show ?thesis using sp(1) t(1) n by simp
qed

definition cdemo :: control_state where
  "cdemo = loop_state.extend (ldemo\<lparr>my_wid := MAIN_PROCESS_WID, try_commit_begin := 0\<rparr>) (control_state.fields 0 (-1) 0 (\<lambda>_. 0))"

lemma cdemo_simps [simp]: "my_wid cdemo = MAIN_PROCESS_WID" "try_commit_begin cdemo = 0" "num_available cdemo = -1" "num_active cdemo = 0"
  by (simp_all add: cdemo_def loop_state.defs control_state.defs)

text \<open>A run with four processors: two workers, one try-commit unit, nothing to commit.\<close>

theorem join_undoes_spawn_witness:
  "\<exists>t e v. spawn_workers_callback (Some ''4'') [0x1000, 0x2000, 0x3000] 0x4000 [0x5000, 0x6000, 0x7000] (\<lambda>w. 100) (\<lambda>s. Inr (Cont s))
       1 (\<lambda>_. True) (\<lambda>_ _ _. 0) (\<lambda>_. 0) 0 cdemo = Inr (Cont (MAIN_PROCESS_WID, t)) \<and>
     join_children (\<lambda>_. True) [\<lambda>_. True] t = Inr (e, v) \<and> num_available v = 2"
proof -
  have a: "atoi ''4'' = 4" by (simp add: atoi_def read_sign_def is_space_def dec_digit_def)
  let ?sp = "spawn_workers_callback (Some ''4'') [0x1000, 0x2000, 0x3000] 0x4000 [0x5000, 0x6000, 0x7000] (\<lambda>w. 100) (\<lambda>s. Inr (Cont s))
       1 (\<lambda>_. True) (\<lambda>_ _ _. 0) (\<lambda>_. 0) 0 cdemo"
  have n: "fst (num_available_workers (Some ''4'') cdemo) = 2" "num_aux_workers (snd (num_available_workers (Some ''4'') cdemo)) = 1"
    by (simp_all add: num_available_workers_def a)
  obtain t where t: "?sp = Inr (Cont (MAIN_PROCESS_WID, t))" "num_aux_workers t = 1" "chan t (ToCommit 0) = Some sw_queue_create"
      "my_wid t = MAIN_PROCESS_WID"
    by (simp add: spawn_workers_callback_def num_available_workers_def a spawn_workers_def set_try_commit_begin_def Let_def
        init_queues_def init_packets_def set_current_iter_def upt_rec)
  have "sw_queue_empty sw_queue_create" using swq.is_empty_repr[OF swq.create_repr] by simp
  from commit_idle[OF t(2,3) this] obtain e v where v: "join_children (\<lambda>_. True) [\<lambda>_. True] t = Inr (e, v)"
    using t(4) by (cases "finish_join t") (simp add: join_children_def)
  from join_undoes_spawn[OF t(1) others_refl v] n have "num_available v = 2" by (simp add: MAIN_PROCESS_WID_def)
  with t(1) v show ?thesis by blast
qed

subsection \<open>The pages with metadata after start-up\<close>

lemma page_aligned_iff: "unat a mod PAGE_SIZE = 0 \<longleftrightarrow> take_bit 12 a = 0" for a :: addr
proof -
  have "unat (take_bit 12 a) = take_bit 12 (unat a)" by (rule unsigned_take_bit_eq)
  then have "unat (take_bit 12 a) = unat a mod PAGE_SIZE" by (simp add: take_bit_eq_mod PAGE_SIZE_def)
  then show ?thesis by (metis unsigned_eq_0_iff)
qed

lemma aligned_shadow: "unat (get_shadow_of a) mod PAGE_SIZE = 0 \<longleftrightarrow> unat a mod PAGE_SIZE = 0"
proof -
  have "take_bit 12 (get_shadow_of a) = take_bit 12 a"
    by (rule bit_word_eqI) (auto simp: get_shadow_of_def SHADOW_MASK_def bit_simps bit_numeral_rec)
  then show ?thesis by (simp add: page_aligned_iff)
qed

lemma aligned_mask: "unat (a AND PAGE_MASK) mod PAGE_SIZE = 0"
proof -
  have "take_bit 12 PAGE_MASK = 0" by (simp add: PAGE_MASK_def)
  then have "take_bit 12 (a AND PAGE_MASK) = 0" by (simp add: take_bit_and)
  then show ?thesis by (simp add: page_aligned_iff)
qed

lemma region_pages_aligned:
  assumes "p \<in> set (region_pages (a AND PAGE_MASK) b)"
  shows "unat p mod PAGE_SIZE = 0"
proof -
  obtain k where p: "p = (a AND PAGE_MASK) + of_nat (k * PAGE_SIZE)" using assms by (auto simp: region_pages_def)
  have "unat p mod PAGE_SIZE = (unat (a AND PAGE_MASK) + k * PAGE_SIZE) mod 2 ^ 64 mod PAGE_SIZE" by (simp only: p unat_add_of_nat)
  also have "\<dots> = (unat (a AND PAGE_MASK) + k * PAGE_SIZE) mod PAGE_SIZE" by (rule mod_mod_cancel) (simp add: PAGE_SIZE_def)
  finally show ?thesis using aligned_mask[of a] by simp
qed

definition zeroed :: "addr list \<Rightarrow> mem \<Rightarrow> mem" where
  "zeroed ps m = (\<lambda>x. if \<exists>p \<in> set ps. x \<in> page_at (get_shadow_of p) then 0 else m x)"

lemma zeroed_simps: "zeroed [] m = m" "zeroed ps (zero_range (get_shadow_of p) PAGE_SIZE m) = zeroed (p # ps) m"
  by (auto simp: zeroed_def zero_range_def page_at_def fun_eq_iff)

lemma init_globals:
  assumes "rfold (init_global_page mm maps) ps s = Inr t"
  shows "t = s\<lparr>pmem := zeroed (filter (doesExist maps) ps) (pmem s),
    shadow_globals := shadow_globals s @ map get_shadow_of (filter (\<lambda>p. doesExist maps p \<and> \<not> isReadOnly maps p) ps)\<rparr>"
  using assms
proof (induction ps arbitrary: s)
  case (Cons p ps)
  then obtain u where u: "init_global_page mm maps p s = Inr u" "rfold (init_global_page mm maps) ps u = Inr t" by (auto simp: rbind_eq_Inr)
  have "u = (if doesExist maps p then s\<lparr>pmem := zero_range (get_shadow_of p) PAGE_SIZE (pmem s),
      shadow_globals := shadow_globals s @ (if isReadOnly maps p then [] else [get_shadow_of p])\<rparr> else s)"
    using u(1) by (auto simp: init_global_page_def map_shadow_def rbind_eq_Inr split: if_splits)
  then show ?case using Cons.IH[OF u(2)] by (auto simp: zeroed_simps)
qed (simp add: zeroed_simps)

lemma init_stack:
  assumes "rfold (init_stack_page mm) ps s = Inr t"
  shows "t = s\<lparr>pmem := zeroed ps (pmem s), shadow_stacks := shadow_stacks s @ map get_shadow_of ps\<rparr>"
  using assms
proof (induction ps arbitrary: s)
  case (Cons p ps)
  then obtain u where u: "init_stack_page mm p s = Inr u" "rfold (init_stack_page mm) ps u = Inr t" by (auto simp: rbind_eq_Inr)
  have "u = s\<lparr>pmem := zero_range (get_shadow_of p) PAGE_SIZE (pmem s), shadow_stacks := shadow_stacks s @ [get_shadow_of p]\<rparr>"
    using u(1) by (auto simp: init_stack_page_def map_shadow_def rbind_eq_Inr split: if_splits)
  then show ?case using Cons.IH[OF u(2)] by (simp add: zeroed_simps)
qed (simp add: zeroed_simps)


definition data_region :: region where
  "data_region = \<lparr>rbegin = 0x600000, rend = 0x601000, rread = True, rwrite = True, rexecute = False, rshared = False,
     roffset = 0, rdev = ''08:01'', rinode = 77, rpathname = ''/bin/prog''\<rparr>"

definition stack_region :: region where
  "stack_region = \<lparr>rbegin = 0x7ffd0000, rend = 0x7ffd1000, rread = True, rwrite = True, rexecute = False, rshared = False,
     roffset = 0, rdev = ''00:00'', rinode = 0, rpathname = ''[stack]''\<rparr>"


end
