(* ===== verification/Specpriv_Queue.thy ===== *)
theory Specpriv_Queue
  imports Speculation "HOL-Library.Sublist"
begin

section \<open>Queues for the values that pass between stages\<close>

text \<open>
  Models \<open>specpriv_queue.cpp\<close>. The compiler replaces a register value that one stage computes and a later one
  uses by a produce and a consume. A queue of N producers and M consumers is an array of \<open>N * M\<close> software
  queues, called lanes here: the iteration picks the lane, the replicated variants write all lanes and read
  the lane of the replica. \<open>free_queue\<close> only unmaps. A lane number outside the array, and a remainder by
  zero, are undefined in C++ and give \<open>OutOfRange\<close>.
\<close>

record specpriv_queue =
  queues :: "sw_queue list"
  n_queues :: nat

definition create_queue :: "nat \<Rightarrow> nat \<Rightarrow> specpriv_queue res" where
  "create_queue N M =
     (if N = 1 \<or> M = 1
      then let n = N * M mod 2 ^ 32 in Inr \<lparr>queues = map (\<lambda>_. sw_queue_create) [0..<n], n_queues = n\<rparr>
      else Inl AssertFailed)"

definition get_queue :: "'a run_state_scheme \<Rightarrow> specpriv_queue \<Rightarrow> nat res" where
  "get_queue s sq =
     (if n_queues sq = 0 then Inl OutOfRange else Inr (wid_of_iter (current_iteration s) mod n_queues sq))"

definition replica_index :: "'a run_state_scheme \<Rightarrow> nat" where
  "replica_index s =
     (let wid = my_wid s; my_stage = GET_MY_STAGE s wid
      in (wid + 2 ^ 32 - GET_FIRST_WID_OF_STAGE s my_stage) mod 2 ^ 32)"

text \<open>\<open>queues[index]\<close> with an operation applied to it.\<close>

definition produce_lane :: "64 word \<Rightarrow> nat \<Rightarrow> specpriv_queue \<Rightarrow> specpriv_queue res" where
  "produce_lane v index sq =
     (if index < length (queues sq)
      then rbind (sw_queue_produce (queues sq ! index) v) (\<lambda>q. Inr (sq\<lparr>queues := (queues sq)[index := q]\<rparr>))
      else Inl OutOfRange)"

definition consume_lane :: "nat \<Rightarrow> specpriv_queue \<Rightarrow> (64 word \<times> specpriv_queue) res" where
  "consume_lane index sq =
     (if index < length (queues sq)
      then rbind (sw_queue_consume (queues sq ! index)) (\<lambda>(v, q). Inr (v, sq\<lparr>queues := (queues sq)[index := q]\<rparr>))
      else Inl OutOfRange)"

definition produce :: "'a run_state_scheme \<Rightarrow> specpriv_queue \<Rightarrow> 64 word \<Rightarrow> specpriv_queue res" where
  "produce s sq v = rbind (get_queue s sq) (\<lambda>index. produce_lane v index sq)"

definition produce_replicated :: "specpriv_queue \<Rightarrow> 64 word \<Rightarrow> specpriv_queue res" where
  "produce_replicated sq v = rfold (produce_lane v) [0..<n_queues sq] sq"

definition consume :: "'a run_state_scheme \<Rightarrow> specpriv_queue \<Rightarrow> (64 word \<times> specpriv_queue) res" where
  "consume s sq = rbind (get_queue s sq) (\<lambda>index. consume_lane index sq)"

definition consume_replicated :: "'a run_state_scheme \<Rightarrow> specpriv_queue \<Rightarrow> (64 word \<times> specpriv_queue) res" where
  "consume_replicated s sq = consume_lane (replica_index s) sq"

definition flush :: "specpriv_queue \<Rightarrow> specpriv_queue" where
  "flush sq = sq\<lparr>queues := map sw_queue_flush (queues sq)\<rparr>"

definition clear :: "'a run_state_scheme \<Rightarrow> specpriv_queue \<Rightarrow> specpriv_queue res" where
  "clear s sq =
     (let index = replica_index s
      in if index < length (queues sq)
         then Inr (sq\<lparr>queues := (queues sq)[index := sw_queue_clear (queues sq ! index)]\<rparr>)
         else Inl OutOfRange)"

definition reset_queue :: "specpriv_queue \<Rightarrow> specpriv_queue" where
  "reset_queue sq = sq\<lparr>queues := map sw_queue_reset (queues sq)\<rparr>"

subsection \<open>Lanes are independent first-in first-out queues\<close>

text \<open>\<open>lanes sq xss\<close>: lane \<open>k\<close> holds the values \<open>xss ! k\<close>.\<close>

definition lanes :: "specpriv_queue \<Rightarrow> 64 word list list \<Rightarrow> bool" where
  "lanes sq xss \<longleftrightarrow> n_queues sq = length (queues sq) \<and> list_all2 sw_repr (queues sq) xss"

lemma lanes_length: "lanes sq xss \<Longrightarrow> length xss = n_queues sq"
  by (auto simp: lanes_def dest: list_all2_lengthD)

lemma lanes_nth: "lanes sq xss \<Longrightarrow> k < n_queues sq \<Longrightarrow> sw_repr (queues sq ! k) (xss ! k)"
  by (auto simp: lanes_def intro: list_all2_nthD)

lemma lanes_update:
  "lanes sq xss \<Longrightarrow> sw_repr q xs \<Longrightarrow> lanes (sq\<lparr>queues := (queues sq)[k := q]\<rparr>) (xss[k := xs])"
  by (auto simp: lanes_def intro: list_all2_update_cong)

lemma create_queue_lanes:
  "create_queue N M = Inr sq \<Longrightarrow> lanes sq (replicate (n_queues sq) [])"
  using sw_repr_create by (auto simp: create_queue_def lanes_def Let_def list_all2_conv_all_nth split: if_splits)

lemma reset_queue_lanes: "lanes sq xss \<Longrightarrow> lanes (reset_queue sq) (replicate (n_queues sq) [])"
proof -
  have "sw_queue_reset q = sw_queue_create" for q :: sw_queue by (simp add: sw_queue_create_def sw_queue_reset_def)
  then show "lanes sq xss \<Longrightarrow> ?thesis"
    using sw_repr_create by (auto simp: lanes_def reset_queue_def list_all2_conv_all_nth)
qed

lemma clear_lanes:
  assumes "lanes sq xss" "clear s sq = Inr sq'"
  shows "lanes sq' (xss[replica_index s := []])"
proof -
  have k: "replica_index s < n_queues sq"
    and sq': "sq' = sq\<lparr>queues := (queues sq)[replica_index s := sw_queue_clear (queues sq ! replica_index s)]\<rparr>"
    using assms by (auto simp: clear_def lanes_def Let_def split: if_splits)
  show ?thesis using lanes_update[OF assms(1) swq.clear_repr[OF lanes_nth[OF assms(1) k]]] by (simp add: sq')
qed

lemma produce_lane_cases:
  assumes "lanes sq xss" "produce_lane v k sq = Inr sq'"
  shows "k < n_queues sq \<and> lanes sq' (xss[k := xss ! k @ [v]]) \<and> n_queues sq' = n_queues sq"
proof -
  have k: "k < n_queues sq" using assms by (auto simp: produce_lane_def lanes_def split: if_splits)
  then obtain q where q: "sw_queue_produce (queues sq ! k) v = Inr q" "sq' = sq\<lparr>queues := (queues sq)[k := q]\<rparr>"
    using assms by (auto simp: produce_lane_def lanes_def rbind_eq_Inr)
  from swq.produce_cases[OF lanes_nth[OF assms(1) k] q(1)] show ?thesis
    using lanes_update[OF assms(1)] k by (simp add: q(2))
qed

lemma consume_lane_cases:
  assumes "lanes sq xss" "consume_lane k sq = Inr (v, sq')"
  shows "\<exists>ys. k < n_queues sq \<and> xss ! k = v # ys \<and> lanes sq' (xss[k := ys]) \<and> n_queues sq' = n_queues sq"
proof -
  have k: "k < n_queues sq" using assms by (auto simp: consume_lane_def lanes_def split: if_splits)
  then obtain q where q: "sw_queue_consume (queues sq ! k) = Inr (v, q)" "sq' = sq\<lparr>queues := (queues sq)[k := q]\<rparr>"
    using assms by (auto simp: consume_lane_def lanes_def rbind_eq_Inr)
  from swq.consume_cases[OF lanes_nth[OF assms(1) k] q(1)] show ?thesis
    using lanes_update[OF assms(1)] k by (auto simp: q(2))
qed

text \<open>A lane with room takes a value, a lane that holds one gives it.\<close>

lemma produce_lane_room:
  assumes "lanes sq xss" "k < n_queues sq" "length (xss ! k) < slots"
  shows "\<exists>sq'. produce_lane v k sq = Inr sq' \<and> lanes sq' (xss[k := xss ! k @ [v]]) \<and> n_queues sq' = n_queues sq"
proof -
  obtain q where "sw_queue_produce (queues sq ! k) v = Inr q"
    using swq.produce_room[OF lanes_nth[OF assms(1,2)] assms(3)] by blast
  then have "\<exists>sq'. produce_lane v k sq = Inr sq'" using assms(1,2) by (simp add: produce_lane_def lanes_def)
  then show ?thesis using produce_lane_cases[OF assms(1)] by blast
qed

lemma consume_lane_some:
  assumes "lanes sq xss" "k < n_queues sq" "xss ! k = v # ys"
  shows "\<exists>sq'. consume_lane k sq = Inr (v, sq') \<and> lanes sq' (xss[k := ys]) \<and> n_queues sq' = n_queues sq"
proof -
  from lanes_nth[OF assms(1,2)] assms(3) obtain q where "sw_queue_consume (queues sq ! k) = Inr (v, q)"
    using swq.consume_some[of "queues sq ! k" v ys] by auto
  then obtain sq' where "consume_lane k sq = Inr (v, sq')" using assms(1,2) by (simp add: consume_lane_def lanes_def)
  with consume_lane_cases[OF assms(1) this] assms(3) show ?thesis by auto
qed

lemma produce_first_lanes:
  assumes "lanes sq xss" "rfold (produce_lane v) [0..<j] sq = Inr sq'" "j \<le> n_queues sq"
  shows "lanes sq' (map (\<lambda>k. if k < j then xss ! k @ [v] else xss ! k) [0..<n_queues sq]) \<and> n_queues sq' = n_queues sq"
  using assms(2,3)
proof (induction j arbitrary: sq')
  case 0
  moreover have "map ((!) xss) [0..<n_queues sq] = xss" using lanes_length[OF assms(1)] by (metis map_nth)
  ultimately show ?case using assms(1) by simp
next
  case (Suc j)
  let ?f = "\<lambda>j k. if k < j then xss ! k @ [v] else xss ! k"
  from Suc.prems(1) obtain t where t: "rfold (produce_lane v) [0..<j] sq = Inr t" "produce_lane v j t = Inr sq'"
    by (auto simp: rfold_append rbind_eq_Inr)
  have IH: "lanes t (map (?f j) [0..<n_queues sq])" "n_queues t = n_queues sq"
    using Suc.IH[OF t(1)] Suc.prems(2) by auto
  from produce_lane_cases[OF IH(1) t(2)] IH(2) have
    *: "lanes sq' ((map (?f j) [0..<n_queues sq])[j := map (?f j) [0..<n_queues sq] ! j @ [v]])" "n_queues sq' = n_queues sq"
    by auto
  have "(map (?f j) [0..<n_queues sq])[j := map (?f j) [0..<n_queues sq] ! j @ [v]] = map (?f (Suc j)) [0..<n_queues sq]"
    using Suc.prems(2) by (intro nth_equalityI) (auto simp: nth_list_update less_Suc_eq)
  with * show ?case by simp
qed

lemma produce_replicated_lanes:
  assumes "lanes sq xss" "produce_replicated sq v = Inr sq'"
  shows "lanes sq' (map (\<lambda>xs. xs @ [v]) xss) \<and> n_queues sq' = n_queues sq"
proof -
  have "map (\<lambda>k. if k < n_queues sq then xss ! k @ [v] else xss ! k) [0..<n_queues sq] = map (\<lambda>xs. xs @ [v]) xss"
    using lanes_length[OF assms(1)] by (intro nth_equalityI) auto
  with produce_first_lanes[OF assms(1), of v "n_queues sq" sq'] assms(2) show ?thesis
    by (simp add: produce_replicated_def)
qed

subsection \<open>Runs of the stages\<close>

text \<open>
  The processes of the stages call the queue in some order; an event names the iteration in which a process
  produces or consumes, or the worker that consumes its copy of a replicated value. \<open>run_events\<close> gives the
  values read, each with its lane and iteration.
\<close>

datatype queue_event =
    Produce iteration "64 word" | ProduceReplicated iteration "64 word"
  | Consume iteration | ConsumeReplicated wid iteration

fun queue_step :: "'a run_state_scheme \<Rightarrow> queue_event \<Rightarrow> specpriv_queue \<Rightarrow> ((nat \<times> iteration \<times> 64 word) list \<times> specpriv_queue) res" where
  "queue_step s (Produce i v) sq = rbind (produce (set_current_iter i s) sq v) (\<lambda>sq. Inr ([], sq))"
| "queue_step s (ProduceReplicated i v) sq = rbind (produce_replicated sq v) (\<lambda>sq. Inr ([], sq))"
| "queue_step s (Consume i) sq =
     rbind (consume (set_current_iter i s) sq) (\<lambda>(v, sq'). Inr ([(wid_of_iter i mod n_queues sq, i, v)], sq'))"
| "queue_step s (ConsumeReplicated w i) sq =
     rbind (consume_replicated (s\<lparr>my_wid := w\<rparr>) sq) (\<lambda>(v, sq'). Inr ([(replica_index (s\<lparr>my_wid := w\<rparr>), i, v)], sq'))"

fun run_events :: "'a run_state_scheme \<Rightarrow> queue_event list \<Rightarrow> specpriv_queue \<Rightarrow> ((nat \<times> iteration \<times> 64 word) list \<times> specpriv_queue) res" where
  "run_events s [] sq = Inr ([], sq)"
| "run_events s (e # es) sq =
     rbind (queue_step s e sq) (\<lambda>(out, sq). rbind (run_events s es sq) (\<lambda>(outs, sq). Inr (out @ outs, sq)))"

text \<open>What lane \<open>k\<close> of a queue with \<open>n\<close> lanes is sent, and what was read from it.\<close>

fun sent_by :: "nat \<Rightarrow> nat \<Rightarrow> queue_event \<Rightarrow> (iteration \<times> 64 word) list" where
  "sent_by n k (Produce i v) = (if wid_of_iter i mod n = k then [(i, v)] else [])"
| "sent_by n k (ProduceReplicated i v) = [(i, v)]"
| "sent_by n k _ = []"

definition lane_sent :: "nat \<Rightarrow> nat \<Rightarrow> queue_event list \<Rightarrow> (iteration \<times> 64 word) list" where
  "lane_sent n k es = concat (map (sent_by n k) es)"

definition lane_received :: "nat \<Rightarrow> (nat \<times> iteration \<times> 64 word) list \<Rightarrow> (iteration \<times> 64 word) list" where
  "lane_received k out = map snd (filter (\<lambda>x. fst x = k) out)"

lemma queue_step_lanes:
  assumes "lanes sq xss" "queue_step s e sq = Inr (out, sq')"
  shows "\<exists>yss. lanes sq' yss \<and> n_queues sq' = n_queues sq \<and>
     (\<forall>k < n_queues sq. xss ! k @ map snd (sent_by (n_queues sq) k e) = map snd (lane_received k out) @ yss ! k)"
proof (cases e)
  case (Produce i v)
  with assms(2) have "produce (set_current_iter i s) sq v = Inr sq'" and out: "out = []" by (auto simp: rbind_eq_Inr)
  then have "produce_lane v (wid_of_iter i mod n_queues sq) sq = Inr sq'"
    by (auto simp: produce_def get_queue_def set_current_iter_def split: if_splits)
  from produce_lane_cases[OF assms(1) this] lanes_length[OF assms(1)] Produce out show ?thesis
    by (intro exI[of _ "xss[wid_of_iter i mod n_queues sq := xss ! (wid_of_iter i mod n_queues sq) @ [v]]"])
      (auto simp: lane_received_def nth_list_update)
next
  case (ProduceReplicated i v)
  with assms(2) have "produce_replicated sq v = Inr sq'" and out: "out = []" by (auto simp: rbind_eq_Inr)
  from produce_replicated_lanes[OF assms(1) this(1)] lanes_length[OF assms(1)] ProduceReplicated out show ?thesis
    by (intro exI[of _ "map (\<lambda>xs. xs @ [v]) xss"]) (auto simp: lane_received_def)
next
  case (Consume i)
  let ?k = "wid_of_iter i mod n_queues sq"
  from Consume assms(2) obtain v where v: "consume (set_current_iter i s) sq = Inr (v, sq')" "out = [(?k, i, v)]"
    by (auto simp: rbind_eq_Inr)
  then have "consume_lane ?k sq = Inr (v, sq')"
    by (auto simp: consume_def get_queue_def set_current_iter_def split: if_splits)
  from consume_lane_cases[OF assms(1) this] obtain ys where ys: "xss ! ?k = v # ys" "lanes sq' (xss[?k := ys])"
      "n_queues sq' = n_queues sq" by auto
  with lanes_length[OF assms(1)] Consume v(2) show ?thesis
    by (intro exI[of _ "xss[?k := ys]"]) (auto simp: lane_received_def nth_list_update)
next
  case (ConsumeReplicated w i)
  let ?k = "replica_index (s\<lparr>my_wid := w\<rparr>)"
  from ConsumeReplicated assms(2) obtain v where v: "consume_lane ?k sq = Inr (v, sq')" "out = [(?k, i, v)]"
    by (auto simp: rbind_eq_Inr consume_replicated_def)
  from consume_lane_cases[OF assms(1) v(1)] obtain ys where ys: "xss ! ?k = v # ys" "lanes sq' (xss[?k := ys])"
      "n_queues sq' = n_queues sq" by auto
  with lanes_length[OF assms(1)] ConsumeReplicated v(2) show ?thesis
    by (intro exI[of _ "xss[?k := ys]"]) (auto simp: lane_received_def nth_list_update)
qed

lemma run_events_lanes:
  assumes "lanes sq xss" "run_events s es sq = Inr (out, sq')"
  shows "\<exists>yss. lanes sq' yss \<and>
     (\<forall>k < n_queues sq. xss ! k @ map snd (lane_sent (n_queues sq) k es) = map snd (lane_received k out) @ yss ! k)"
  using assms
proof (induction es arbitrary: sq xss out)
  case Nil
  then show ?case by (auto simp: lane_sent_def lane_received_def)
next
  case (Cons e es)
  from Cons.prems(2) obtain o1 t where t: "queue_step s e sq = Inr (o1, t)"
      and r: "rbind (run_events s es t) (\<lambda>(outs, sq). Inr (o1 @ outs, sq)) = Inr (out, sq')"
    by (auto simp: rbind_eq_Inr)
  from r obtain o2 where o2: "run_events s es t = Inr (o2, sq')" "out = o1 @ o2" by (auto simp: rbind_eq_Inr)
  from queue_step_lanes[OF Cons.prems(1) t] obtain zss where z: "lanes t zss" "n_queues t = n_queues sq"
    "\<And>k. k < n_queues sq \<Longrightarrow> xss ! k @ map snd (sent_by (n_queues sq) k e) = map snd (lane_received k o1) @ zss ! k" by auto
  from Cons.IH[OF z(1) o2(1)] z(2) obtain yss where y: "lanes sq' yss"
    "\<And>k. k < n_queues sq \<Longrightarrow> zss ! k @ map snd (lane_sent (n_queues sq) k es) = map snd (lane_received k o2) @ yss ! k" by auto
  have "xss ! k @ map snd (lane_sent (n_queues sq) k (e # es)) = map snd (lane_received k out) @ yss ! k" if "k < n_queues sq" for k
  proof -
    have "xss ! k @ map snd (lane_sent (n_queues sq) k (e # es)) =
        (xss ! k @ map snd (sent_by (n_queues sq) k e)) @ map snd (lane_sent (n_queues sq) k es)" by (simp add: lane_sent_def)
    also have "\<dots> = map snd (lane_received k o1) @ map snd (lane_received k o2) @ yss ! k"
      using z(3)[OF that] y(2)[OF that] by simp
    finally show ?thesis by (simp add: lane_received_def o2(2))
  qed
  with y(1) show ?case by blast
qed

lemma prefix_of_maps:
  "prefix (map fst xs) (map fst ys) \<Longrightarrow> prefix (map snd xs) (map snd ys) \<Longrightarrow> prefix xs ys"
proof (induction xs arbitrary: ys)
  case (Cons x xs)
  then show ?case by (cases ys) (auto simp: prod_eq_iff)
qed simp

text \<open>
  C21. The pipeline value queues deliver in order and to the right iteration. In any run of producers and
  consumers on a fresh queue the values read from a lane are an initial part of the values sent to it; so if
  the consumers of a lane run the iterations the producers sent from, in that order, each of them reads the
  value of its own iteration. Both variants, distributed and replicated, are covered.
\<close>

theorem queue_values_match_iterations:
  assumes "create_queue N M = Inr sq" "run_events s es sq = Inr (out, sq')" "k < n_queues sq"
  shows "prefix (map snd (lane_received k out)) (map snd (lane_sent (n_queues sq) k es)) \<and>
    (prefix (map fst (lane_received k out)) (map fst (lane_sent (n_queues sq) k es)) \<longrightarrow>
     prefix (lane_received k out) (lane_sent (n_queues sq) k es))"
proof -
  from run_events_lanes[OF create_queue_lanes[OF assms(1)] assms(2)] assms(3) obtain yss where
    "map snd (lane_sent (n_queues sq) k es) = map snd (lane_received k out) @ yss ! k" by auto
  then have "prefix (map snd (lane_received k out)) (map snd (lane_sent (n_queues sq) k es))" by (simp add: prefix_def)
  then show ?thesis using prefix_of_maps by blast
qed


theorem queue_values_match_iterations_witness:
  "\<exists>sq out sq'. create_queue 1 2 = Inr sq \<and>
     run_events rdemo [Produce 0 10, Produce 1 11, Consume 1, Consume 0] sq = Inr (out, sq') \<and> lane_received 1 out = [(1, 11)] \<and>
     prefix (lane_received 1 out) (lane_sent 2 1 [Produce 0 10, Produce 1 11, Consume 1, Consume 0])"
proof -
  let ?es = "[Produce 0 10, Produce 1 11, Consume 1, Consume 0]"
  obtain sq where sq: "create_queue 1 2 = Inr sq" "n_queues sq = 2" by (auto simp: create_queue_def Let_def)
  have l0: "lanes sq [[], []]" using create_queue_lanes[OF sq(1)] sq(2) by (simp add: numeral_2_eq_2)
  obtain s1 where s1: "produce_lane 10 0 sq = Inr s1" "lanes s1 [[10], []]" "n_queues s1 = 2"
    using produce_lane_room[OF l0, of 0 10] sq(2) slots_pos by auto
  obtain s2 where s2: "produce_lane 11 1 s1 = Inr s2" "lanes s2 [[10], [11]]" "n_queues s2 = 2"
    using produce_lane_room[OF s1(2), of 1 11] s1(3) slots_pos by auto
  obtain s3 where s3: "consume_lane 1 s2 = Inr (11, s3)" "lanes s3 [[10], []]" "n_queues s3 = 2"
    using consume_lane_some[OF s2(2), of 1 11 "[]"] s2(3) by auto
  obtain s4 where s4: "consume_lane 0 s3 = Inr (10, s4)"
    using consume_lane_some[OF s3(2), of 0 10 "[]"] s3(3) by auto
  have run: "run_events rdemo ?es sq = Inr ([(1, 1, 11), (0, 0, 10)], s4)"
    using sq s1 s2 s3 s4 by (simp add: produce_def consume_def get_queue_def set_current_iter_def wid_of_iter_def)
  have "prefix (lane_received 1 [(1, 1, 11), (0, 0, 10)]) (lane_sent 2 1 ?es)"
    using queue_values_match_iterations[OF sq(1) run, of 1] sq(2)
    by (simp add: lane_received_def lane_sent_def wid_of_iter_def)
  with sq(1) run show ?thesis by (intro exI conjI) (auto simp: lane_received_def)
qed

end
