(* ===== verification/Pipeline_Flow.thy ===== *)
theory Pipeline_Flow
  imports Loopevent
begin

unbundle bit_operations_syntax

section \<open>From the end of an iteration in one stage to its beginning in the next\<close>

text \<open>
  Composes \<open>end_iter\<close>'s sending (\<open>forward_pair\<close>, \<open>broadcast_event\<close>), the packet pools, the queues and
  \<open>process_incoming_packets\<close>. Queues, packets and chunks are shared by the processes; memory, worker number and
  iteration belong to each process, so the receiver runs in a state of its own that agrees with the sender's
  final state on what is shared.

  \<open>budget w k e s L\<close> says what worker \<open>w\<close> has left: chunks, packets and room for \<open>k\<close> more pages, and \<open>e\<close> packets.
\<close>

definition outs :: "wid \<Rightarrow> 'a comm_state_scheme \<Rightarrow> chan set" where
  "outs w s = {Ucvf w j | j. j < strategy_workers s \<and> GET_MY_STAGE s w < GET_MY_STAGE s j} \<union>
     {ToTry w i | i. i < num_aux_workers s}"

definition free_chunks :: "'a comm_state_scheme \<Rightarrow> wid \<Rightarrow> addr set" where
  "free_chunks s w = {c \<in> chunk_slots s w. is_chunk_available (chunks s c)}"

definition budget :: "wid \<Rightarrow> nat \<Rightarrow> nat \<Rightarrow> 'a comm_state_scheme \<Rightarrow> (chan \<Rightarrow> addr list) \<Rightarrow> bool" where
  "budget w k e s L \<longleftrightarrow> k \<le> card (free_chunks s w) \<and> k * (1 + num_stages s) + e \<le> card (free_packets s w) \<and>
     (\<forall>c \<in> outs w s. chan s c \<noteq> None \<and> length (L c) + k < slots)"

definition sender_ok :: "wid \<Rightarrow> 'a comm_state_scheme \<Rightarrow> bool" where
  "sender_ok w s \<longleftrightarrow> packets_wf s \<and> strategy_wf s \<and> w < length (packet_begins s) \<and> w < length (packet_chunk_begins s) \<and>
     w < try_commit_begin s \<and> try_commit_begin s \<le> MAX_WORKERS \<and> w < strategy_workers s \<and> 0 < num_aux_workers s"

lemma finite_free_chunks [simp]: "finite (free_chunks s w)"
  by (simp add: free_chunks_def chunk_slots_def)

lemma outs_same: "same_rest s t \<Longrightarrow> outs w t = outs w s"
  by (simp add: outs_def same_restD strategy_workers_def get_defs)

lemma forward_chans_outs:
  assumes "strategy_wf s"
  shows "set (forward_chans w iter s) \<subseteq> outs w s"
proof
  fix c assume "c \<in> set (forward_chans w iter s)"
  then obtain i where i: "GET_MY_STAGE s w < i" "i < num_stages s"
      "c = Ucvf w (GET_FIRST_WID_OF_STAGE s i + wid_of_iter iter mod GET_REPLICATION_FACTOR s i)"
    by (auto simp: forward_chans_def GET_NUM_STAGES_def Suc_le_eq)
  then show "c \<in> outs w s"
    using strat.worker_in_block[OF assms i(2), of "wid_of_iter iter"] by (auto simp: outs_def)
qed

lemma sender_ok_same:
  assumes "sender_ok w s" "same_rest s t" "packets_wf t"
  shows "sender_ok w t"
  using assms strategy_wf_same[OF assms(2)] by (simp add: sender_ok_def same_restD[OF assms(2)] strategy_workers_def)

text \<open>Packet \<open>p\<close> carries the page at \<open>a\<close> of memory \<open>m\<close>.\<close>

definition holds :: "'a comm_state_scheme \<Rightarrow> check_code \<Rightarrow> mem \<Rightarrow> addr \<Rightarrow> addr \<Rightarrow> bool" where
  "holds s check m p a \<longleftrightarrow> (let q = packets s p in a \<noteq> 0 \<and> ptr q = a \<and> pkind q = SUPER \<and> is_write q = check_num check \<and>
     csign (chunks s (pval q)) 0 \<noteq> 0 \<and> (\<forall>i < PAGE_SIZE. cdata (chunks s (pval q)) i = m (a + of_nat i)))"

lemma delivered_kept:
  assumes "delivered w ok cs s L P t" "ptr (packets s q) \<noteq> 0"
  shows "packets t q = packets s q"
proof -
  have "q \<notin> P ` cs" using assms by (auto simp: delivered_def)
  then show ?thesis using assms(1) by (simp add: delivered_def)
qed

lemma free_packets_after:
  assumes "delivered w ok cs s L P t" "same_rest s t" "finite cs"
  shows "card (free_packets s w) \<le> card (free_packets t w) + card cs"
proof -
  have "free_packets s w \<subseteq> free_packets t w \<union> P ` cs"
    using assms(1) by (auto simp: free_packets_def delivered_def packet_slots_def same_restD[OF assms(2)])
  then have "card (free_packets s w) \<le> card (free_packets t w \<union> P ` cs)" using assms(3) by (intro card_mono) simp_all
  also have "\<dots> \<le> card (free_packets t w) + card (P ` cs)" by (rule card_Un_le)
  also have "card (P ` cs) \<le> card cs" using assms(3) by (rule card_image_le)
  finally show ?thesis by simp
qed

lemma forward_page_step:
  assumes ok: "sender_ok w s" and rep: "chans_rep s L" and a: "a \<noteq> 0" and b: "budget w (Suc k) e s L"
  shows "\<exists>t L'. forward_page w iter a check s = Inr t \<and> same_rest s t \<and> sender_ok w t \<and> chans_rep t L' \<and> budget w k e t L' \<and>
    (\<forall>c \<in> set (forward_chans w iter s). \<exists>p. L' c = L c @ [p] \<and> ptr (packets s p) = 0 \<and> holds t check (pmem s) p a) \<and>
    (\<forall>check' m q b. holds s check' m q b \<longrightarrow> holds t check' m q b)"
proof -
  have wf: "packets_wf s" "strategy_wf s" and w: "w < length (packet_begins s)" "w < length (packet_chunk_begins s)"
      "w < try_commit_begin s" "try_commit_begin s \<le> MAX_WORKERS" and aux: "0 < num_aux_workers s"
    using ok by (auto simp: sender_ok_def)
  have main: "w \<noteq> MAIN_PROCESS_WID" using w(3,4) by (simp add: MAIN_PROCESS_WID_def MAX_WORKERS_def)
  let ?cs = "set (forward_chans w iter s) \<union> {ToTry w (try_commit_target a s)}"
  have sub: "?cs \<subseteq> outs w s" using forward_chans_outs[OF wf(2)] aux by (auto simp: outs_def try_commit_target_def)
  have len: "length (forward_chans w iter s) \<le> num_stages s" by (simp add: forward_chans_def GET_NUM_STAGES_def)
  have "free_chunks s w \<noteq> {}" using b by (auto simp: budget_def)
  then have chunk: "\<exists>c \<in> chunk_slots s w. is_chunk_available (chunks s c)" by (auto simp: free_chunks_def)
  have free: "length (forward_chans w iter s) < card (free_packets s w)" using b len by (simp add: budget_def)
  have room: "\<forall>c \<in> ?cs. has_room s L c" using b sub by (fastforce simp: budget_def has_room_def)
  obtain t where t: "forward_page w iter a check s = Inr t"
    using forward_page_returns_aux[OF wf w(1,2) main rep a chunk free room aux] by blast
  obtain ch P where d: "delivered w (sent a ch (of_nat sizeof_packet_chunk) (check_num check) SUPER) ?cs s L P t"
    and ch: "ch \<in> chunk_slots s w" "is_chunk_available (chunks s ch)" "\<forall>i < PAGE_SIZE. cdata (chunks t ch) i = pmem s (a + of_nat i)"
      "csign (chunks t ch) 0 \<noteq> 0" "\<forall>d. d \<noteq> ch \<longrightarrow> chunks t d = chunks s d" "packets_wf t" "same_rest s t"
      "\<forall>d. chan t d = None \<longleftrightarrow> chan s d = None"
    using forward_page_delivered[OF wf w rep a t] by (auto simp: MAX_STAGE_NUM_def)
  let ?L = "\<lambda>c. if c \<in> ?cs then L c @ [P c] else L c"
  have old: "holds t check' m q x" if h: "holds s check' m q x" for check' m q x
  proof -
    have "ptr (packets s q) \<noteq> 0" "csign (chunks s (pval (packets s q))) 0 \<noteq> 0" using h by (auto simp: holds_def Let_def)
    then have "packets t q = packets s q" "pval (packets s q) \<noteq> ch"
      using delivered_kept[OF d] ch(2) by (auto simp: is_chunk_available_iff)
    then show ?thesis using h ch(5) by (simp add: holds_def)
  qed
  have "free_chunks s w \<subseteq> insert ch (free_chunks t w)"
    using ch(5) by (auto simp: free_chunks_def chunk_slots_def same_restD[OF ch(7)])
  then have "card (free_chunks s w) \<le> card (insert ch (free_chunks t w))" by (intro card_mono) simp_all
  also have "\<dots> \<le> Suc (card (free_chunks t w))" by (rule card_insert_le_m1) simp_all
  finally have c1: "card (free_chunks s w) \<le> Suc (card (free_chunks t w))" .
  have "card ?cs \<le> card (set (forward_chans w iter s)) + 1" using card_Un_le[of "set (forward_chans w iter s)" "{ToTry w (try_commit_target a s)}"] by simp
  also have "\<dots> \<le> num_stages s + 1" using card_length[of "forward_chans w iter s"] len by simp
  finally have c2: "card (free_packets s w) \<le> card (free_packets t w) + (num_stages s + 1)"
    using free_packets_after[OF d ch(7)] by simp
  have "budget w k e t ?L"
    using b c1 c2 ch(8) by (auto simp: budget_def outs_same[OF ch(7)] same_restD[OF ch(7)])
  moreover have "holds t check (pmem s) (P c) a" "ptr (packets s (P c)) = 0" if "c \<in> set (forward_chans w iter s)" for c
    using d that ch(3,4) a by (auto simp: holds_def delivered_def sent_def)
  moreover have "chans_rep t ?L" using d by (simp add: delivered_def)
  ultimately show ?thesis using t ch(7) sender_ok_same[OF ok ch(7,6)] old
    by (intro exI[of _ t] exI[of _ ?L]) auto
qed

subsection \<open>Sending the touched pages\<close>

text \<open>The packets \<open>ps\<close> carry the pages at \<open>xs\<close>, in that order.\<close>

definition queued :: "'a comm_state_scheme \<Rightarrow> check_code \<Rightarrow> mem \<Rightarrow> addr list \<Rightarrow> addr list \<Rightarrow> bool" where
  "queued s check m ps xs \<longleftrightarrow> list_all2 (holds s check m) ps xs \<and> distinct ps"

lemma queued_snoc:
  assumes q: "queued s check m ps xs" and old: "\<forall>q b. holds s check m q b \<longrightarrow> holds t check m q b"
    and p: "ptr (packets s p) = 0" "holds t check m p a"
  shows "queued t check m (ps @ [p]) (xs @ [a])"
proof -
  have "p \<notin> set ps"
  proof
    assume "p \<in> set ps"
    then obtain i where "i < length ps" "ps ! i = p" by (auto simp: in_set_conv_nth)
    then have "holds s check m p (xs ! i)" using q by (auto simp: queued_def list_all2_conv_all_nth)
    then show False using p(1) by (auto simp: holds_def Let_def)
  qed
  moreover have "list_all2 (holds t check m) ps xs" using q old by (auto simp: queued_def elim: list_all2_mono)
  ultimately show ?thesis using q p(2) by (simp add: queued_def list_all2_appendI)
qed

lemma pmem_irrelevant [simp]:
  fixes s :: "'a comm_state_scheme"
  shows "holds (s\<lparr>pmem := m'\<rparr>) check m p a = holds s check m p a" "sender_ok w (s\<lparr>pmem := m'\<rparr>) = sender_ok w s"
    "chans_rep (s\<lparr>pmem := m'\<rparr>) L = chans_rep s L" "budget w k e (s\<lparr>pmem := m'\<rparr>) L = budget w k e s L"
    "forward_chans w iter (s\<lparr>pmem := m'\<rparr>) = forward_chans w iter s" "queued (s\<lparr>pmem := m'\<rparr>) check m ps xs = queued s check m ps xs"
proof -
  show "holds (s\<lparr>pmem := m'\<rparr>) check m p a = holds s check m p a" by (simp add: holds_def)
  show "sender_ok w (s\<lparr>pmem := m'\<rparr>) = sender_ok w s"
    by (simp add: sender_ok_def packets_wf_def strategy_wf_def strategy_workers_def)
  show "chans_rep (s\<lparr>pmem := m'\<rparr>) L = chans_rep s L" by (simp add: chans_rep_def)
  show "budget w k e (s\<lparr>pmem := m'\<rparr>) L = budget w k e s L"
    by (simp add: budget_def free_chunks_def chunk_slots_def free_packets_def packet_slots_def outs_def strategy_workers_def get_defs)
  show "forward_chans w iter (s\<lparr>pmem := m'\<rparr>) = forward_chans w iter s" by (simp add: forward_chans_def get_defs)
  show "queued (s\<lparr>pmem := m'\<rparr>) check m ps xs = queued s check m ps xs" 
    by (simp add: queued_def holds_def[abs_def])
qed

lemma holds_cong:
  assumes "holds s check m p a" "\<forall>x \<in> page_at a. m x = m' x"
  shows "holds s check m' p a"
proof -
  have "a + of_nat i \<in> page_at a" if "i < PAGE_SIZE" for i using that by (simp add: page_at_def unat_of_nat PAGE_SIZE_def)
  then show ?thesis using assms by (simp add: holds_def Let_def)
qed

text \<open>A page whose metadata fills more than eight words travels as two chunks.\<close>

definition dense :: "addr \<Rightarrow> mem \<Rightarrow> bool" where
  "dense sh m \<longleftrightarrow> (\<exists>i < PAGE_SIZE. m (sh + of_nat i) AND 0xfb \<noteq> 0) \<and> 8 < card (meta_words sh m)"

definition moved :: "'a comm_state_scheme \<Rightarrow> 'a comm_state_scheme \<Rightarrow> bool" where
  "moved s t \<longleftrightarrow> same_rest (s\<lparr>pmem := pmem t\<rparr>) t"

lemma moved_simps:
  fixes s :: "'a comm_state_scheme"
  shows "same_rest s t \<Longrightarrow> moved s t" "moved s (s\<lparr>pmem := m\<rparr>)" "moved s t \<Longrightarrow> moved t u \<Longrightarrow> moved s u"
proof -
  show "same_rest s t \<Longrightarrow> moved s t" by (cases s; cases t) (simp add: moved_def same_rest_def)
  show "moved s (s\<lparr>pmem := m\<rparr>)" by (simp add: moved_def)
  show "moved s t \<Longrightarrow> moved t u \<Longrightarrow> moved s u" by (cases s; cases t; cases u) (simp add: moved_def same_rest_def)
qed

lemma forward_pair_step:
  fixes s :: "'a loop_state_scheme"
  assumes ok: "sender_ok w s" and rep: "chans_rep s L" and a: "a \<noteq> 0" "sh \<noteq> 0" and b: "budget w (Suc (Suc k)) e s L"
    and c: "c \<in> set (forward_chans w iter s)" and q: "queued s check m (L c) xs" and n: "8 < n"
    and m: "\<forall>x \<in> page_at a \<union> page_at sh. pmem s x = m x"
  shows "\<exists>t L'. forward_pair n w iter a sh check s = Inr t \<and> moved s t \<and> sender_ok w t \<and> chans_rep t L' \<and> budget w k e t L' \<and>
    queued t check m (L' c) (xs @ [a, sh]) \<and> (\<forall>x. x \<notin> page_at sh \<longrightarrow> pmem t x = pmem s x)"
proof -
  from forward_page_step[OF ok rep a(1) b, of iter check] c obtain s1 L1 p where 1: "forward_page w iter a check s = Inr s1"
      "same_rest s s1" "sender_ok w s1" "chans_rep s1 L1" "budget w (Suc k) e s1 L1" "L1 c = L c @ [p]"
      "ptr (packets s p) = 0" "holds s1 check (pmem s) p a" "\<forall>q b. holds s check m q b \<longrightarrow> holds s1 check m q b"
    by blast
  have pm: "pmem s1 = pmem s" using 1(2) by (simp add: same_restD)
  have q1: "queued s1 check m (L1 c) (xs @ [a])"
    unfolding 1(6) by (rule queued_snoc[OF q 1(9,7) holds_cong[OF 1(8)]]) (use m in blast)
  have c1: "c \<in> set (forward_chans w iter s1)" using c by (simp add: forward_chans_same[OF 1(2)])
  from forward_page_step[OF 1(3,4) a(2) 1(5), of iter check] c1 obtain s2 L2 p2 where 2: "forward_page w iter sh check s1 = Inr s2"
      "same_rest s1 s2" "sender_ok w s2" "chans_rep s2 L2" "budget w k e s2 L2" "L2 c = L1 c @ [p2]"
      "ptr (packets s1 p2) = 0" "holds s2 check (pmem s1) p2 sh" "\<forall>q b. holds s1 check m q b \<longrightarrow> holds s2 check m q b"
    by blast
  have q2: "queued s2 check m (L2 c) ((xs @ [a]) @ [sh])"
    unfolding 2(6) by (rule queued_snoc[OF q1 2(9,7) holds_cong[OF 2(8)]]) (use m pm in auto)
  let ?t = "s2\<lparr>pmem := set_zero_page sh (pmem s2)\<rparr>"
  have "forward_pair n w iter a sh check s = Inr ?t" using n 1(1) 2(1) by (simp add: forward_pair_def zero_shadow_def)
  moreover have "moved s ?t" using moved_simps 1(2) 2(2) by blast
  moreover have "pmem ?t x = pmem s x" if "x \<notin> page_at sh" for x
    using that pm 2(2) by (simp add: set_zero_page_eq zero_range_def page_at_def same_restD)
  ultimately show ?thesis using 2(3-5) q2 by (intro exI[of _ ?t] exI[of _ L2]) simp
qed

lemma meta_words_iff: "k \<in> meta_words sh m \<longleftrightarrow> k < PAGE_SIZE div 8 \<and> (\<exists>l < 8. m (sh + of_nat (8 * k + l)) \<noteq> 0)"
proof -
  have "(load_le 8 m (sh + of_nat (8 * k)) :: 64 word) \<noteq> 0 \<longleftrightarrow> (\<exists>l < 8. m (sh + of_nat (8 * k + l)) \<noteq> 0)"
    unfolding zero_lanes64_iff by (auto simp: lane_load_le add.assoc)
  then show ?thesis by (simp add: meta_words_def del: of_nat_mult)
qed

lemma in_page: "i < PAGE_SIZE \<Longrightarrow> a + of_nat i \<in> page_at a"
  by (simp add: page_at_def unat_of_nat PAGE_SIZE_def)

lemma dense_cong:
  assumes "\<forall>x \<in> page_at sh. m x = m' x"
  shows "dense sh m \<longleftrightarrow> dense sh m'"
proof -
  have eq: "m (sh + of_nat i) = m' (sh + of_nat i)" if "i < PAGE_SIZE" for i using assms in_page[OF that] by simp
  have "8 * k + l < PAGE_SIZE" if "k < PAGE_SIZE div 8" "l < 8" for k l using that by (simp add: PAGE_SIZE_def)
  then have "meta_words sh m = meta_words sh m'" using eq by (auto simp only: set_eq_iff meta_words_iff)
  then show ?thesis using eq by (auto simp: dense_def)
qed

lemma send_touched_step:
  fixes s :: "'a loop_state_scheme"
  assumes ok: "sender_ok w s" and rep: "chans_rep s L" and a: "get_original_of sh \<noteq> 0" "sh \<noteq> 0"
    and b: "budget w (Suc (Suc k)) e s L" and c: "c \<in> set (forward_chans w iter s)"
    and q: "queued s CHECK_REQUIRED m (L c) xs" and t: "bit (pmem s sh) 7" "dense sh ((pmem s)(sh := pmem s sh AND 0x7f))"
    and m: "\<forall>x \<in> page_at (get_original_of sh) \<union> page_at sh. ((pmem s)(sh := pmem s sh AND 0x7f)) x = m x"
  shows "\<exists>t L'. send_touched w iter sh s = Inr t \<and> moved s t \<and> sender_ok w t \<and> chans_rep t L' \<and> budget w k e t L' \<and>
    queued t CHECK_REQUIRED m (L' c) (xs @ [get_original_of sh, sh]) \<and> (\<forall>x. x \<notin> page_at sh \<longrightarrow> pmem t x = pmem s x)"
proof -
  let ?m = "(pmem s)(sh := pmem s sh AND 0x7f)"
  let ?s = "s\<lparr>pmem := ?m\<rparr>"
  have z: "\<not> is_zero_page sh ?m" using t(2) unfolding is_zero_page_iff dense_def by force
  have "clear_read sh ?m = (card (meta_words sh ?m), ?m)" using t(2) by (auto simp: clear_read_eq dense_def)
  then have st: "send_touched w iter sh s =
      forward_pair (card (meta_words sh ?m)) w iter (get_original_of sh) sh CHECK_REQUIRED ?s"
    using t(1) z by (simp add: send_touched_def bit7 Let_def)
  have "\<forall>x \<in> page_at (get_original_of sh) \<union> page_at sh. pmem ?s x = m x" using m by simp
  from forward_pair_step[of w ?s L "get_original_of sh" sh k e c iter CHECK_REQUIRED m xs "card (meta_words sh ?m)"] ok rep a b c q t(2) this
  obtain t L' where f: "forward_pair (card (meta_words sh ?m)) w iter (get_original_of sh) sh CHECK_REQUIRED ?s = Inr t" "moved ?s t"
      "sender_ok w t" "chans_rep t L'" "budget w k e t L'" "queued t CHECK_REQUIRED m (L' c) (xs @ [get_original_of sh, sh])"
      "\<forall>x. x \<notin> page_at sh \<longrightarrow> pmem t x = ?m x"
    by (auto simp: dense_def)
  have "moved s t" by (rule moved_simps(3)[OF moved_simps(2) f(2)])
  moreover have "\<forall>x. x \<notin> page_at sh \<longrightarrow> pmem t x = pmem s x" using f(7) page_at_self[of sh] by auto
  ultimately show ?thesis using st f(1,3-6) by auto
qed

text \<open>The metadata pages: aligned, in the upper half, not the metadata of the null page.\<close>

definition shadow_pages_ok :: "addr set \<Rightarrow> bool" where
  "shadow_pages_ok P \<longleftrightarrow> (\<forall>sh \<in> P. unat sh mod PAGE_SIZE = 0 \<and> bit sh 45 \<and> get_original_of sh \<noteq> 0)"

lemma original_aligned: "unat sh mod PAGE_SIZE = 0 \<Longrightarrow> unat (get_original_of sh) mod PAGE_SIZE = 0"
proof -
  have al: "unat x mod PAGE_SIZE = unat (take_bit 12 x)" for x :: addr
  proof -
    have "unat (take_bit 12 x) = take_bit 12 (unat x)" by (rule unsigned_take_bit_eq)
    then show ?thesis by (simp only: PAGE_SIZE_def take_bit_eq_mod) simp
  qed
  have "take_bit 12 (get_original_of sh) = take_bit 12 sh"
    by (simp add: get_original_of_def SHADOW_MASK_def take_bit_xor)
  then show "unat sh mod PAGE_SIZE = 0 \<Longrightarrow> ?thesis" by (simp only: al)
qed

lemma pages_apart:
  assumes P: "shadow_pages_ok P" "sh \<in> P" "sh' \<in> P" and x: "x \<in> page_at sh'"
  shows "x \<in> page_at sh \<Longrightarrow> sh = sh'" "x \<notin> page_at (get_original_of sh)"
proof -
  show "x \<in> page_at sh \<Longrightarrow> sh = sh'" using P x by (auto simp: shadow_pages_ok_def intro: pages_disjoint)
  have "\<not> bit (get_original_of sh) 45" "bit sh' 45"
    using P by (auto simp: shadow_pages_ok_def get_original_of_def SHADOW_MASK_exp bit_simps)
  then have ne: "get_original_of sh \<noteq> sh'" by auto
  have "unat (get_original_of sh) mod PAGE_SIZE = 0" "unat sh' mod PAGE_SIZE = 0"
    using P original_aligned by (auto simp: shadow_pages_ok_def)
  from pages_disjoint[OF this _ x] ne show "x \<notin> page_at (get_original_of sh)" by blast
qed

lemma page_at_original_disjoint:
  assumes P: "shadow_pages_ok P" "sh \<in> P" "sh' \<in> P" and x: "x \<in> page_at (get_original_of sh)" "x \<in> page_at (get_original_of sh')"
  shows "sh = sh'"
proof -
  have "unat (get_original_of sh) mod PAGE_SIZE = 0" "unat (get_original_of sh') mod PAGE_SIZE = 0"
    using P original_aligned by (auto simp: shadow_pages_ok_def)
  from pages_disjoint[OF this x] show ?thesis by (metis get_shadow_original)
qed

text \<open>The memory as it is sent: the mark of touched pages removed.\<close>

definition sent_mem :: "addr set \<Rightarrow> mem \<Rightarrow> mem" where
  "sent_mem P m = (\<lambda>x. if x \<in> P then m x AND 0x7f else m x)"

definition sent_pages :: "mem \<Rightarrow> addr list \<Rightarrow> addr list" where
  "sent_pages m shs = concat (map (\<lambda>sh. [get_original_of sh, sh]) (filter (\<lambda>sh. bit (m sh) 7) shs))"

lemma sent_mem_page:
  assumes "shadow_pages_ok P" "sh \<in> P" "x \<in> page_at (get_original_of sh) \<union> page_at sh" "mm x = m x" "mm sh = m sh"
  shows "(mm(sh := mm sh AND 0x7f)) x = sent_mem P m x"
proof (cases "x = sh")
  case False
  have "x \<notin> P"
  proof
    assume x: "x \<in> P"
    from pages_apart[OF assms(1,2) x page_at_self] assms(3) False show False by blast
  qed
  then show ?thesis using False assms(4) by (simp add: sent_mem_def)
qed (use assms in \<open>simp add: sent_mem_def\<close>)

lemma send_all_step:
  fixes s :: "'a loop_state_scheme"
  assumes P: "shadow_pages_ok P" and shs: "set shs \<subseteq> P" "distinct shs"
    and d: "\<forall>sh \<in> set shs. bit (m sh) 7 \<longrightarrow> dense sh (m(sh := m sh AND 0x7f))"
    and ok: "sender_ok w s" and rep: "chans_rep s L" and b: "budget w (length (sent_pages m shs) + k) e s L"
    and c: "c \<in> set (forward_chans w iter s)" and q: "queued s CHECK_REQUIRED (sent_mem P m) (L c) xs"
    and m: "\<forall>sh \<in> set shs. \<forall>x \<in> page_at sh \<union> page_at (get_original_of sh). pmem s x = m x"
  shows "\<exists>t L'. rfold (send_touched w iter) shs s = Inr t \<and> moved s t \<and> sender_ok w t \<and> chans_rep t L' \<and> budget w k e t L' \<and>
    queued t CHECK_REQUIRED (sent_mem P m) (L' c) (xs @ sent_pages m shs) \<and>
    (\<forall>x. (\<forall>sh \<in> set shs. x \<notin> page_at sh) \<longrightarrow> pmem t x = pmem s x)"
  using shs d ok rep b c q m
proof (induction shs arbitrary: s L xs)
  case Nil
  then show ?case using moved_simps(2)[of s "pmem s"] by (auto simp: sent_pages_def)
next
  case (Cons sh shs)
  have sh: "sh \<in> P" "sh \<notin> set shs" "set shs \<subseteq> P" "distinct shs" using Cons.prems(1,2) by auto
  have dt: "\<forall>sh \<in> set shs. bit (m sh) 7 \<longrightarrow> dense sh (m(sh := m sh AND 0x7f))" using Cons.prems(3) by (meson list.set_intros(2))
  have self: "pmem s sh = m sh" using Cons.prems(9) page_at_self[of sh] by simp
  show ?case
  proof (cases "bit (m sh) 7")
    case False
    then have st: "send_touched w iter sh s = Inr s" using self by (simp add: send_touched_def bit7)
    have sp: "sent_pages m (sh # shs) = sent_pages m shs" using False by (simp add: sent_pages_def)
    from Cons.IH[OF sh(3,4) dt Cons.prems(4,5) _ Cons.prems(7,8)] Cons.prems(6,9) show ?thesis
      unfolding sp by (simp add: st) blast
  next
    case True
    have sp: "sent_pages m (sh # shs) = [get_original_of sh, sh] @ sent_pages m shs" using True by (simp add: sent_pages_def)
    have pg: "\<forall>x \<in> page_at (get_original_of sh) \<union> page_at sh. ((pmem s)(sh := pmem s sh AND 0x7f)) x = sent_mem P m x"
    proof
      fix x assume x: "x \<in> page_at (get_original_of sh) \<union> page_at sh"
      then have "pmem s x = m x" using Cons.prems(9) by auto
      from sent_mem_page[OF P sh(1) x this self] show "((pmem s)(sh := pmem s sh AND 0x7f)) x = sent_mem P m x" .
    qed
    have "dense sh (m(sh := m sh AND 0x7f))" using Cons.prems(3) True by (meson list.set_intros(1))
    moreover have "\<forall>x \<in> page_at sh. (m(sh := m sh AND 0x7f)) x = ((pmem s)(sh := pmem s sh AND 0x7f)) x"
      using Cons.prems(9) by auto
    ultimately have dn: "dense sh ((pmem s)(sh := pmem s sh AND 0x7f))" using dense_cong by blast
    have nz: "get_original_of sh \<noteq> 0" "sh \<noteq> 0" using P sh(1) by (auto simp: shadow_pages_ok_def)
    have bd: "budget w (Suc (Suc (length (sent_pages m shs) + k))) e s L" using Cons.prems(6) by (simp add: sp)
    have b7: "bit (pmem s sh) 7" using True self by simp
    from send_touched_step[OF Cons.prems(4,5) nz bd Cons.prems(7,8) b7 dn pg] obtain t L' where
      t: "send_touched w iter sh s = Inr t" "moved s t" "sender_ok w t" "chans_rep t L'" "budget w (length (sent_pages m shs) + k) e t L'"
        "queued t CHECK_REQUIRED (sent_mem P m) (L' c) (xs @ [get_original_of sh, sh])" "\<forall>x. x \<notin> page_at sh \<longrightarrow> pmem t x = pmem s x"
      by (elim exE conjE) (rule that)
    have c': "c \<in> set (forward_chans w iter t)"
      using Cons.prems(7) t(2) forward_chans_same[of "s\<lparr>pmem := pmem t\<rparr>" t] by (simp add: moved_def)
    have m': "\<forall>sh' \<in> set shs. \<forall>x \<in> page_at sh' \<union> page_at (get_original_of sh'). pmem t x = m x"
    proof (intro ballI)
      fix sh' x assume x: "sh' \<in> set shs" "x \<in> page_at sh' \<union> page_at (get_original_of sh')"
      have "x \<notin> page_at sh" using pages_apart[OF P _ sh(1)] x sh(2,3) by blast
      then show "pmem t x = m x" using t(7) Cons.prems(9) x by auto
    qed
    from Cons.IH[OF sh(3,4) dt t(3,4,5) c' t(6) m'] obtain u L'' where
      u: "rfold (send_touched w iter) shs t = Inr u" "moved t u" "sender_ok w u" "chans_rep u L''" "budget w k e u L''"
        "queued u CHECK_REQUIRED (sent_mem P m) (L'' c) ((xs @ [get_original_of sh, sh]) @ sent_pages m shs)"
        "\<forall>x. (\<forall>sh \<in> set shs. x \<notin> page_at sh) \<longrightarrow> pmem u x = pmem t x"
      by (elim exE conjE) (rule that)
    show ?thesis
    proof (intro exI conjI)
      show "rfold (send_touched w iter) (sh # shs) s = Inr u" using t(1) u(1) by simp
      show "moved s u" by (rule moved_simps(3)[OF t(2) u(2)])
      show "queued u CHECK_REQUIRED (sent_mem P m) (L'' c) (xs @ sent_pages m (sh # shs))" using u(6) by (simp add: sp)
      show "\<forall>x. (\<forall>sh \<in> set (sh # shs). x \<notin> page_at sh) \<longrightarrow> pmem u x = pmem s x" using t(7) u(7) by simp
    qed (use u in blast)+
  qed
qed

subsection \<open>The end of the iteration\<close>

lemma eoi_step:
  assumes ok: "sender_ok w s" and rep: "chans_rep s L" and c: "c \<in> outs w s"
    and b: "budget w 0 (strategy_workers s + num_aux_workers s) s L"
  shows "\<exists>t L' p. broadcast_event w 0xDEADBEEF 0 0 WRITE EOI s = Inr t \<and> pools_kept s t \<and> chans_rep t L' \<and> L' c = L c @ [p] \<and>
    ptr (packets s p) = 0 \<and> pkind (packets t p) = EOI \<and> (\<forall>check m q x. holds s check m q x \<longrightarrow> holds t check m q x)"
proof -
  have wf: "packets_wf s" "strategy_wf s" and w: "w < length (packet_begins s)" "w < strategy_workers s" "w < try_commit_begin s"
      "try_commit_begin s \<le> MAX_WORKERS" using ok by (auto simp: sender_ok_def)
  have main: "w \<noteq> MAIN_PROCESS_WID" using w(3,4) by (simp add: MAIN_PROCESS_WID_def MAX_WORKERS_def)
  let ?cs = "broadcast_chans w s @ try_chans w s" and ?f = "send w 0xDEADBEEF 0 0 WRITE EOI"
  note d = broadcast_chans_distinct[OF wf(2) w(2)]
  have set: "set ?cs = outs w s" using broadcast_chans_set[OF wf(2) w(2)] by (auto simp: try_chans_def outs_def)
  have "set (broadcast_chans w s) \<subseteq> Ucvf w ` {..<strategy_workers s}" using broadcast_chans_set[OF wf(2) w(2)] by auto
  then have "card (set (broadcast_chans w s)) \<le> card (Ucvf w ` {..<strategy_workers s})" by (intro card_mono) simp_all
  also have "\<dots> \<le> strategy_workers s" using card_image_le[of "{..<strategy_workers s}" "Ucvf w"] by simp
  finally have "length (broadcast_chans w s) \<le> strategy_workers s" using d by (simp add: distinct_card)
  then have len: "length ?cs \<le> card (free_packets s w)" using b by (simp add: budget_def try_chans_def)
  have room: "\<forall>c \<in> set ?cs. has_room s L c" unfolding set using b by (simp add: budget_def has_room_def)
  obtain u where "rfold ?f ?cs s = Inr u" using send_all_returns[OF wf(1) w(1) main rep d room len, of "0xDEADBEEF" 0 0 WRITE EOI] by auto
  then obtain t0 t where t: "rfold ?f (broadcast_chans w s) s = Inr t0" "rfold ?f (try_chans w s) t0 = Inr t"
    by (auto simp: rfold_append rbind_eq_Inr)
  have "broadcast_event w 0xDEADBEEF 0 0 WRITE EOI s = Inr t"
    using t w(3) by (simp add: broadcast_event_def try_chans_same[OF send_all_frame[OF t(1)]])
  moreover from broadcast_event_delivered[OF wf w(1,2,4) rep _ this] w(3) obtain P where
    P: "delivered w (sent 0xDEADBEEF 0 0 WRITE EOI) (outs w s) s L P t" "pools_kept s t" by (auto simp: outs_def)
  moreover have "holds t check m q x" if h: "holds s check m q x" for check m q x
  proof -
    have "ptr (packets s q) \<noteq> 0" using h by (auto simp: holds_def Let_def)
    from delivered_kept[OF P(1) this] show ?thesis using h P(2) by (simp add: holds_def pools_kept_def)
  qed
  ultimately show ?thesis using c by (fastforce simp: delivered_def sent_def)
qed

lemma no_allocations:
  "vm_index s w = 0 \<Longrightarrow> flush_mallocs w s =
     Inr (s\<lparr>pmem := zero_range (vm_elem s w) (sizeof_instance * PAGE_SIZE) (pmem s), vm_index := (vm_index s)(w := 0)\<rparr>)"
  by (simp add: flush_mallocs_def broadcast_malloc_chunk_def)

lemma vm_index_irrelevant [simp]:
  fixes s :: "'a malloc_state_scheme"
  shows "holds (s\<lparr>vm_index := v\<rparr>) check m p a = holds s check m p a" "sender_ok w (s\<lparr>vm_index := v\<rparr>) = sender_ok w s"
    "chans_rep (s\<lparr>vm_index := v\<rparr>) L = chans_rep s L" "budget w k e (s\<lparr>vm_index := v\<rparr>) L = budget w k e s L"
    "forward_chans w iter (s\<lparr>vm_index := v\<rparr>) = forward_chans w iter s"
proof -
  show "holds (s\<lparr>vm_index := v\<rparr>) check m p a = holds s check m p a" by (simp add: holds_def)
  show "sender_ok w (s\<lparr>vm_index := v\<rparr>) = sender_ok w s"
    by (simp add: sender_ok_def packets_wf_def strategy_wf_def strategy_workers_def)
  show "chans_rep (s\<lparr>vm_index := v\<rparr>) L = chans_rep s L" by (simp add: chans_rep_def)
  show "budget w k e (s\<lparr>vm_index := v\<rparr>) L = budget w k e s L"
    by (simp add: budget_def free_chunks_def chunk_slots_def free_packets_def packet_slots_def outs_def strategy_workers_def get_defs)
  show "forward_chans w iter (s\<lparr>vm_index := v\<rparr>) = forward_chans w iter s" by (simp add: forward_chans_def get_defs)
qed

lemma send_touched_loop: "send_touched w iter sh s = Inr t \<Longrightarrow> same_loop s t"
  using send_touched_wrote[of w iter sh s t] by (auto simp: wrote_def split: if_splits)

lemma send_all_loop: "rfold (send_touched w iter) shs s = Inr t \<Longrightarrow> same_loop s t"
proof (induction shs arbitrary: s)
  case (Cons sh shs)
  then obtain u where u: "send_touched w iter sh s = Inr u" "rfold (send_touched w iter) shs u = Inr t" by (auto simp: rbind_eq_Inr)
  from same_loop_trans[OF send_touched_loop[OF u(1)] Cons.IH[OF u(2)]] show ?case .
qed simp

text \<open>All metadata pages, in the order in which \<open>end_iter\<close> visits them, and memory after the passes over predicted values.\<close>

definition visited :: "'a loop_state_scheme \<Rightarrow> addr list" where
  "visited s = shadow_globals s @ shadow_stacks s @ sorted_list_of_set (shadow_heaps s)"

definition end_mem :: "'a loop_state_scheme \<Rightarrow> mem" where
  "end_mem s = pmem (update_shadow_for_linear_predicted_values (update_shadow_for_loop_invariants s))"

lemma passes_eq: "update_shadow_for_linear_predicted_values (update_shadow_for_loop_invariants s) = s\<lparr>pmem := end_mem s\<rparr>"
  by (simp add: end_mem_def update_shadow_for_linear_predicted_values_def update_shadow_for_loop_invariants_def Let_def)

lemma send_iteration_eq:
  assumes v: "vm_index s w = 0"
    and t: "t = s\<lparr>pmem := zero_range (vm_elem s w) (sizeof_instance * PAGE_SIZE) (end_mem s), vm_index := (vm_index s)(w := 0)\<rparr>"
    and u: "rfold (send_touched w iter) (visited s) t = Inr u" "ro_index u = 0"
  shows "send_iteration w iter s = Inr u"
proof -
  from u(1) obtain a b where a: "rfold (send_touched w iter) (shadow_globals s) t = Inr a"
      "rfold (send_touched w iter) (shadow_stacks s) a = Inr b" "rfold (send_touched w iter) (sorted_list_of_set (shadow_heaps s)) b = Inr u"
    by (auto simp: visited_def rfold_append rbind_eq_Inr)
  have "same_loop t a" "same_loop t b" using send_all_loop[OF a(1)] same_loop_trans[OF _ send_all_loop[OF a(2)]] by auto
  then have "shadow_stacks a = shadow_stacks s" "shadow_heaps b = shadow_heaps s" by (simp_all add: same_loop_def t)
  moreover have "flush_mallocs w (update_shadow_for_linear_predicted_values (update_shadow_for_loop_invariants s)) = Inr t"
    unfolding passes_eq t using v by (subst no_allocations) simp_all
  ultimately show ?thesis using a u(2) by (simp add: send_iteration_def t forward_ro_page_def)
qed

subsection \<open>The beginning of the iteration in the next stage\<close>

lemma split_pairs:
  "list_all2 R ps (concat (map (\<lambda>y. [f y, g y]) ys)) \<Longrightarrow>
   \<exists>prs. ps = pair_list prs \<and> list_all2 (\<lambda>pq y. R (fst pq) (f y) \<and> R (snd pq) (g y)) prs ys"
proof (induction ys arbitrary: ps)
  case (Cons y ys)
  then obtain p q ps' where p: "ps = p # q # ps'" "R p (f y)" "R q (g y)" "list_all2 R ps' (concat (map (\<lambda>y. [f y, g y]) ys))"
    by (auto simp: list_all2_Cons2)
  from Cons.IH[OF p(4)] obtain prs where "ps' = pair_list prs" "list_all2 (\<lambda>pq y. R (fst pq) (f y) \<and> R (snd pq) (g y)) prs ys" by blast
  with p show ?case by (intro exI[of _ "(p, q) # prs"]) simp
qed (simp add: pair_list_def)

text \<open>The bytes of the page of \<open>sh\<close> that \<open>m\<close> marks as stored replace those of the receiver.\<close>

definition take_page :: "mem \<Rightarrow> addr \<Rightarrow> mem \<Rightarrow> mem" where
  "take_page m sh m' = (\<lambda>x. if x \<in> page_at (get_original_of sh) \<and> bit (m (get_shadow_of x)) 1 then m x else m' x)"

lemma pair_takes_page:
  assumes P: "shadow_pages_ok P" "sh \<in> P"
    and h: "holds s CHECK_REQUIRED (sent_mem P m) p (get_original_of sh)" "holds s CHECK_REQUIRED (sent_mem P m) q sh"
  shows "pair_effect s (p, q) m' = take_page m sh m'" "valid_pair s (p, q)"
proof -
  let ?a = "get_original_of sh"
  show "valid_pair s (p, q)" using h by (simp add: valid_pair_def holds_def Let_def)
  have al: "unat ?a mod PAGE_SIZE = 0" using P original_aligned by (auto simp: shadow_pages_ok_def)
  have main: "(if unat (x - ?a) < PAGE_SIZE \<and> bit (sent_mem P m (sh + of_nat (unat (x - ?a)))) 1
         then sent_mem P m (?a + of_nat (unat (x - ?a))) else m' x) = take_page m sh m' x" for x
  proof (cases "x \<in> page_at ?a")
    case True
    then obtain i where i: "i < PAGE_SIZE" "x = ?a + of_nat i" using page_at_mem by blast
    have sh: "get_shadow_of x = sh + of_nat i"
      using shadow_add[OF page_no_carry[OF al] i(1)] i(2) by simp
    have u: "unat (x - ?a) = i" using i by (simp add: unat_of_nat PAGE_SIZE_def)
    have xP: "x \<notin> P" using pages_apart(2)[OF P _ page_at_self] True by blast
    have bit1: "bit (sent_mem P m y) 1 \<longleftrightarrow> bit (m y) 1" for y by (simp add: sent_mem_def bit_simps)
    have e: "?a + of_nat i = x" using i(2) by simp
    have xm: "sent_mem P m x = m x" using xP by (simp add: sent_mem_def)
    show ?thesis unfolding u e xm bit1 take_page_def sh using True i(1) by simp
  next
    case False
    then show ?thesis by (simp add: take_page_def page_at_def)
  qed
  show "pair_effect s (p, q) m' = take_page m sh m'"
  proof
    fix x
    have "pair_effect s (p, q) m' x = (if unat (x - ?a) < PAGE_SIZE \<and> bit (sent_mem P m (sh + of_nat (unat (x - ?a)))) 1
        then sent_mem P m (?a + of_nat (unat (x - ?a))) else m' x)"
      using h by (auto simp: pair_effect_def Let_def holds_def merged_def)
    then show "pair_effect s (p, q) m' x = take_page m sh m' x" unfolding main .
  qed
qed

lemma fold_take_page:
  "fold (take_page m) shs m' x =
     (if (\<exists>sh \<in> set shs. x \<in> page_at (get_original_of sh)) \<and> bit (m (get_shadow_of x)) 1 then m x else m' x)"
  by (induction shs arbitrary: m') (auto simp: take_page_def)

text \<open>What the processes share, as the receiver sees it.\<close>

definition shares :: "'a comm_state_scheme \<Rightarrow> 'b comm_state_scheme \<Rightarrow> bool" where
  "shares s r \<longleftrightarrow> chan r = chan s \<and> packets r = packets s \<and> chunks r = chunks s \<and> num_stages r = num_stages s \<and>
     stage2rep r = stage2rep s \<and> wid2stage r = wid2stage s \<and> stage2firstwid r = stage2firstwid s \<and>
     try_commit_begin r = try_commit_begin s"

lemma shares_simps:
  assumes "shares s r"
  shows "chans_rep r L = chans_rep s L" "GET_MY_STAGE r w = GET_MY_STAGE s w" "GET_FIRST_WID_OF_STAGE r i = GET_FIRST_WID_OF_STAGE s i"
    "GET_REPLICATION_FACTOR r i = GET_REPLICATION_FACTOR s i" "queued r check m ps xs = queued s check m ps xs"
    "packets r = packets s" "chan r = chan s" "try_commit_begin r = try_commit_begin s"
proof -
  have "holds r check m p a = holds s check m p a" for p a using assms by (simp add: shares_def holds_def)
  then have "holds r check m = holds s check m" by blast
  then show "queued r check m ps xs = queued s check m ps xs" by (simp add: queued_def)
qed (use assms in \<open>simp_all add: shares_def chans_rep_def get_defs\<close>)

lemma receive_pages:
  fixes r :: "'b sep_state_scheme"
  assumes P: "shadow_pages_ok P" "set shs \<subseteq> P" and rep: "chans_rep r L" and w: "w' < try_commit_begin r" "GET_MY_STAGE r w' = 1"
    and src: "w = GET_FIRST_WID_OF_STAGE r 0 + wid_of_iter iter mod GET_REPLICATION_FACTOR r 0"
    and q: "chan r (Ucvf w w') \<noteq> None" "L (Ucvf w w') = ps @ [e]"
      "queued r CHECK_REQUIRED (sent_mem P m) ps (concat (map (\<lambda>sh. [get_original_of sh, sh]) shs))"
    and e: "pkind (packets r e) = EOI" "e \<notin> set ps"
  shows "\<exists>r'. process_incoming_packets mm w' iter r = Inr r' \<and> pmem r' = fold (take_page m) shs (pmem r)"
proof -
  from q(3) split_pairs[of "holds r CHECK_REQUIRED (sent_mem P m)" ps get_original_of "\<lambda>sh. sh" shs] obtain prs where
    prs: "ps = pair_list prs" "list_all2 (\<lambda>pq sh. holds r CHECK_REQUIRED (sent_mem P m) (fst pq) (get_original_of sh) \<and>
        holds r CHECK_REQUIRED (sent_mem P m) (snd pq) sh) prs shs" by (auto simp: queued_def)
  have eff: "fold (pair_effect r) prs m' = fold (take_page m) shs m' \<and> (\<forall>pq \<in> set prs. valid_pair r pq)" for m'
    using prs(2) P(2)
  proof (induction prs shs arbitrary: m' rule: list_all2_induct)
    case (Cons pq prs sh shs)
    then have "sh \<in> P" by simp
    with pair_takes_page[OF P(1) this, of r m "fst pq" "snd pq"] Cons show ?case by simp
  qed simp
  from incoming_applied[OF rep w(1), of "\<lambda>_. w" iter "\<lambda>_. prs" "\<lambda>_. e" "\<lambda>_. []" mm] obtain r' where
    "process_incoming_packets mm w' iter r = Inr r'" "pmem r' = fold (\<lambda>i. fold (pair_effect r) prs) [0..<GET_MY_STAGE r w'] (pmem r)"
    using w(2) src q e eff prs(1) by (auto simp: queued_def)
  then show ?thesis using w(2) eff by simp
qed

text \<open>What the sender leaves in the queue of the next stage.\<close>

lemma end_iter_sends:
  fixes s :: "'a loop_state_scheme"
  assumes ok: "sender_ok (my_wid s) s" and it: "run_iteration s (my_wid s) (current_iteration s)"
    and c: "c \<in> set (forward_chans (my_wid s) (current_iteration s) s)"
    and pages: "shadow_pages_ok (set (visited s))" "distinct (visited s)"
      "apart (set (visited s) \<union> get_original_of ` set (visited s)) (vm_elem s (my_wid s)) (sizeof_instance * PAGE_SIZE)"
      "\<forall>sh \<in> set (visited s). bit (end_mem s sh) 7 \<longrightarrow> dense sh ((end_mem s)(sh := end_mem s sh AND 0x7f))"
    and buf: "vm_index s (my_wid s) = 0" "ro_index s = 0"
    and L: "chans_rep s L" "L c = []" "budget (my_wid s) (length (sent_pages (end_mem s) (visited s))) (strategy_workers s + num_aux_workers s) s L"
  shows "\<exists>s' L' ps e. end_iter s = Inr s' \<and> chans_rep s' L' \<and> L' c = ps @ [e] \<and> e \<notin> set ps \<and> pkind (packets s' e) = EOI \<and>
    queued s' CHECK_REQUIRED (sent_mem (set (visited s)) (end_mem s)) ps (sent_pages (end_mem s) (visited s)) \<and>
    shares (s\<lparr>chan := chan s', packets := packets s', chunks := chunks s'\<rparr>) s' \<and> chan s' c \<noteq> None"
proof -
  let ?w = "my_wid s" and ?i = "current_iteration s" and ?P = "set (visited s)" and ?m = "end_mem s"
  let ?t = "s\<lparr>pmem := zero_range (vm_elem s ?w) (sizeof_instance * PAGE_SIZE) ?m, vm_index := (vm_index s)(?w := 0)\<rparr>"
  have m: "\<forall>sh \<in> ?P. \<forall>x \<in> page_at sh \<union> page_at (get_original_of sh). pmem ?t x = ?m x"
    using pages(3) by (auto simp: zero_range_def apart_def)
  have q0: "queued ?t CHECK_REQUIRED (sent_mem ?P ?m) (L c) []" by (simp add: queued_def L(2))
  have pre: "sender_ok ?w ?t" "chans_rep ?t L" "c \<in> set (forward_chans ?w ?i ?t)"
    "budget ?w (length (sent_pages ?m (visited s)) + 0) (strategy_workers s + num_aux_workers s) ?t L"
    using ok L c by simp_all
  from send_all_step[OF pages(1) subset_refl pages(2,4) pre(1,2,4,3) q0 m] obtain u L1 where
    u: "rfold (send_touched ?w ?i) (visited s) ?t = Inr u" "moved ?t u" "sender_ok ?w u" "chans_rep u L1"
      "budget ?w 0 (strategy_workers s + num_aux_workers s) u L1" "queued u CHECK_REQUIRED (sent_mem ?P ?m) (L1 c) (sent_pages ?m (visited s))"
    by auto
  note mv = u(2)[unfolded moved_def]
  have ro: "ro_index u = 0" using same_rest_loop(3)[OF mv] buf(2) by simp
  have tb: "strategy_workers u = strategy_workers s" "num_aux_workers u = num_aux_workers s" "run_iteration u ?w ?i"
      "c \<in> set (forward_chans ?w ?i u)"
    using same_restD[OF mv] it c by (simp_all add: strategy_workers_def run_iteration_def get_defs forward_chans_def)
  have co: "c \<in> outs ?w u" using forward_chans_outs[of u] u(3) tb(4) by (auto simp: sender_ok_def)
  from eoi_step[OF u(3,4) co] u(5) tb obtain v L2 e where
    v: "broadcast_event ?w 0xDEADBEEF 0 0 WRITE EOI u = Inr v" "pools_kept u v" "chans_rep v L2" "L2 c = L1 c @ [e]"
      "ptr (packets u e) = 0" "pkind (packets v e) = EOI" "\<And>check m q x. holds u check m q x \<Longrightarrow> holds v check m q x"
    by auto
  have "?w - GET_FIRST_WID_OF_STAGE u (GET_MY_STAGE u ?w) = GET_WID_OFFSET_IN_STAGE u (wid_of_iter ?i) (GET_MY_STAGE u ?w)"
    using eoi_test_iff[of u ?w ?i] u(3) tb(3) by (simp add: sender_ok_def)
  moreover have "GET_MY_STAGE u ?w = GET_MY_STAGE s ?w" using same_restD[OF mv] by (simp add: get_defs)
  ultimately have "end_iter s = Inr (advance_iter v)"
    using send_iteration_eq[where w = ?w and iter = ?i, OF buf(1) refl u(1) ro] it v(1) by (simp add: end_iter_def Let_def)
  moreover have "e \<notin> set (L1 c)"
    using u(6) v(5) by (fastforce simp: queued_def list_all2_conv_all_nth in_set_conv_nth holds_def Let_def)
  moreover have "queued v CHECK_REQUIRED (sent_mem ?P ?m) (L1 c) (sent_pages ?m (visited s))"
    using u(6) v(7) by (auto simp: queued_def elim: list_all2_mono)
  moreover have "chan v c \<noteq> None" using v(2) u(5) co by (auto simp: budget_def pools_kept_def)
  moreover have "shares (s\<lparr>chan := chan v, packets := packets v, chunks := chunks v\<rparr>) v"
    using same_restD[OF mv] v(2) same_restD[of u v] by (simp add: shares_def pools_kept_def)
  ultimately show ?thesis using v(3,4,6)
    by (intro exI[of _ "advance_iter v"] exI[of _ L2] exI[of _ "L1 c"] exI[of _ e])
      (simp add: advance_iter_def chans_rep_def queued_def holds_def[abs_def] shares_def)
qed

subsection \<open>Stores reach the next stage\<close>


subsection \<open>A concrete iteration\<close>

text \<open>The worker of stage 0 of the pipeline \<open>ldemo\<close> has stored 7 to every byte of the page at \<open>0x5000\<close>.\<close>

definition fdemo_mem :: mem where
  "fdemo_mem = (\<lambda>x. if x = 0x200000005000 then 0x82 else if unat (x - 0x200000005000) < PAGE_SIZE then 2
     else if unat (x - 0x5000) < PAGE_SIZE then 7 else 0)"

definition fdemo :: loop_state where
  "fdemo = ldemo\<lparr>pmem := fdemo_mem, shadow_heaps := {0x200000005000}, vm_index := (\<lambda>_. 0)\<rparr>"

lemma ldemo_chunks: "card (free_chunks (ldemo\<lparr>pmem := m, shadow_heaps := H, vm_index := v\<rparr> :: loop_state) 0) = PACKET_POOL_SIZE"
proof -
  have b: "packet_chunk_begins (demo (\<lambda>_. 0)) ! 0 = 0x1000000000" by (simp add: demo_def)
  have "pool_fits sizeof_packet_chunk PACKET_POOL_SIZE 0x1000000000"
    by (simp add: pool_fits_def sizeof_packet_chunk_def PAGE_SIZE_def PACKET_POOL_SIZE_def)
  then have "inj_on (slot_at sizeof_packet_chunk 0x1000000000) {..<PACKET_POOL_SIZE}"
    using ck.slot_inj by (simp add: inj_on_def)
  moreover have "free_chunks (ldemo\<lparr>pmem := m, shadow_heaps := H, vm_index := v\<rparr> :: loop_state) 0 =
      slot_at sizeof_packet_chunk 0x1000000000 ` {..<PACKET_POOL_SIZE}"
    by (auto simp: free_chunks_def chunk_slots_def b is_chunk_available_iff) (auto simp: demo_def zero_chunk_def)
  ultimately show ?thesis by (simp add: card_image)
qed

lemma fdemo_ok:
  "sender_ok 0 fdemo" "chans_rep fdemo (\<lambda>_. [])" "budget 0 2 3 fdemo (\<lambda>_. [])" "strategy_workers fdemo = 2" "num_aux_workers fdemo = 1"
  "GET_MY_STAGE fdemo 0 = 0" "GET_MY_STAGE fdemo (Suc 0) = Suc 0" "run_iteration fdemo 0 4" "run_iteration fdemo (Suc 0) 4"
proof -
  note ok = ldemo_ok[OF fdemo_def]
  show sw: "strategy_workers fdemo = 2" "num_aux_workers fdemo = 1" "GET_MY_STAGE fdemo 0 = 0" "GET_MY_STAGE fdemo (Suc 0) = Suc 0"
    "run_iteration fdemo 0 4" "run_iteration fdemo (Suc 0) 4"
    by (simp_all add: fdemo_def strategy_workers_def demo_def two_stages_def get_defs run_iteration_def)
  show "chans_rep fdemo (\<lambda>_. [])" by (rule ok)
  have "length (packet_begins fdemo) = 3" "length (packet_chunk_begins fdemo) = 3" "try_commit_begin fdemo = 2" by (simp_all add: fdemo_def)
  then show "sender_ok 0 fdemo" using ok sw by (simp add: sender_ok_def MAX_WORKERS_def)
  have "outs 0 fdemo \<subseteq> {Ucvf 0 1, ToTry 0 0}" using sw by (auto simp: outs_def less_2_cases_iff)
  moreover have "chan fdemo (Ucvf 0 1) \<noteq> None" "chan fdemo (ToTry 0 0) \<noteq> None" by (simp_all add: fdemo_def)
  moreover have "num_stages fdemo = 2" by (simp add: fdemo_def demo_def two_stages_def)
  moreover have "card (free_chunks fdemo 0) = PACKET_POOL_SIZE" unfolding fdemo_def by (rule ldemo_chunks)
  ultimately show "budget 0 2 3 fdemo (\<lambda>_. [])"
    using ok(4) demo_ok(4)[of 0 "\<lambda>_. 0"] by (auto simp: budget_def PACKET_POOL_SIZE_def QUEUE_SIZE_def)
qed

lemma fdemo_pages: "visited fdemo = [0x200000005000]" "end_mem fdemo = fdemo_mem"
  "dense 0x200000005000 (fdemo_mem(0x200000005000 := fdemo_mem 0x200000005000 AND 0x7f))"
proof -
  let ?sh = "0x200000005000 :: addr"
  show "visited fdemo = [?sh]" by (simp add: visited_def fdemo_def)
  show "end_mem fdemo = fdemo_mem"
    by (simp add: end_mem_def update_shadow_for_linear_predicted_values_def update_shadow_for_loop_invariants_def fdemo_def
        li_entries_def lp_entries_def)
  let ?m = "fdemo_mem(?sh := fdemo_mem ?sh AND 0x7f)"
  have m: "?m (?sh + of_nat i) = 2" if "i < PAGE_SIZE" for i
    using in_page[OF that, of ?sh] by (auto simp: fdemo_mem_def page_at_def)
  have "k \<in> meta_words ?sh ?m \<longleftrightarrow> k < 512" for k
  proof -
    have "?m (?sh + of_nat (8 * k + 0)) \<noteq> 0" if "k < 512" using m[of "8 * k + 0"] that by (simp only: PAGE_SIZE_def) simp
    then show ?thesis unfolding meta_words_iff PAGE_SIZE_def by (intro iffI conjI exI[of _ 0]) simp_all
  qed
  then have "meta_words ?sh ?m = {..<512}" by auto
  moreover have "0 < PAGE_SIZE" "?m (?sh + of_nat 0) AND 0xfb \<noteq> 0" using m[of 0] by (simp_all only: PAGE_SIZE_def) simp_all
  ultimately show "dense ?sh ?m" unfolding dense_def by (intro conjI exI[of _ 0]) simp_all
qed


end
