(* ===== verification/Spec2Isabelle.thy ===== *)
theory Spec2Isabelle
  imports Memops Sw_Queue_Conc Control Specpriv_Queue Pipeline_Flow
begin

text \<open>
  \<^bold>\<open>Verification of the SMTX runtime of CPF.\<close>

  CPF is a compiler that parallelises loops speculatively. The code it generates runs on a runtime library, the
  software multi-threaded transaction (SMTX) executive under \<open>src/liberty/support/specpriv-smtx-executive\<close>,
  which this development models. Paths below are relative to that directory.

  \<^bold>\<open>The program.\<close> A loop is cut into pipeline stages, each run by one or more worker processes; iteration \<open>i\<close> of
  a stage belongs to worker \<open>i mod replicas\<close>. Every load and store of program data marks a metadata (shadow)
  byte. At the end of an iteration a worker sends the pages it touched, each with its metadata, to the workers
  of the later stages and to a try-commit unit. A later stage merges the stored bytes before it runs the
  iteration. A try-commit unit replays the iteration stage by stage on its own memory, checks that each byte
  that was loaded before it was stored was last written by an allowed stage, and passes the packets on to the
  commit process, which applies them to its memory and counts the committed iterations. A failed check, a
  mispredicted value or an unexpected event is a misspeculation: the smallest such iteration is recorded in a
  shared control block, everybody stops, and the main process re-executes from there.

  \<^bold>\<open>Theories and sources.\<close>
  \<^item> \<open>Smtx_Prelude\<close>: results with faults, byte-addressed memory, byte lanes of words.
  \<^item> \<open>Layout\<close>: \<open>include/internals/constants.h\<close>; addresses, pages, shadow translation, codes.
  \<^item> \<open>Memops\<close>: \<open>smtx/memops.cpp\<close>; the metadata updates of each access size.
  \<^item> \<open>Strategy\<close>: \<open>strategy.cpp\<close>; stages, workers, who runs an iteration. Locale \<open>pipeline\<close>.
  \<^item> \<open>Sw_Queue\<close>, \<open>Sw_Queue_Conc\<close>: \<open>sw_queue/sw_queue.cpp\<close>; the ring, as a sequential data structure (locale
    \<open>bounded_fifo\<close>) and as a producer and a consumer process interleaved access by access.
  \<^item> \<open>Simd\<close>, \<open>Pages\<close>: the SSE intrinsics and the page routines of \<open>smtx/units.cpp\<close>, against byte-wise loops.
  \<^item> \<open>Packet\<close>: \<open>smtx/packet.cpp\<close>; pools of packets and page-sized chunks.
  \<^item> \<open>Communicate\<close>: \<open>smtx/communicate.cpp\<close>; the queue tables and every send routine.
  \<^item> \<open>Ver_Malloc\<close>, \<open>Separation\<close>: \<open>smtx/malloc.cpp\<close>, \<open>smtx/separation.cpp\<close>; allocation and its replay.
  \<^item> \<open>Speculation\<close>: \<open>pcb.cpp\<close>, \<open>private.cpp\<close>, \<open>speculation.cpp\<close>; control block and misspeculation.
  \<^item> \<open>Protection\<close>: \<open>smtx/protection.cpp\<close>; the page-fault handler that marks touched pages.
  \<^item> \<open>Prediction\<close>: \<open>smtx/prediction.cpp\<close>; loop-invariant and linearly predicted values.
  \<^item> \<open>Incoming\<close>, \<open>Try_Commit\<close>, \<open>Commit\<close>: the packet handlers of \<open>smtx/units.cpp\<close>: workers, units, commit process.
  \<^item> \<open>Loopevent\<close>: \<open>loopevent.cpp\<close>, \<open>utils.cpp\<close>; beginning and end of an iteration.
  \<^item> \<open>Procmaps\<close>, \<open>Control\<close>: \<open>include/internals/smtx/procmapsinfo.h\<close>, \<open>smtx/smtx.cpp\<close>, \<open>control.cpp\<close>; start-up, forking, joining.
  \<^item> \<open>Specpriv_Queue\<close>: \<open>specpriv_queue.cpp\<close>; the queues for register values between stages.
  \<^item> \<open>Pipeline_Flow\<close>: the composition of the end of an iteration in one stage with its beginning in the next.

  \<^bold>\<open>State.\<close> The global and static variables of the files form one record, extended theory by theory in the order
  of the calls (\<open>strategy\<close>, \<open>packet_state\<close>, \<open>comm_state\<close>, \<open>malloc_state\<close>, \<open>sep_state\<close>, \<open>run_state\<close>, \<open>prot_state\<close>,
  \<open>pred_state\<close>, \<open>loop_state\<close>, \<open>control_state\<close>); an operation takes the scheme of the record it needs, so that it
  applies to every extension. Packets and chunks in shared memory are maps from addresses; queues are a map from the
  name of the channel (\<open>Ucvf\<close>, \<open>ToTry\<close>, \<open>ToCommit\<close>, \<open>Reverse\<close>). \<open>pmem\<close> is the private memory of the process that
  runs. A function returns \<open>'a res\<close>; a failed assertion, a wait that nobody ends, an exit and an access outside an array
  are faults. Calls that end the process in the middle of an iteration return an \<open>outcome\<close>.

  \<^bold>\<open>What is shown.\<close>
  \<^item> Queues: the ring refines a bounded FIFO; under every interleaving of the two processes the consumer reads a prefix
    of what was produced, and nobody gets stuck before everything is delivered; value queues are independent FIFO lanes.
  \<^item> Metadata: a byte of metadata is exactly the history of the accesses to its byte; block stores, page protection and
    the end of an iteration keep or reset it as intended.
  \<^item> Data flow: forwards and broadcasts reach exactly their receivers and return when there is room; receivers apply values
    completely and in order; the stores of the first stage are what the second stage sees.
  \<^item> Validation and commit: the SSE routines agree with the byte-wise loops; an iteration that fails commits nothing;
    the commit process is a barrier over the units, stage by stage.
  \<^item> Misspeculation: the control block keeps the earliest misspeculated iteration; the race without a lock is exhibited.
  \<^item> Allocation: blocks are disjoint and inside the share of their worker; replay returns the same addresses.
  \<^item> Prediction, start-up, forking and joining: round trips and exact verdicts.
  Errors that modelling found are stated as theorems where they are a property of one operation (lost packets with
  a null address, routing of a page and its metadata to different units, allocation wrap-around, the metadata pass that
  changes nothing, the decimal reading of a hexadecimal offset).

  \<^bold>\<open>Bounds and fuel.\<close> The walk through a pool makes at most \<open>PACKET_POOL_SIZE\<close> steps: a full round without a free
  entry repeats forever when nobody else runs, which is \<open>Spin\<close>. Draining a queue has fuel \<open>QUEUE_SIZE\<close>, twice the number
  of entries a queue can hold, so the fuel never ends the loop; \<open>process_reverse_commit_queue_terminates\<close> proves it for
  the reverse queue. The iterations of a try-commit unit and the rounds of the commit process are unbounded in the
  program; their number, the answers of \<open>waitpid\<close> and the states in which other processes leave shared memory while
  \<open>begin_iter\<close> waits are arguments, and the theorems hold for all of them.

  \<^bold>\<open>Parameters.\<close> Answers of the operating system (where \<open>mmap\<close> and \<open>mprotect\<close> succeed, addresses of fresh memory,
  \<open>fork\<close>, \<open>waitpid\<close>, the lines of \<open>/proc/self/maps\<close>, the environment), results of jemalloc, floating-point arithmetic in
  linear prediction, and the loop body the compiler generates.

  \<^bold>\<open>Not modelled.\<close> Debug and profile output (compiled out by the switches of \<open>constants.h\<close>), CPU affinities, unmapping
  at the end, signal set-up. Operations of different processes interleave at the granularity of whole calls, except
  for the queue and the misspeculation record, which are also treated access by access. The vendored jemalloc, the LLVM
  passes (they work on LLVM IR through an API that is not part of the sources), the older executive and the other
  runtimes under \<open>src/liberty/support\<close> and the profilers are outside.

  \<^bold>\<open>Plan.\<close> Next: the sparse path of \<open>forward_pair\<close> and the units in the composition theorem, pipelines of more than two
  stages, then the data structures of the older executive (checkpoints, reductions).
\<close>

end
